(* ===== verification/HW_Prelude.thy ===== *)
theory HW_Prelude
  imports Complex_Main "HOL-Library.Word" "HOL-Library.Multiset"
begin

text \<open>
  Shared vocabulary of the development.

  \<^item> The collections \<open>hw_defs\<close> (definitions that every proof of a component unfolds) and
    \<open>hw_inv\<close> (invariant lemmas).
  \<^item> JavaScript strings as lists of UTF-16 code units, with \<open>lit\<close> turning an ASCII literal of
    the source into such a list.
  \<^item> The two list operations of JavaScript the console uses with negative or missing positions,
    \<open>slice(-n)\<close> and \<open>at(-1)\<close>.
  \<^item> The interface \<open>machine\<close>: a deterministic machine with an initial state, a step per event and
    an invariant. Every stateful part of the program (the console session, the run and job
    detail pages, the landing page's menu and copy button, the durable stream) interprets it.
\<close>

named_theorems hw_defs "definitions unfolded together in the component proofs"
named_theorems hw_inv "invariants of the components"

section \<open>JavaScript strings\<close>

type_synonym code_unit = "16 word"
type_synonym jsstr = "code_unit list"

definition unit_of :: "char \<Rightarrow> code_unit" where
  "unit_of c = of_nat (of_char c)"

definition lit :: "string \<Rightarrow> jsstr" where
  "lit s = map unit_of s"

lemma unat_unit_of [simp]: "unat (unit_of c) = of_char c"
proof -
  have "(of_char c :: nat) < 65536" by (rule less_trans [OF nat_of_char_less_256]) simp
  then show ?thesis by (simp add: unit_of_def unat_of_nat)
qed

lemma unit_of_eq_iff [simp]: "unit_of a = unit_of b \<longleftrightarrow> a = b"
proof
  assume "unit_of a = unit_of b"
  then have "(of_char a :: nat) = of_char b" by (metis unat_unit_of)
  then show "a = b" by simp
qed simp

lemma lit_eq_iff [simp]: "lit a = lit b \<longleftrightarrow> a = b"
proof -
  have "inj unit_of" by (rule injI) simp
  then show ?thesis by (simp add: lit_def inj_map_eq_map)
qed

lemma lit_simps [simp]:
  "lit [] = []" "lit (c # s) = unit_of c # lit s" "lit (s @ t) = lit s @ lit t"
  "length (lit s) = length s"
  by (simp_all add: lit_def)

text \<open>
  The simplifier would rewrite every literal into its code units; the proofs compare whole
  literals with \<open>lit_eq_iff\<close> instead.
\<close>

declare lit_simps(2,3) [simp del]

lemma lit_eq_Nil [simp]: "lit s = [] \<longleftrightarrow> s = []" "[] = lit s \<longleftrightarrow> s = []"
  by (auto simp: lit_def)

section \<open>Lists the way JavaScript reads them\<close>

text \<open>\<open>xs.slice(-n)\<close>: the last \<open>n\<close> elements, all of them when there are fewer.\<close>

definition slice_last :: "nat \<Rightarrow> 'a list \<Rightarrow> 'a list" where
  "slice_last n xs = drop (length xs - n) xs"

lemma length_slice_last [simp]: "length (slice_last n xs) = min n (length xs)"
  by (simp add: slice_last_def)

lemma set_slice_last: "set (slice_last n xs) \<subseteq> set xs"
  by (simp add: slice_last_def set_drop_subset)

lemma slice_last_all: "length xs \<le> n \<Longrightarrow> slice_last n xs = xs"
  by (simp add: slice_last_def)

lemma last_slice_last: "xs \<noteq> [] \<Longrightarrow> 0 < n \<Longrightarrow> last (slice_last n xs) = last xs"
  by (cases "length xs \<le> n") (auto simp: slice_last_def not_le)

lemma sorted_wrt_slice_last: "sorted_wrt P xs \<Longrightarrow> sorted_wrt P (slice_last n xs)"
  by (simp add: slice_last_def sorted_wrt_drop)

text \<open>\<open>xs[0]\<close> and \<open>xs.at(-1)\<close>, \<open>undefined\<close> on the empty list.\<close>

definition first_of :: "'a list \<Rightarrow> 'a option" where
  "first_of xs = (case xs of [] \<Rightarrow> None | x # _ \<Rightarrow> Some x)"

definition last_of :: "'a list \<Rightarrow> 'a option" where
  "last_of xs = (if xs = [] then None else Some (last xs))"

lemma first_of_simps [simp]: "first_of [] = None" "first_of (x # xs) = Some x"
  by (simp_all add: first_of_def)

lemma last_of_simps [simp]: "last_of [] = None" "last_of (xs @ [x]) = Some x"
  by (simp_all add: last_of_def)

lemma first_of_Some: "first_of xs = Some x \<Longrightarrow> x \<in> set xs"
  by (cases xs) auto

lemma last_of_Some: "last_of xs = Some x \<Longrightarrow> x \<in> set xs"
  by (auto simp: last_of_def split: if_splits)

text \<open>\<open>xs.find(p)\<close> is \<open>List.find\<close>; an in-place update of the element it returns:\<close>

fun update_first :: "('a \<Rightarrow> bool) \<Rightarrow> ('a \<Rightarrow> 'a) \<Rightarrow> 'a list \<Rightarrow> 'a list" where
  "update_first p f [] = []"
| "update_first p f (x # xs) = (if p x then f x # xs else x # update_first p f xs)"

lemma length_update_first [simp]: "length (update_first p f xs) = length xs"
  by (induction xs) auto

lemma update_first_all:
  assumes "\<And>x. Q x \<Longrightarrow> p x \<Longrightarrow> Q (f x)" and "\<forall>x \<in> set xs. Q x"
  shows "\<forall>x \<in> set (update_first p f xs). Q x"
  using assms(2) by (induction xs) (auto intro: assms(1))

lemma map_update_first: "(\<And>x. p x \<Longrightarrow> g (f x) = g x) \<Longrightarrow> map g (update_first p f xs) = map g xs"
  by (induction xs) auto

lemma update_first_none: "(\<And>x. x \<in> set xs \<Longrightarrow> \<not> p x) \<Longrightarrow> update_first p f xs = xs"
  by (induction xs) auto

lemma find_SomeD: "List.find p xs = Some x \<Longrightarrow> x \<in> set xs \<and> p x"
  by (induction xs) (auto split: if_splits)

lemma in_remove1: "x \<in> set (remove1 a xs) \<Longrightarrow> x \<in> set xs"
  using set_remove1_subset by fast

text \<open>\<open>[...xs].sort(cmp)\<close> with a boolean "\<open>a\<close> may precede \<open>b\<close>": the stable sort that
  ECMAScript 2019 requires.\<close>

fun insert_by :: "('a \<Rightarrow> 'a \<Rightarrow> bool) \<Rightarrow> 'a \<Rightarrow> 'a list \<Rightarrow> 'a list" where
  "insert_by le x [] = [x]"
| "insert_by le x (y # ys) = (if le x y then x # y # ys else y # insert_by le x ys)"

definition sort_by :: "('a \<Rightarrow> 'a \<Rightarrow> bool) \<Rightarrow> 'a list \<Rightarrow> 'a list" where
  "sort_by le xs = foldr (insert_by le) xs []"

lemma sort_by_simps [simp]:
  "sort_by le [] = []" "sort_by le (x # xs) = insert_by le x (sort_by le xs)"
  by (simp_all add: sort_by_def)

lemma set_insert_by [simp]: "set (insert_by le x xs) = insert x (set xs)"
  by (induction xs) auto

lemma set_sort_by [simp]: "set (sort_by le xs) = set xs"
  by (induction xs) auto

lemma length_insert_by [simp]: "length (insert_by le x xs) = Suc (length xs)"
  by (induction xs) auto

lemma length_sort_by [simp]: "length (sort_by le xs) = length xs"
  by (induction xs) auto

text \<open>What the contract of the sort promises: a permutation, in order, and stable (elements that may
  precede each other keep their order).\<close>

lemma mset_insert_by [simp]: "mset (insert_by le x xs) = add_mset x (mset xs)"
  by (induction xs) auto

lemma mset_sort_by [simp]: "mset (sort_by le xs) = mset xs"
  by (induction xs) auto

definition ordering_on :: "'a set \<Rightarrow> ('a \<Rightarrow> 'a \<Rightarrow> bool) \<Rightarrow> bool" where
  "ordering_on A le \<longleftrightarrow> (\<forall>x \<in> A. \<forall>y \<in> A. le x y \<or> le y x)
     \<and> (\<forall>x \<in> A. \<forall>y \<in> A. \<forall>z \<in> A. le x y \<longrightarrow> le y z \<longrightarrow> le x z)"

lemma ordering_onD:
  assumes "ordering_on A le"
  shows "x \<in> A \<Longrightarrow> y \<in> A \<Longrightarrow> le x y \<or> le y x"
    and "x \<in> A \<Longrightarrow> y \<in> A \<Longrightarrow> z \<in> A \<Longrightarrow> le x y \<Longrightarrow> le y z \<Longrightarrow> le x z"
  using assms unfolding ordering_on_def by blast+

lemma sorted_insert_by:
  assumes "ordering_on A le" "x \<in> A" "set ys \<subseteq> A" "sorted_wrt le ys"
  shows "sorted_wrt le (insert_by le x ys)"
  using assms(3,4)
proof (induction ys)
  case (Cons y ys)
  then have IH: "sorted_wrt le (insert_by le x ys)" and y: "y \<in> A" "set ys \<subseteq> A" by simp_all
  show ?case
  proof (cases "le x y")
    case True
    have "le x z" if "z \<in> set ys" for z
      using ordering_onD(2) [OF assms(1,2) y(1) _ True, of z] that y(2) Cons.prems(2) by auto
    with True Cons.prems(2) show ?thesis by simp
  next
    case False
    then have "le y x" using ordering_onD(1) [OF assms(1,2) y(1)] by simp
    with False IH Cons.prems(2) show ?thesis by simp
  qed
qed simp

lemma sorted_sort_by: "ordering_on A le \<Longrightarrow> set xs \<subseteq> A \<Longrightarrow> sorted_wrt le (sort_by le xs)"
  by (induction xs) (simp_all add: sorted_insert_by)

lemma filter_insert_by:
  "(\<And>y. y \<in> set ys \<Longrightarrow> P x \<Longrightarrow> P y \<Longrightarrow> le x y)
   \<Longrightarrow> filter P (insert_by le x ys) = (if P x then x # filter P ys else filter P ys)"
  by (induction ys) auto

lemma stable_sort_by:
  assumes "\<And>x y. x \<in> set xs \<Longrightarrow> y \<in> set xs \<Longrightarrow> P x \<Longrightarrow> P y \<Longrightarrow> le x y"
  shows "filter P (sort_by le xs) = filter P xs"
  using assms
proof (induction xs)
  case (Cons x xs)
  then have "filter P (sort_by le xs) = filter P xs" by simp
  moreover have "filter P (insert_by le x (sort_by le xs))
      = (if P x then x # filter P (sort_by le xs) else filter P (sort_by le xs))"
    by (rule filter_insert_by) (use Cons.prems in auto)
  ultimately show ?case by simp
qed simp

section \<open>Machines\<close>

text \<open>
  The contract every stateful component of the program offers its clients: an initial state that
  satisfies the invariant, and a step that keeps it whatever admissible event arrives. What holds of
  every reachable state is proved once, here, by induction on the sequence of events.
\<close>

locale machine =
  fixes init :: "'s \<Rightarrow> bool"
    and step :: "'s \<Rightarrow> 'e \<Rightarrow> 's"
    and ok :: "'e \<Rightarrow> bool"
    and inv :: "'s \<Rightarrow> bool"
  assumes init_inv: "init s \<Longrightarrow> inv s"
    and step_inv: "inv s \<Longrightarrow> ok e \<Longrightarrow> inv (step s e)"
begin

lemma run_inv_from: "inv s \<Longrightarrow> list_all ok es \<Longrightarrow> inv (foldl step s es)"
  by (induction es arbitrary: s) (auto intro: step_inv)

lemma run_inv: "init s \<Longrightarrow> list_all ok es \<Longrightarrow> inv (foldl step s es)"
  by (blast intro: run_inv_from init_inv)

end

text \<open>
  A machine with a quantity that no step lowers (in the preorder \<open>le\<close>): what a run can only
  move forward.
\<close>

locale forward_machine = machine init step ok inv
  for init :: "'s \<Rightarrow> bool" and step :: "'s \<Rightarrow> 'e \<Rightarrow> 's" and ok :: "'e \<Rightarrow> bool"
    and inv :: "'s \<Rightarrow> bool" +
  fixes val :: "'s \<Rightarrow> 'v"
    and le :: "'v \<Rightarrow> 'v \<Rightarrow> bool"
  assumes le_refl: "le v v"
    and le_trans: "le u v \<Longrightarrow> le v w \<Longrightarrow> le u w"
    and step_forward: "inv s \<Longrightarrow> ok e \<Longrightarrow> le (val s) (val (step s e))"
begin

lemma run_forward_from: "inv s \<Longrightarrow> list_all ok es \<Longrightarrow> le (val s) (val (foldl step s es))"
proof (induction es arbitrary: s)
  case Nil
  show ?case by (simp add: le_refl)
next
  case (Cons e es)
  then have "le (val (step s e)) (val (foldl step (step s e) es))"
    by (intro Cons.IH) (auto intro: step_inv)
  with step_forward [of s e] Cons.prems show ?case by (auto intro: le_trans)
qed

lemma run_forward:
  "init s \<Longrightarrow> list_all ok (es @ fs) \<Longrightarrow> le (val (foldl step s es)) (val (foldl step s (es @ fs)))"
  using run_forward_from [of "foldl step s es" fs] by (simp add: run_inv)

end

end
