(* ===== verification/Binary64.thy ===== *)
theory Binary64
  imports HW_Prelude "HOL-Library.Log_Nat"
begin

text \<open>
  IEEE 754 binary64 numbers, the \<open>number\<close> of JavaScript and the \<open>f64\<close> of Rust, with the
  operations the modelled code performs on them. A finite number is the rational it denotes;
  every arithmetic result is the exact rational result rounded to nearest, ties to even, with
  gradual underflow at \<open>2 ^ -1074\<close> and overflow to an infinity at \<open>2 ^ 1024\<close>. The only value
  of the format that is identified with another one is negative zero (with zero): no operation
  below can tell the two apart.

  The interface \<open>rounding\<close> states what the clients rely on (rounding is monotone, idempotent,
  odd and keeps integers of up to 53 bits); it is interpreted by \<open>round64\<close>.
\<close>

section \<open>Rounding\<close>

definition pow2 :: "int \<Rightarrow> rat" where
  "pow2 k = (if 0 \<le> k then 2 ^ nat k else 1 / 2 ^ nat (- k))"

lemma pow2_powi: "pow2 k = 2 powi k"
  by (simp add: pow2_def power_int_def field_simps)

lemma pow2_pos [simp]: "0 < pow2 k"
  by (simp add: pow2_def)

lemma pow2_nonneg [simp]: "0 \<le> pow2 k"
  by (rule less_imp_le) simp

lemma pow2_nz [simp]: "pow2 k \<noteq> 0"
  by (rule less_imp_neq [OF pow2_pos, symmetric])

lemma pow2_add: "pow2 (a + b) = pow2 a * pow2 b"
  by (simp add: pow2_powi power_int_add)

lemma pow2_diff: "pow2 (a - b) = pow2 a / pow2 b"
  by (simp add: pow2_powi power_int_diff)

lemma pow2_le_iff [simp]: "pow2 a \<le> pow2 b \<longleftrightarrow> a \<le> b"
proof
  assume "a \<le> b"
  then show "pow2 a \<le> pow2 b" by (simp add: pow2_powi power_int_increasing)
next
  assume le: "pow2 a \<le> pow2 b"
  show "a \<le> b"
  proof (rule ccontr)
    assume "\<not> a \<le> b"
    then have "pow2 b < pow2 a" by (simp add: pow2_powi power_int_strict_increasing)
    with le show False by simp
  qed
qed

lemma pow2_less_iff [simp]: "pow2 a < pow2 b \<longleftrightarrow> a < b"
  by (simp flip: not_le)

lemma pow2_int: "0 \<le> k \<Longrightarrow> pow2 k = of_int (2 ^ nat k)"
  by (simp add: pow2_def)

text \<open>The binary exponent of a positive rational: \<open>pow2 (ilog2 q) \<le> q < pow2 (ilog2 q + 1)\<close>.\<close>

definition ilog2 :: "rat \<Rightarrow> int" where
  "ilog2 q = (let nd = quotient_of q; k = bitlen (fst nd) - bitlen (snd nd)
              in if pow2 k \<le> q then k else k - 1)"

lemma bitlen_pow2:
  assumes "0 < x"
  shows "pow2 (bitlen x - 1) \<le> of_int x" and "of_int x < pow2 (bitlen x)"
proof -
  from assms have b: "2 ^ nat (bitlen x - 1) \<le> x" "x < 2 ^ nat (bitlen x)"
    using bitlen_bounds by auto
  have one: "0 < bitlen x"
    using assms bitlen_eq_zero_iff [of x] bitlen_nonneg [of x] by linarith
  then have "pow2 (bitlen x - 1) = of_int (2 ^ nat (bitlen x - 1))"
    and "pow2 (bitlen x) = of_int (2 ^ nat (bitlen x))"
    by (simp_all add: pow2_def)
  with b show "pow2 (bitlen x - 1) \<le> of_int x" and "of_int x < pow2 (bitlen x)"
    by (simp_all only: of_int_le_iff of_int_less_iff)
qed

lemma ilog2_bounds:
  assumes "0 < q"
  shows "pow2 (ilog2 q) \<le> q" and "q < pow2 (ilog2 q + 1)"
proof -
  obtain n d where nd: "quotient_of q = (n, d)" by (cases "quotient_of q")
  have d: "0 < d" using quotient_of_denom_pos [OF nd] .
  have q: "q = of_int n / of_int d" using quotient_of_div [OF nd] .
  with assms d have n: "0 < n" by (simp add: zero_less_divide_iff)
  define k where "k = bitlen n - bitlen d"
  have "q < pow2 (bitlen n) / pow2 (bitlen d - 1)"
    unfolding q using bitlen_pow2 [OF n] bitlen_pow2 [OF d] n d
    by (intro frac_less) (auto intro: less_imp_le)
  also have "\<dots> = pow2 (k + 1)" by (simp add: k_def algebra_simps flip: pow2_diff)
  finally have up: "q < pow2 (k + 1)" .
  have "pow2 (k - 1) = pow2 (bitlen n - 1) / pow2 (bitlen d)"
    by (simp add: k_def algebra_simps flip: pow2_diff)
  also have "\<dots> \<le> q"
    unfolding q using bitlen_pow2 [OF n] bitlen_pow2 [OF d] n d
    by (intro frac_le) (auto intro: less_imp_le)
  finally have lo: "pow2 (k - 1) \<le> q" .
  have il: "ilog2 q = (if pow2 k \<le> q then k else k - 1)"
    by (simp add: ilog2_def nd k_def)
  from lo up show "pow2 (ilog2 q) \<le> q" and "q < pow2 (ilog2 q + 1)"
    by (auto simp: il)
qed

lemma ilog2_less_iff: "0 < q \<Longrightarrow> ilog2 q < k \<longleftrightarrow> q < pow2 k"
proof -
  assume q: "0 < q"
  show ?thesis
  proof
    assume "ilog2 q < k"
    then have "pow2 (ilog2 q + 1) \<le> pow2 k" by simp
    with ilog2_bounds(2) [OF q] show "q < pow2 k" by (rule less_le_trans)
  next
    assume "q < pow2 k"
    with ilog2_bounds(1) [OF q] have "pow2 (ilog2 q) < pow2 k" by (rule le_less_trans)
    then show "ilog2 q < k" by simp
  qed
qed

lemma ilog2_ge_iff: "0 < q \<Longrightarrow> k \<le> ilog2 q \<longleftrightarrow> pow2 k \<le> q"
  using ilog2_less_iff [of q k] by (simp flip: not_less)

lemma ilog2_mono: "0 < p \<Longrightarrow> p \<le> q \<Longrightarrow> ilog2 p \<le> ilog2 q"
  using ilog2_bounds(1) [of p] by (subst ilog2_ge_iff) auto

text \<open>Round half to even, on the integers.\<close>

definition rhe :: "rat \<Rightarrow> int" where
  "rhe q = (let f = floor q; r = q - of_int f
            in if r < 1 / 2 then f else if 1 / 2 < r then f + 1
               else if even f then f else f + 1)"

lemma rhe_int [simp]: "rhe (of_int k) = k"
  by (simp add: rhe_def)

lemma rhe_near: "\<bar>of_int (rhe q) - q\<bar> \<le> 1 / 2"
proof -
  have "of_int \<lfloor>q\<rfloor> \<le> q" "q < of_int \<lfloor>q\<rfloor> + 1" by linarith+
  then show ?thesis by (simp add: rhe_def Let_def abs_if) linarith
qed

lemma rhe_mono: "p \<le> q \<Longrightarrow> rhe p \<le> rhe q"
proof -
  assume le: "p \<le> q"
  then have f: "\<lfloor>p\<rfloor> \<le> \<lfloor>q\<rfloor>" by (rule floor_mono)
  show ?thesis
  proof (cases "\<lfloor>p\<rfloor> = \<lfloor>q\<rfloor>")
    case True
    with le show ?thesis by (auto simp: rhe_def Let_def)
  next
    case False
    with f have "\<lfloor>p\<rfloor> + 1 \<le> \<lfloor>q\<rfloor>" by simp
    moreover have "rhe p \<le> \<lfloor>p\<rfloor> + 1" "\<lfloor>q\<rfloor> \<le> rhe q" by (auto simp: rhe_def Let_def)
    ultimately show ?thesis by linarith
  qed
qed

text \<open>The spacing of the format around a positive \<open>q\<close> is \<open>pow2 (grid q)\<close>.\<close>

definition grid :: "rat \<Rightarrow> int" where
  "grid q = max (ilog2 q - 52) (- 1074)"

definition rnd_pos :: "rat \<Rightarrow> rat" where
  "rnd_pos q = of_int (rhe (q / pow2 (grid q))) * pow2 (grid q)"

definition round64 :: "rat \<Rightarrow> rat" where
  "round64 q = (if q = 0 then 0 else if q < 0 then - rnd_pos (- q) else rnd_pos q)"

lemma grid_mono: "0 < p \<Longrightarrow> p \<le> q \<Longrightarrow> grid p \<le> grid q"
  using ilog2_mono [of p q] by (simp add: grid_def)

lemma rnd_pos_nonneg: "0 < q \<Longrightarrow> 0 \<le> rnd_pos q"
proof -
  assume "0 < q"
  then have "rhe 0 \<le> rhe (q / pow2 (grid q))" by (intro rhe_mono) simp
  then show ?thesis using rhe_int [of 0] by (simp add: rnd_pos_def)
qed

text \<open>A multiple of the spacing at \<open>q\<close> bounds the rounded \<open>q\<close> on the side it bounds \<open>q\<close>.\<close>

lemma rnd_pos_le_grid: "q \<le> of_int m * pow2 (grid q) \<Longrightarrow> rnd_pos q \<le> of_int m * pow2 (grid q)"
proof -
  assume "q \<le> of_int m * pow2 (grid q)"
  then have "q / pow2 (grid q) \<le> of_int m" by (simp add: divide_le_eq)
  then have "rhe (q / pow2 (grid q)) \<le> m" using rhe_mono rhe_int by metis
  then show ?thesis by (simp add: rnd_pos_def mult_right_mono)
qed

lemma rnd_pos_ge_grid: "of_int m * pow2 (grid q) \<le> q \<Longrightarrow> of_int m * pow2 (grid q) \<le> rnd_pos q"
proof -
  assume "of_int m * pow2 (grid q) \<le> q"
  then have "of_int m \<le> q / pow2 (grid q)" by (simp add: le_divide_eq)
  then have "m \<le> rhe (q / pow2 (grid q))" using rhe_mono rhe_int by metis
  then show ?thesis by (simp add: rnd_pos_def mult_right_mono)
qed

lemma rnd_pos_mono:
  assumes "0 < p" and "p \<le> q"
  shows "rnd_pos p \<le> rnd_pos q"
proof (cases "grid p = grid q")
  case True
  have "p / pow2 (grid q) \<le> q / pow2 (grid q)" using assms(2) by (simp add: divide_right_mono)
  then have "rhe (p / pow2 (grid q)) \<le> rhe (q / pow2 (grid q))" by (rule rhe_mono)
  with True show ?thesis by (simp add: rnd_pos_def mult_right_mono)
next
  case False
  with grid_mono [OF assms] have lt: "grid p < grid q" by simp
  from assms have q: "0 < q" by simp
  from lt have gq: "grid q = ilog2 q - 52" by (auto simp: grid_def max_def split: if_splits)
  have "ilog2 p < grid p + 53" by (simp add: grid_def)
  then have "p < pow2 (grid p + 53)" using assms(1) by (simp add: ilog2_less_iff)
  then have "p \<le> of_int (2 ^ 53) * pow2 (grid p)" by (simp add: pow2_add pow2_int [of 53])
  then have "rnd_pos p \<le> of_int (2 ^ 53) * pow2 (grid p)" by (rule rnd_pos_le_grid)
  also have "\<dots> = pow2 (grid p + 53)" by (simp add: pow2_add pow2_int [of 53])
  also have "\<dots> \<le> pow2 (grid q + 52)" using lt by simp
  also have "\<dots> = of_int (2 ^ 52) * pow2 (grid q)" by (simp add: pow2_add pow2_int [of 52])
  also have "\<dots> \<le> rnd_pos q"
  proof (rule rnd_pos_ge_grid)
    have "of_int (2 ^ 52) * pow2 (grid q) = pow2 (grid q + 52)"
      by (simp add: pow2_add pow2_int [of 52])
    also have "\<dots> = pow2 (ilog2 q)" by (simp add: gq)
    also have "\<dots> \<le> q" using q by (rule ilog2_bounds)
    finally show "of_int (2 ^ 52) * pow2 (grid q) \<le> q" .
  qed
  finally show ?thesis .
qed

text \<open>Numbers with at most 53 significant bits are kept.\<close>

lemma rnd_pos_exact_less:
  assumes "0 < m" "m < 2 ^ 53" "- 1074 \<le> e"
  shows "rnd_pos (of_int m * pow2 e) = of_int m * pow2 e"
proof -
  let ?q = "of_int m * pow2 e"
  have q: "0 < ?q" using assms(1) by simp
  have "(of_int m :: rat) < of_int (2 ^ 53)" using assms(2) by (simp only: of_int_less_iff)
  then have "?q < of_int (2 ^ 53) * pow2 e" by simp
  also have "\<dots> = pow2 (e + 53)" by (simp add: pow2_add pow2_int [of 53])
  finally have "ilog2 ?q < e + 53" using q by (simp add: ilog2_less_iff)
  then have g: "grid ?q \<le> e" using assms(3) by (simp add: grid_def)
  have "?q / pow2 (grid ?q) = of_int m * pow2 (e - grid ?q)" by (simp add: pow2_diff)
  also have "\<dots> = of_int (m * 2 ^ nat (e - grid ?q))" using g by (simp add: pow2_int)
  finally have "rhe (?q / pow2 (grid ?q)) = m * 2 ^ nat (e - grid ?q)" by (simp only: rhe_int)
  then have "rnd_pos ?q = of_int m * (pow2 (e - grid ?q) * pow2 (grid ?q))"
    using g by (simp add: rnd_pos_def pow2_int)
  then show ?thesis by (simp flip: pow2_add)
qed

lemma rnd_pos_exact:
  assumes "0 < m" "m \<le> 2 ^ 53" "- 1074 \<le> e"
  shows "rnd_pos (of_int m * pow2 e) = of_int m * pow2 e"
proof (cases "m = 2 ^ 53")
  case True
  have "of_int (2 ^ 53) * pow2 e = of_int (2 ^ 52) * pow2 (e + 1)"
    by (simp add: pow2_add pow2_int [of 1])
  moreover have "rnd_pos (of_int (2 ^ 52) * pow2 (e + 1)) = of_int (2 ^ 52) * pow2 (e + 1)"
    using assms(3) by (intro rnd_pos_exact_less) auto
  ultimately show ?thesis unfolding True by metis
next
  case False
  with assms show ?thesis by (intro rnd_pos_exact_less) auto
qed

text \<open>The significand of a rounded number is an integer of at most 53 bits.\<close>

lemma rnd_pos_significand:
  assumes "0 < q"
  obtains m where "rnd_pos q = of_int m * pow2 (grid q)" "0 \<le> m" "m \<le> 2 ^ 53"
proof
  let ?m = "rhe (q / pow2 (grid q))"
  show "rnd_pos q = of_int ?m * pow2 (grid q)" by (simp add: rnd_pos_def)
  have "0 \<le> q / pow2 (grid q)" using assms by simp
  then show "0 \<le> ?m" using rhe_mono [of 0] rhe_int [of 0] by simp
  have "ilog2 q < grid q + 53" by (simp add: grid_def)
  then have "q < pow2 (grid q + 53)" using assms by (simp add: ilog2_less_iff)
  then have "q / pow2 (grid q) \<le> of_int (2 ^ 53)"
    by (simp add: pow2_add pow2_int [of 53] divide_le_eq mult.commute)
  then show "?m \<le> 2 ^ 53" using rhe_mono rhe_int by metis
qed

lemma rnd_pos_idem: "0 < q \<Longrightarrow> 0 < rnd_pos q \<Longrightarrow> rnd_pos (rnd_pos q) = rnd_pos q"
proof -
  assume q: "0 < q" and nz: "0 < rnd_pos q"
  obtain m where m: "rnd_pos q = of_int m * pow2 (grid q)" "0 \<le> m" "m \<le> 2 ^ 53"
    using rnd_pos_significand [OF q] .
  from nz m have "0 < m" by (cases "m = 0") auto
  then show ?thesis unfolding m(1) using m(3) by (intro rnd_pos_exact) (auto simp: grid_def)
qed

lemma rnd_pos_near: "\<bar>rnd_pos q - q\<bar> \<le> pow2 (grid q) / 2"
proof -
  have "\<bar>rnd_pos q - q\<bar> = \<bar>of_int (rhe (q / pow2 (grid q))) - q / pow2 (grid q)\<bar> * pow2 (grid q)"
    using pow2_pos [of "grid q"] by (simp add: rnd_pos_def abs_mult_pos left_diff_distrib)
  also have "\<dots> \<le> (1 / 2) * pow2 (grid q)" by (intro mult_right_mono rhe_near) simp
  finally show ?thesis by simp
qed

section \<open>The interface of rounding\<close>

text \<open>
  What the arithmetic of the program relies on. \<open>exact\<close> says which rationals the format holds.
\<close>

locale rounding =
  fixes rnd :: "rat \<Rightarrow> rat"
  assumes mono: "p \<le> q \<Longrightarrow> rnd p \<le> rnd q"
    and idem: "rnd (rnd q) = rnd q"
    and odd: "rnd (- q) = - rnd q"
    and int53: "\<bar>k\<bar> \<le> 2 ^ 53 \<Longrightarrow> rnd (of_int k) = of_int k"
begin

lemma zero: "rnd 0 = 0"
  using int53 [of 0] by simp

lemma le_exact: "rnd r = r \<Longrightarrow> q \<le> r \<Longrightarrow> rnd q \<le> r"
  using mono [of q r] by simp

lemma ge_exact: "rnd r = r \<Longrightarrow> r \<le> q \<Longrightarrow> r \<le> rnd q"
  using mono [of r q] by simp

lemma nonneg: "0 \<le> q \<Longrightarrow> 0 \<le> rnd q"
  using mono [of 0 q] zero by simp

lemma nonpos: "q \<le> 0 \<Longrightarrow> rnd q \<le> 0"
  using mono [of q 0] zero by simp

text \<open>Subtracting a non-negative amount never goes up, adding one never goes down.\<close>

lemma diff_le: "rnd a = a \<Longrightarrow> 0 \<le> b \<Longrightarrow> rnd (a - b) \<le> a"
  by (rule le_exact) auto

lemma add_ge: "rnd a = a \<Longrightarrow> 0 \<le> b \<Longrightarrow> a \<le> rnd (a + b)"
  by (rule ge_exact) auto

text \<open>A fraction of a whole is between 0 and 1, and so is its share of a length.\<close>

lemma fraction_le_1: "0 \<le> a \<Longrightarrow> a \<le> b \<Longrightarrow> rnd (a / b) \<le> 1"
  using int53 [of 1] by (intro le_exact) (auto simp: divide_le_eq_1)

lemma fraction_nonneg: "0 \<le> a \<Longrightarrow> a \<le> b \<Longrightarrow> 0 \<le> rnd (a / b)"
  by (intro nonneg) auto

lemma share_bounds:
  assumes "rnd w = w" "0 \<le> f" "f \<le> 1" "0 \<le> w"
  shows "0 \<le> rnd (f * w)" and "rnd (f * w) \<le> w"
  using assms by (auto intro!: nonneg le_exact mult_left_le_one_le)

end

lemma round64_pos: "0 < q \<Longrightarrow> round64 q = rnd_pos q"
  by (simp add: round64_def)

lemma round64_odd: "round64 (- q) = - round64 q"
  by (auto simp: round64_def)

lemma round64_nonneg: "0 \<le> q \<Longrightarrow> 0 \<le> round64 q"
  by (cases "q = 0") (auto simp: round64_def intro: rnd_pos_nonneg)

lemma round64_mono:
  assumes "p \<le> q"
  shows "round64 p \<le> round64 q"
proof -
  have pos: "round64 a \<le> round64 b" if "0 \<le> a" "a \<le> b" for a b
  proof (cases "a = 0")
    case True
    with that round64_nonneg [of b] show ?thesis by (simp add: round64_def)
  next
    case False
    with that show ?thesis by (simp add: round64_pos rnd_pos_mono)
  qed
  consider "0 \<le> p" | "p < 0" "0 \<le> q" | "q < 0" using assms by linarith
  then show ?thesis
  proof cases
    case 1
    then show ?thesis using assms by (rule pos)
  next
    case 2
    with round64_nonneg [of q] round64_nonneg [of "- p"] show ?thesis
      by (simp add: round64_odd)
  next
    case 3
    with pos [of "- q" "- p"] assms show ?thesis by (simp add: round64_odd)
  qed
qed

lemma round64_idem: "round64 (round64 q) = round64 q"
proof -
  have pos: "round64 (round64 a) = round64 a" if "0 < a" for a
  proof (cases "rnd_pos a = 0")
    case True
    with that show ?thesis by (simp add: round64_pos) (simp add: round64_def)
  next
    case False
    with rnd_pos_nonneg [OF that] have "0 < rnd_pos a" by simp
    with that show ?thesis by (simp add: round64_pos rnd_pos_idem)
  qed
  consider "0 < q" | "q = 0" | "0 < - q" by linarith
  then show ?thesis
  proof cases
    case 1
    then show ?thesis by (rule pos)
  next
    case 2
    then show ?thesis by (simp add: round64_def)
  next
    case 3
    with pos [of "- q"] show ?thesis by (simp add: round64_odd)
  qed
qed

lemma round64_int53: "\<bar>k\<bar> \<le> 2 ^ 53 \<Longrightarrow> round64 (of_int k) = of_int k"
proof -
  have pos: "round64 (of_int j) = of_int j" if "0 < j" "j \<le> 2 ^ 53" for j
    using rnd_pos_exact [of j 0] that by (simp add: round64_pos pow2_int [of 0])
  assume k: "\<bar>k\<bar> \<le> 2 ^ 53"
  consider "0 < k" | "k = 0" | "0 < - k" by linarith
  then show ?thesis
  proof cases
    case 1
    with k show ?thesis by (intro pos) auto
  next
    case 2
    then show ?thesis by (simp add: round64_def)
  next
    case 3
    with pos [of "- k"] k show ?thesis by (simp add: round64_odd)
  qed
qed

interpretation r64: rounding round64
  by unfold_locales (auto intro: round64_mono round64_idem round64_odd round64_int53)

section \<open>The numbers and their operations\<close>

datatype f64 = Fin rat | PInf | NInf | NaN

definition mk64 :: "rat \<Rightarrow> f64" where
  "mk64 q = (let r = round64 q
             in if pow2 1024 \<le> r then PInf else if r \<le> - pow2 1024 then NInf else Fin r)"

definition num :: "int \<Rightarrow> f64" where
  "num k = Fin (of_int k)"

fun finite64 :: "f64 \<Rightarrow> bool" where
  "finite64 (Fin q) = True"
| "finite64 _ = False"

text \<open>The values of the format: finite ones are fixed points of the rounding.\<close>

fun valid64 :: "f64 \<Rightarrow> bool" where
  "valid64 (Fin q) = (round64 q = q \<and> \<bar>q\<bar> < pow2 1024)"
| "valid64 _ = True"

fun fneg :: "f64 \<Rightarrow> f64" where
  "fneg (Fin a) = Fin (- a)"
| "fneg PInf = NInf"
| "fneg NInf = PInf"
| "fneg NaN = NaN"

fun fadd :: "f64 \<Rightarrow> f64 \<Rightarrow> f64" where
  "fadd (Fin a) (Fin b) = mk64 (a + b)"
| "fadd NaN _ = NaN"
| "fadd _ NaN = NaN"
| "fadd PInf NInf = NaN"
| "fadd NInf PInf = NaN"
| "fadd PInf _ = PInf"
| "fadd _ PInf = PInf"
| "fadd NInf _ = NInf"
| "fadd _ NInf = NInf"

definition fsub :: "f64 \<Rightarrow> f64 \<Rightarrow> f64" where
  "fsub a b = fadd a (fneg b)"

definition inf_of_sign :: "rat \<Rightarrow> f64" where
  "inf_of_sign s = (if s = 0 then NaN else if 0 < s then PInf else NInf)"

fun fmul :: "f64 \<Rightarrow> f64 \<Rightarrow> f64" where
  "fmul (Fin a) (Fin b) = mk64 (a * b)"
| "fmul NaN _ = NaN"
| "fmul _ NaN = NaN"
| "fmul PInf PInf = PInf"
| "fmul PInf NInf = NInf"
| "fmul NInf PInf = NInf"
| "fmul NInf NInf = PInf"
| "fmul PInf (Fin b) = inf_of_sign b"
| "fmul NInf (Fin b) = inf_of_sign (- b)"
| "fmul (Fin a) PInf = inf_of_sign a"
| "fmul (Fin a) NInf = inf_of_sign (- a)"

text \<open>Division by zero gives an infinity of the sign of the dividend (a positive zero).\<close>

fun fdiv :: "f64 \<Rightarrow> f64 \<Rightarrow> f64" where
  "fdiv (Fin a) (Fin b) = (if b = 0 then inf_of_sign a else mk64 (a / b))"
| "fdiv NaN _ = NaN"
| "fdiv _ NaN = NaN"
| "fdiv (Fin a) _ = Fin 0"
| "fdiv PInf (Fin b) = (if b < 0 then NInf else PInf)"
| "fdiv NInf (Fin b) = (if b < 0 then PInf else NInf)"
| "fdiv _ _ = NaN"

fun fle :: "f64 \<Rightarrow> f64 \<Rightarrow> bool" where
  "fle (Fin a) (Fin b) = (a \<le> b)"
| "fle NaN _ = False"
| "fle _ NaN = False"
| "fle NInf _ = True"
| "fle _ PInf = True"
| "fle _ NInf = False"
| "fle PInf _ = False"

definition feq :: "f64 \<Rightarrow> f64 \<Rightarrow> bool" where
  "feq a b = (a = b \<and> a \<noteq> NaN)"

definition flt :: "f64 \<Rightarrow> f64 \<Rightarrow> bool" where
  "flt a b = (fle a b \<and> \<not> feq a b)"

text \<open>JavaScript's \<open>Math.max\<close>, \<open>Math.min\<close> (NaN wins), \<open>Math.floor\<close>, \<open>%\<close> and \<open>x || 0\<close>.\<close>

definition js_max :: "f64 \<Rightarrow> f64 \<Rightarrow> f64" where
  "js_max a b = (if a = NaN \<or> b = NaN then NaN else if fle a b then b else a)"

definition js_min :: "f64 \<Rightarrow> f64 \<Rightarrow> f64" where
  "js_min a b = (if a = NaN \<or> b = NaN then NaN else if fle a b then a else b)"

fun js_floor :: "f64 \<Rightarrow> f64" where
  "js_floor (Fin a) = Fin (of_int \<lfloor>a\<rfloor>)"
| "js_floor x = x"

definition truncate :: "rat \<Rightarrow> int" where
  "truncate q = (if q < 0 then \<lceil>q\<rceil> else \<lfloor>q\<rfloor>)"

fun js_mod :: "f64 \<Rightarrow> f64 \<Rightarrow> f64" where
  "js_mod (Fin a) (Fin b) = (if b = 0 then NaN else Fin (a - b * of_int (truncate (a / b))))"
| "js_mod (Fin a) PInf = Fin a"
| "js_mod (Fin a) NInf = Fin a"
| "js_mod _ _ = NaN"

definition falsy_num :: "f64 \<Rightarrow> bool" where
  "falsy_num x = (x = Fin 0 \<or> x = NaN)"

text \<open>Rust's \<open>f64::max\<close> and \<open>f64::min\<close>, which ignore a NaN operand.\<close>

definition rs_max :: "f64 \<Rightarrow> f64 \<Rightarrow> f64" where
  "rs_max a b = (if a = NaN then b else if b = NaN then a else if fle a b then b else a)"

definition rs_min :: "f64 \<Rightarrow> f64 \<Rightarrow> f64" where
  "rs_min a b = (if a = NaN then b else if b = NaN then a else if fle a b then a else b)"

text \<open>\<open>f64::total_cmp\<close> on the values of the model (one NaN, the greatest).\<close>

definition total_le :: "f64 \<Rightarrow> f64 \<Rightarrow> bool" where
  "total_le a b \<longleftrightarrow> fle a b \<or> b = NaN"

subsection \<open>Order\<close>

lemma fle_refl [simp]: "a \<noteq> NaN \<Longrightarrow> fle a a"
  by (cases a) auto

lemma fle_trans: "fle a b \<Longrightarrow> fle b c \<Longrightarrow> fle a c"
  by (cases a; cases b; cases c) auto

lemma fle_antisym: "fle a b \<Longrightarrow> fle b a \<Longrightarrow> a = b"
  by (cases a; cases b) auto

lemma fle_total: "a \<noteq> NaN \<Longrightarrow> b \<noteq> NaN \<Longrightarrow> fle a b \<or> fle b a"
  by (cases a; cases b) auto

lemma fle_not_NaN: "fle a b \<Longrightarrow> a \<noteq> NaN \<and> b \<noteq> NaN"
  by (cases a; cases b) auto

lemma total_le_total: "total_le a b \<or> total_le b a"
  using fle_total [of a b] by (auto simp: total_le_def)

lemma total_le_trans: "total_le a b \<Longrightarrow> total_le b c \<Longrightarrow> total_le a c"
  using fle_trans fle_not_NaN by (auto simp: total_le_def)

lemma total_le_antisym: "total_le a b \<Longrightarrow> total_le b a \<Longrightarrow> a = b"
  using fle_antisym fle_not_NaN by (auto simp: total_le_def)

lemma total_le_fle: "total_le a b \<Longrightarrow> fle b c \<Longrightarrow> fle a c"
  using fle_trans fle_not_NaN by (auto simp: total_le_def)

lemma flt_iff_not_fle: "a \<noteq> NaN \<Longrightarrow> b \<noteq> NaN \<Longrightarrow> flt a b \<longleftrightarrow> \<not> fle b a"
  by (cases a; cases b) (auto simp: flt_def feq_def)

lemma flt_trans: "flt a b \<Longrightarrow> flt b c \<Longrightarrow> flt a c"
  by (cases a; cases b; cases c) (auto simp: flt_def feq_def)

lemma fle_flt_False: "fle a b \<Longrightarrow> flt b a \<Longrightarrow> False"
  by (cases a; cases b) (auto simp: flt_def feq_def)

lemma flt_Fin [simp]: "flt (Fin a) (Fin b) \<longleftrightarrow> a < b"
  by (auto simp: flt_def feq_def)

lemma fle_num_Fin [simp]: "fle (num k) (Fin b) \<longleftrightarrow> of_int k \<le> b" "fle (Fin b) (num k) \<longleftrightarrow> b \<le> of_int k"
  by (simp_all add: num_def)

lemma js_max_ge: "a \<noteq> NaN \<Longrightarrow> b \<noteq> NaN \<Longrightarrow> fle a (js_max a b) \<and> fle b (js_max a b)"
  using fle_total [of a b] by (auto simp: js_max_def)

lemma js_min_le: "a \<noteq> NaN \<Longrightarrow> b \<noteq> NaN \<Longrightarrow> fle (js_min a b) a \<and> fle (js_min a b) b"
  using fle_total [of a b] by (auto simp: js_min_def)

lemma rs_max_ge: "a \<noteq> NaN \<Longrightarrow> b \<noteq> NaN \<Longrightarrow> fle a (rs_max a b) \<and> fle b (rs_max a b)"
  using fle_total [of a b] by (auto simp: rs_max_def)

lemma rs_min_le: "a \<noteq> NaN \<Longrightarrow> b \<noteq> NaN \<Longrightarrow> fle (rs_min a b) a \<and> fle (rs_min a b) b"
  using fle_total [of a b] by (auto simp: rs_min_def)

lemma js_max_NaN_iff [simp]: "js_max a b = NaN \<longleftrightarrow> a = NaN \<or> b = NaN"
  by (auto simp: js_max_def)

lemma js_min_NaN_iff [simp]: "js_min a b = NaN \<longleftrightarrow> a = NaN \<or> b = NaN"
  by (auto simp: js_min_def)

subsection \<open>Validity\<close>

lemma pow2_1024_big: "2 ^ 53 < pow2 1024"
proof -
  have "pow2 53 < pow2 1024" by simp
  then show ?thesis by (simp add: pow2_int [of 53])
qed

lemma valid64_num: "\<bar>k\<bar> \<le> 2 ^ 53 \<Longrightarrow> valid64 (num k)"
proof -
  assume k: "\<bar>k\<bar> \<le> 2 ^ 53"
  then have "\<bar>of_int k :: rat\<bar> \<le> of_int (2 ^ 53)" by (simp only: of_int_le_iff flip: of_int_abs)
  then have "\<bar>of_int k :: rat\<bar> < pow2 1024" using pow2_1024_big by simp
  with r64.int53 [OF k] show ?thesis by (simp add: num_def)
qed

lemma valid64_mk64 [simp]: "valid64 (mk64 q)"
  by (auto simp: mk64_def Let_def r64.idem abs_less_iff not_le)

lemma mk64_exact: "round64 q = q \<Longrightarrow> \<bar>q\<bar> < pow2 1024 \<Longrightarrow> mk64 q = Fin q"
  by (auto simp: mk64_def Let_def abs_less_iff)

lemma mk64_int: "\<bar>k\<bar> \<le> 2 ^ 53 \<Longrightarrow> mk64 (of_int k) = Fin (of_int k)"
  using valid64_num [of k] by (intro mk64_exact) (auto simp: num_def)

lemma mk64_bounded: "\<bar>round64 q\<bar> < pow2 1024 \<Longrightarrow> mk64 q = Fin (round64 q)"
  by (auto simp: mk64_def Let_def abs_less_iff)

lemma mk64_not_NaN [simp]: "mk64 q \<noteq> NaN"
  by (simp add: mk64_def Let_def)

lemma mk64_mono: "p \<le> q \<Longrightarrow> fle (mk64 p) (mk64 q)"
proof -
  assume "p \<le> q"
  then have "round64 p \<le> round64 q" by (rule r64.mono)
  moreover have "0 < pow2 1024" by simp
  ultimately show ?thesis by (auto simp: mk64_def Let_def)
qed

lemma valid64_fneg [simp]: "valid64 (fneg a) = valid64 a"
  by (cases a) (auto simp: r64.odd)

lemma valid64_fadd [simp]: "valid64 (fadd a b)"
  by (cases a; cases b) auto

lemma valid64_fsub [simp]: "valid64 (fsub a b)"
  by (simp add: fsub_def)

text \<open>Two finite valid numbers compare with a rounded one as with the exact one.\<close>

lemma fsub_le: "valid64 a \<Longrightarrow> a = Fin p \<Longrightarrow> b = Fin q \<Longrightarrow> 0 \<le> q \<Longrightarrow> fle (fsub a b) a"
  using mk64_mono [of "p - q" p] by (simp add: fsub_def mk64_exact)

subsection \<open>Small numbers\<close>

text \<open>Up to \<open>2 ^ 53\<close> in size (Unix times, counters): their differences stay finite.\<close>

fun small64 :: "f64 \<Rightarrow> bool" where
  "small64 (Fin q) = (\<bar>q\<bar> \<le> 2 ^ 53)"
| "small64 _ = False"

lemma small64_cases:
  assumes "small64 x"
  obtains q where "x = Fin q" "\<bar>q\<bar> \<le> 2 ^ 53"
  using assms by (cases x) auto

text \<open>Rounding keeps a bound that is a power of two, so small numbers stay finite.\<close>

lemma round64_pow54: "\<bar>q\<bar> \<le> 2 ^ 54 \<Longrightarrow> \<bar>round64 q\<bar> \<le> 2 ^ 54"
proof -
  assume q: "\<bar>q\<bar> \<le> 2 ^ 54"
  have exact: "round64 (2 ^ 54) = 2 ^ 54"
    using rnd_pos_exact [of 1 54] by (simp add: round64_pos pow2_def)
  from q have "round64 q \<le> 2 ^ 54" by (intro r64.le_exact [OF exact]) simp
  moreover have "round64 (- q) \<le> 2 ^ 54" using q by (intro r64.le_exact [OF exact]) simp
  ultimately show ?thesis by (simp add: r64.odd abs_le_iff)
qed

lemma mk64_pow54: "\<bar>q\<bar> \<le> 2 ^ 54 \<Longrightarrow> mk64 q = Fin (round64 q)"
proof (rule mk64_bounded)
  assume "\<bar>q\<bar> \<le> 2 ^ 54"
  then have "\<bar>round64 q\<bar> \<le> 2 ^ 54" by (rule round64_pow54)
  also have "(2 :: rat) ^ 54 = pow2 54" by (simp add: pow2_def)
  also have "\<dots> < pow2 1024" by simp
  finally show "\<bar>round64 q\<bar> < pow2 1024" .
qed

lemma fsub_small:
  assumes "small64 x" "small64 y"
  obtains d where "fsub x y = Fin d" "\<bar>d\<bar> \<le> 2 ^ 54"
proof -
  obtain a b where ab: "x = Fin a" "\<bar>a\<bar> \<le> 2 ^ 53" "y = Fin b" "\<bar>b\<bar> \<le> 2 ^ 53"
    using assms by (metis small64_cases)
  have "\<bar>a - b\<bar> \<le> \<bar>a\<bar> + \<bar>b\<bar>" by (rule abs_triangle_ineq4)
  also have "\<dots> \<le> 2 ^ 53 + 2 ^ 53" using ab by (intro add_mono)
  finally have "\<bar>a - b\<bar> \<le> 2 ^ 54" by simp
  then have "\<bar>round64 (a - b)\<bar> \<le> 2 ^ 54" "fsub x y = Fin (round64 (a - b))"
    using ab by (simp_all only: round64_pow54) (simp add: fsub_def mk64_pow54)
  then show thesis by (rule that [rotated])
qed

lemma fsub_self: "small64 x \<Longrightarrow> fsub x x = num 0"
  by (erule small64_cases) (simp add: fsub_def mk64_pow54 r64.zero num_def)

text \<open>Between two integers of that size, rounding stays between them.\<close>

lemma mk64_between:
  assumes "\<bar>a\<bar> \<le> 2 ^ 53" "\<bar>b\<bar> \<le> 2 ^ 53" "of_int a \<le> q" "q \<le> of_int b"
  obtains r where "mk64 q = Fin r" "of_int a \<le> r" "r \<le> of_int b"
proof
  show lo: "of_int a \<le> round64 q" using assms by (intro r64.ge_exact r64.int53)
  show hi: "round64 q \<le> of_int b" using assms by (intro r64.le_exact r64.int53)
  have big: "\<bar>of_int k :: rat\<bar> < pow2 1024" if "\<bar>k\<bar> \<le> 2 ^ 53" for k
    using valid64_num [OF that] by (simp add: num_def)
  show "mk64 q = Fin (round64 q)"
    using lo hi big [OF assms(1)] big [OF assms(2)] by (intro mk64_bounded) linarith
qed

text \<open>The counts of the program: integers from 0 to \<open>2 ^ 53\<close>.\<close>

fun count64 :: "f64 \<Rightarrow> bool" where
  "count64 (Fin q) = (0 \<le> q \<and> q \<le> 2 ^ 53 \<and> of_int \<lfloor>q\<rfloor> = q)"
| "count64 _ = False"

lemma count64E:
  assumes "count64 x"
  obtains k where "x = num k" "0 \<le> k" "k \<le> 2 ^ 53"
proof (cases x)
  case (Fin q)
  define k where "k = \<lfloor>q\<rfloor>"
  have "0 \<le> q \<and> q \<le> 2 ^ 53 \<and> of_int k = q" using assms unfolding Fin count64.simps k_def .
  then have q: "q = of_int k" "0 \<le> q" "q \<le> 2 ^ 53" by simp_all
  have "(of_int k :: rat) \<le> of_int (2 ^ 53)" using q by simp
  then have "k \<le> 2 ^ 53" by (simp only: of_int_le_iff)
  with q Fin show thesis by (intro that [of k]) (simp_all add: num_def)
qed (use assms in auto)

lemma count64_num: "0 \<le> k \<Longrightarrow> k \<le> 2 ^ 53 \<Longrightarrow> count64 (num k)"
proof -
  assume "0 \<le> k" "k \<le> 2 ^ 53"
  then have "(of_int k :: rat) \<le> of_int (2 ^ 53)" by (simp only: of_int_le_iff)
  with \<open>0 \<le> k\<close> show ?thesis by (simp add: num_def)
qed

lemma fsub_num: "\<bar>a - b\<bar> \<le> 2 ^ 53 \<Longrightarrow> fsub (num a) (num b) = num (a - b)"
  using mk64_int [of "a - b"] by (simp add: fsub_def num_def)

lemma fadd_num: "\<bar>a + b\<bar> \<le> 2 ^ 53 \<Longrightarrow> fadd (num a) (num b) = num (a + b)"
  using mk64_int [of "a + b"] by (simp add: num_def)

lemma fle_num [simp]: "fle (num a) (num b) \<longleftrightarrow> a \<le> b"
  by (simp add: num_def)

lemma flt_num [simp]: "flt (num a) (num b) \<longleftrightarrow> a < b"
  by (simp add: num_def)

lemma num_eq_iff [simp]: "num a = num b \<longleftrightarrow> a = b"
  by (simp add: num_def)

lemma round64_dyadic: "0 < m \<Longrightarrow> m \<le> 2 ^ 53 \<Longrightarrow> - 1074 \<le> e
   \<Longrightarrow> round64 (of_int m * pow2 e) = of_int m * pow2 e"
  by (simp add: round64_pos rnd_pos_exact)

text \<open>A proper fraction of integers of at most \<open>2 ^ 50\<close>, as a percentage, stays below 100 after both roundings.\<close>

lemma percent_below:
  assumes "0 \<le> n" "n < k" "k \<le> 2 ^ 50"
  shows "round64 (round64 (of_int n / of_int k) * 100) < 100"
proof -
  have one: "round64 (1 - pow2 (- 50)) = 1 - pow2 (- 50)"
    using round64_dyadic [of "2 ^ 50 - 1" "- 50"] by (simp add: pow2_def field_simps)
  have hundred: "round64 (100 - pow2 (- 44)) = 100 - pow2 (- 44)"
    using round64_dyadic [of "100 * 2 ^ 44 - 1" "- 44"] by (simp add: pow2_def field_simps)
  have "(of_int (n + 1) :: rat) \<le> of_int k" using assms(2) by (simp only: of_int_le_iff)
  moreover have "pow2 (- 50) * of_int k \<le> 1"
  proof -
    have "(of_int k :: rat) \<le> of_int (2 ^ 50)" using assms(3) by (simp only: of_int_le_iff)
    then show ?thesis by (simp add: pow2_def field_simps)
  qed
  ultimately have "of_int n \<le> (1 - pow2 (- 50)) * of_int k" by (simp add: left_diff_distrib)
  moreover have "(0 :: rat) < of_int k" using assms by simp
  ultimately have "of_int n / of_int k \<le> 1 - pow2 (- 50)" by (simp only: pos_divide_le_eq)
  then have "round64 (of_int n / of_int k) \<le> 1 - pow2 (- 50)" by (rule r64.le_exact [OF one])
  then have "round64 (of_int n / of_int k) * 100 \<le> 100 - pow2 (- 44)" by (simp add: pow2_def)
  then have "round64 (round64 (of_int n / of_int k) * 100) \<le> 100 - pow2 (- 44)"
    by (rule r64.le_exact [OF hundred])
  moreover have "0 < pow2 (- 44)" by simp
  ultimately show ?thesis by linarith
qed

lemma percent_full:
  assumes "0 < k" "k \<le> n"
  shows "100 \<le> round64 (round64 (of_int n / of_int k) * 100)"
proof -
  have "round64 1 = 1" "round64 100 = 100" using r64.int53 [of 1] r64.int53 [of 100] by simp_all
  moreover have "(1 :: rat) \<le> of_int n / of_int k" using assms by simp
  ultimately have "1 \<le> round64 (of_int n / of_int k)" by (blast intro: r64.ge_exact)
  then have "100 \<le> round64 (of_int n / of_int k) * 100" by simp
  then show ?thesis by (rule r64.ge_exact [OF \<open>round64 100 = 100\<close>])
qed

lemma percent_capped: "100 \<le> q \<Longrightarrow> js_min (num 100) (mk64 q) = num 100"
  using mk64_mono [of 100 q] mk64_int [of 100] by (simp add: js_min_def num_def)

text \<open>\<open>Math.max(a, ...xs)\<close> is one of its arguments and bounds them all.\<close>

lemma foldl_js_max_greatest:
  "a \<noteq> NaN \<Longrightarrow> NaN \<notin> set xs
   \<Longrightarrow> foldl js_max a xs \<in> insert a (set xs) \<and> (\<forall>x \<in> insert a (set xs). fle x (foldl js_max a xs))"
proof (induction xs arbitrary: a)
  case (Cons x xs)
  then have "js_max a x \<noteq> NaN" "NaN \<notin> set xs" "x \<noteq> NaN" by auto
  then have IH: "foldl js_max (js_max a x) xs \<in> insert (js_max a x) (set xs)"
    "\<forall>y \<in> insert (js_max a x) (set xs). fle y (foldl js_max (js_max a x) xs)"
    using Cons.IH by blast+
  have "fle a (js_max a x)" "fle x (js_max a x)" using js_max_ge Cons.prems by auto
  moreover have "js_max a x \<in> {a, x}" using Cons.prems by (auto simp: js_max_def)
  ultimately show ?case using IH by (auto intro: fle_trans)
qed simp

section \<open>Results of roundings\<close>

text \<open>A rounding, checked: \<open>m * 2 ^ e\<close> is the number of the format nearest to \<open>q\<close>.\<close>

definition nearest :: "int \<Rightarrow> rat \<Rightarrow> bool" where
  "nearest m x \<longleftrightarrow> \<bar>of_int m - x\<bar> < 1 / 2 \<or> even m \<and> \<bar>of_int m - x\<bar> = 1 / 2"

lemma rhe_nearest: "nearest m x \<Longrightarrow> rhe x = m"
proof -
  assume m: "nearest m x"
  have near: "\<bar>of_int (rhe x) - x\<bar> \<le> 1 / 2" by (rule rhe_near)
  show ?thesis
  proof (cases "\<bar>of_int m - x\<bar> = 1 / 2")
    case True
    with m have "even m" by (auto simp: nearest_def)
    from True consider "x = of_int m + 1 / 2" | "x = of_int (m - 1) + 1 / 2" by (fastforce simp: abs_if split: if_splits)
    then show ?thesis
    proof cases
      case 1
      then have "\<lfloor>x\<rfloor> = m" by (intro floor_unique) auto
      with 1 \<open>even m\<close> show ?thesis by (simp add: rhe_def)
    next
      case 2
      then have "\<lfloor>x\<rfloor> = m - 1" by (intro floor_unique) auto
      with 2 \<open>even m\<close> show ?thesis by (simp add: rhe_def)
    qed
  next
    case False
    with m near have "\<bar>of_int (rhe x) - of_int m :: rat\<bar> < 1" unfolding nearest_def by linarith
    then have "\<bar>rhe x - m\<bar> < 1" by (simp only: of_int_diff [symmetric] of_int_abs [symmetric] of_int_less_1_iff)
    then show ?thesis by simp
  qed
qed

lemma mk64_nearest:
  assumes e: "- 1074 \<le> e" "e \<le> 900" and q: "pow2 (e + 52) \<le> q" "q < pow2 (e + 53)"
    and m: "nearest m (q / pow2 e)"
  shows "mk64 q = Fin (of_int m * pow2 e)"
proof -
  have pos: "0 < q" using q(1) pow2_pos [of "e + 52"] by linarith
  have "e + 52 \<le> ilog2 q" "ilog2 q < e + 53" using q pos by (simp_all add: ilog2_ge_iff ilog2_less_iff)
  then have g: "grid q = e" using e(1) by (simp add: grid_def)
  have r: "round64 q = of_int m * pow2 e" using rhe_nearest [OF m] by (simp add: round64_pos [OF pos] rnd_pos_def g)
  have "round64 q \<le> pow2 (e + 53)"
    using r64.le_exact [of "pow2 (e + 53)" q] round64_dyadic [of 1 "e + 53"] q(2) e(1) by simp
  also have "\<dots> < pow2 1024" using e(2) by simp
  finally have "\<bar>round64 q\<bar> < pow2 1024" using r64.nonneg [of q] pos by simp
  from mk64_bounded [OF this] show ?thesis by (simp add: r)
qed

text \<open>Bounds by multiples of a 64th.\<close>

lemma mk64_small: "0 < m \<Longrightarrow> m \<le> 2 ^ 53 \<Longrightarrow> mk64 (of_int m * pow2 (- 6)) = Fin (of_int m * pow2 (- 6))"
proof (rule mk64_exact)
  assume m: "0 < m" "m \<le> 2 ^ 53"
  then show "round64 (of_int m * pow2 (- 6)) = of_int m * pow2 (- 6)" by (rule round64_dyadic) simp
  have "(of_int m :: rat) \<le> of_int (2 ^ 53)" using m(2) by (simp only: of_int_le_iff)
  then have "of_int m * pow2 (- 6) \<le> of_int (2 ^ 53) * pow2 (- 6)" by (intro mult_right_mono) auto
  also have "\<dots> = pow2 47" using pow2_add [of 53 "- 6"] pow2_int [of 53] by simp
  also have "\<dots> < pow2 1024" by simp
  finally show "\<bar>of_int m * pow2 (- 6)\<bar> < pow2 1024" using m(1) by (simp add: abs_mult)
qed

lemma mk64_ge: "0 < m \<Longrightarrow> m \<le> 2 ^ 53 \<Longrightarrow> of_int m / 64 \<le> q \<Longrightarrow> fle (Fin (of_int m / 64)) (mk64 q)"
  using mk64_mono [of "of_int m / 64" q] mk64_small [of m] by (simp add: pow2_def)

lemma mk64_le: "0 < m \<Longrightarrow> m \<le> 2 ^ 53 \<Longrightarrow> q \<le> of_int m / 64 \<Longrightarrow> fle (mk64 q) (Fin (of_int m / 64))"
  using mk64_mono [of q "of_int m / 64"] mk64_small [of m] by (simp add: pow2_def)

end
