(* ===== verification/JsText.thy ===== *)
theory JsText
  imports Binary64
begin

text \<open>
  The text operations of JavaScript and the browser that the console calls:
  \<open>Number.prototype.toFixed\<close>, the conversion of a number to a string, \<open>encodeURIComponent\<close>,
  \<open>new URLSearchParams(s).get(name)\<close> and \<open>btoa\<close>. Each is written after its standard (ECMA-262,
  the WHATWG URL, Encoding and HTML standards), on UTF-16 code units, so that unpaired surrogates
  and characters outside the Basic Multilingual Plane behave as they do in a browser.

  The main result is the round trip of a query parameter: what \<open>encodeURIComponent\<close> writes into
  a query, \<open>URLSearchParams\<close> reads back unchanged.
\<close>

section \<open>Numbers as text\<close>

definition digit_unit :: "int \<Rightarrow> code_unit" where
  "digit_unit d = of_int (48 + d)"

function dec :: "int \<Rightarrow> jsstr" where
  "dec n = (if n < 10 then [digit_unit n] else dec (n div 10) @ [digit_unit (n mod 10)])"
  by pat_completeness auto
termination
  by (relation "measure nat") auto

declare dec.simps [simp del]

lemma dec_nonempty [simp]: "dec n \<noteq> []"
  by (subst dec.simps) simp

definition zeros :: "nat \<Rightarrow> jsstr" where
  "zeros k = replicate k (digit_unit 0)"

text \<open>The decimal exponent of a positive rational: \<open>10 ^ (e - 1) \<le> q < 10 ^ e\<close>.\<close>

fun lead_zeros :: "nat \<Rightarrow> rat \<Rightarrow> nat" where
  "lead_zeros 0 q = 0"
| "lead_zeros (Suc fuel) q = (if 1 \<le> q * 10 then 0 else Suc (lead_zeros fuel (q * 10)))"

definition dec_exp :: "rat \<Rightarrow> int" where
  "dec_exp q = (if 1 \<le> q then int (length (dec \<lfloor>q\<rfloor>)) else - int (lead_zeros 400 q))"

definition pow10 :: "int \<Rightarrow> rat" where
  "pow10 k = (if 0 \<le> k then 10 ^ nat k else 1 / 10 ^ nat (- k))"

text \<open>
  The digits ECMA-262 chooses: the least number \<open>k\<close> of digits for which some \<open>s\<close> with \<open>k\<close> digits
  reads back as the number, and the nearest such \<open>s\<close>. Seventeen digits always suffice.
\<close>

definition reads_back :: "rat \<Rightarrow> int \<Rightarrow> nat \<Rightarrow> int \<Rightarrow> bool" where
  "reads_back q e k s = (round64 (of_int s * pow10 (e - int k)) = q)"

fun shortest :: "nat \<Rightarrow> nat \<Rightarrow> rat \<Rightarrow> int \<Rightarrow> nat \<times> int" where
  "shortest 0 k q e = (k, \<lfloor>q * pow10 (int k - e) + 1 / 2\<rfloor>)"
| "shortest (Suc fuel) k q e =
     (let t = q * pow10 (int k - e); near = \<lfloor>t + 1 / 2\<rfloor>; far = (if near = \<lfloor>t\<rfloor> then near + 1 else \<lfloor>t\<rfloor>)
      in if reads_back q e k near then (k, near)
         else if reads_back q e k far then (k, far)
         else shortest fuel (Suc k) q e)"

text \<open>\<open>Number::toString(x, 10)\<close>.\<close>

definition pos_str :: "rat \<Rightarrow> jsstr" where
  "pos_str q =
     (let e = dec_exp q; (k, r) = shortest 16 1 q e;
          (s, n) = (if r = 10 ^ k then (10 ^ (k - 1), e + 1) else (r, e));
          ds = dec s in
      if int k \<le> n \<and> n \<le> 21 then ds @ zeros (nat (n - int k))
      else if 0 < n \<and> n \<le> 21 then take (nat n) ds @ lit ''.'' @ drop (nat n) ds
      else if - 6 < n \<and> n \<le> 0 then lit ''0.'' @ zeros (nat (- n)) @ ds
      else (if k = 1 then ds else take 1 ds @ lit ''.'' @ drop 1 ds)
           @ lit ''e'' @ (if 0 < n then lit ''+'' else lit ''-'') @ dec \<bar>n - 1\<bar>)"

fun num_str :: "f64 \<Rightarrow> jsstr" where
  "num_str NaN = lit ''NaN''"
| "num_str PInf = lit ''Infinity''"
| "num_str NInf = lit ''-Infinity''"
| "num_str (Fin q) =
     (if q = 0 then lit ''0'' else if q < 0 then lit ''-'' @ pos_str (- q) else pos_str q)"

text \<open>\<open>x.toFixed(f)\<close>: the nearest multiple of \<open>10 ^ -f\<close>, the larger of two equally near ones.\<close>

definition fixed_digits :: "nat \<Rightarrow> rat \<Rightarrow> int" where
  "fixed_digits f q = \<lfloor>q * 10 ^ f + 1 / 2\<rfloor>"

definition place_point :: "nat \<Rightarrow> jsstr \<Rightarrow> jsstr" where
  "place_point f m =
     (if f = 0 then m
      else let p = zeros (Suc f - length m) @ m
           in take (length p - f) p @ lit ''.'' @ drop (length p - f) p)"

fun to_fixed :: "nat \<Rightarrow> f64 \<Rightarrow> jsstr" where
  "to_fixed f (Fin q) =
     (let a = \<bar>q\<bar>; sign = (if q < 0 then lit ''-'' else [])
      in if 10 ^ 21 \<le> a then num_str (Fin q)
         else sign @ place_point f (dec (fixed_digits f a)))"
| "to_fixed f x = num_str x"

lemma fixed_digits_near: "\<bar>of_int (fixed_digits f q) / 10 ^ f - q\<bar> \<le> 1 / (2 * 10 ^ f)"
proof -
  let ?n = "of_int (fixed_digits f q) :: rat" and ?t = "10 ^ f :: rat"
  have "?n \<le> q * ?t + 1 / 2" "q * ?t + 1 / 2 < ?n + 1"
    by (simp_all add: fixed_digits_def) linarith
  then have "\<bar>?n - q * ?t\<bar> \<le> 1 / 2" by linarith
  then have "\<bar>?n - q * ?t\<bar> / ?t \<le> (1 / 2) / ?t" by (intro divide_right_mono) auto
  moreover have "\<bar>?n / ?t - q\<bar> = \<bar>(?n - q * ?t) / ?t\<bar>" by (simp add: diff_divide_distrib)
  ultimately show ?thesis by (simp add: abs_divide)
qed

section \<open>UTF-16 and UTF-8\<close>

definition high_surrogate :: "nat \<Rightarrow> bool" where
  "high_surrogate n \<longleftrightarrow> 0xD800 \<le> n \<and> n < 0xDC00"

definition low_surrogate :: "nat \<Rightarrow> bool" where
  "low_surrogate n \<longleftrightarrow> 0xDC00 \<le> n \<and> n < 0xE000"

definition scalar_value :: "nat \<Rightarrow> bool" where
  "scalar_value n \<longleftrightarrow> n < 0x110000 \<and> \<not> (0xD800 \<le> n \<and> n < 0xE000)"

definition join_surrogates :: "nat \<Rightarrow> nat \<Rightarrow> nat" where
  "join_surrogates h l = 0x10000 + (h - 0xD800) * 0x400 + (l - 0xDC00)"

text \<open>The code points of a string; \<open>None\<close> at an unpaired surrogate, where \<open>encodeURIComponent\<close>
  throws a \<open>URIError\<close>.\<close>

fun code_points :: "jsstr \<Rightarrow> nat list option" where
  "code_points [] = Some []"
| "code_points (u # us) =
     (let n = unat u in
      if low_surrogate n then None
      else if high_surrogate n then
        (case us of [] \<Rightarrow> None
         | v # vs \<Rightarrow> if low_surrogate (unat v)
                    then map_option ((#) (join_surrogates n (unat v))) (code_points vs) else None)
      else map_option ((#) n) (code_points us))"

text \<open>The same with unpaired surrogates replaced by U+FFFD (a \<open>USVString\<close>).\<close>

fun usv :: "jsstr \<Rightarrow> nat list" where
  "usv [] = []"
| "usv (u # us) =
     (let n = unat u in
      if low_surrogate n then 0xFFFD # usv us
      else if high_surrogate n then
        (case us of [] \<Rightarrow> [0xFFFD]
         | v # vs \<Rightarrow> if low_surrogate (unat v)
                    then join_surrogates n (unat v) # usv vs else 0xFFFD # usv us)
      else n # usv us)"

definition utf16 :: "nat \<Rightarrow> jsstr" where
  "utf16 n = (if n < 0x10000 then [of_nat n]
     else [of_nat (0xD800 + (n - 0x10000) div 0x400), of_nat (0xDC00 + (n - 0x10000) mod 0x400)])"

definition utf8 :: "nat \<Rightarrow> nat list" where
  "utf8 n = (if n < 0x80 then [n]
     else if n < 0x800 then [0xC0 + n div 0x40, 0x80 + n mod 0x40]
     else if n < 0x10000 then [0xE0 + n div 0x1000, 0x80 + n div 0x40 mod 0x40, 0x80 + n mod 0x40]
     else [0xF0 + n div 0x40000, 0x80 + n div 0x1000 mod 0x40, 0x80 + n div 0x40 mod 0x40,
           0x80 + n mod 0x40])"

text \<open>
  The decoder of the Encoding standard as a state machine: bytes still needed, the code point so
  far, and the bounds of the next continuation byte. A byte outside the bounds yields U+FFFD and is
  then read again from the start state; so does the end of the input inside a sequence.
\<close>

definition utf8_start :: "nat \<Rightarrow> nat list \<times> (nat \<times> nat \<times> nat \<times> nat)" where
  "utf8_start b =
     (if b < 0x80 then ([b], (0, 0, 0x80, 0xBF))
      else if 0xC2 \<le> b \<and> b \<le> 0xDF then ([], (1, b - 0xC0, 0x80, 0xBF))
      else if 0xE0 \<le> b \<and> b \<le> 0xEF then
        ([], (2, b - 0xE0, (if b = 0xE0 then 0xA0 else 0x80), (if b = 0xED then 0x9F else 0xBF)))
      else if 0xF0 \<le> b \<and> b \<le> 0xF4 then
        ([], (3, b - 0xF0, (if b = 0xF0 then 0x90 else 0x80), (if b = 0xF4 then 0x8F else 0xBF)))
      else ([0xFFFD], (0, 0, 0x80, 0xBF)))"

definition utf8_byte :: "nat \<times> nat \<times> nat \<times> nat \<Rightarrow> nat \<Rightarrow> nat list \<times> (nat \<times> nat \<times> nat \<times> nat)" where
  "utf8_byte st b = (case st of (need, cp, lo, hi) \<Rightarrow>
     if need = 0 then utf8_start b
     else if b < lo \<or> hi < b then (case utf8_start b of (out, st') \<Rightarrow> (0xFFFD # out, st'))
     else let cp' = cp * 0x40 + (b - 0x80)
          in if need = 1 then ([cp'], (0, 0, 0x80, 0xBF))
             else ([], (need - 1, cp', 0x80, 0xBF)))"

fun utf8_run :: "nat \<times> nat \<times> nat \<times> nat \<Rightarrow> nat list \<Rightarrow> nat list" where
  "utf8_run st [] = (if fst st = 0 then [] else [0xFFFD])"
| "utf8_run st (b # bs) = (case utf8_byte st b of (out, st') \<Rightarrow> out @ utf8_run st' bs)"

definition utf8_decode :: "nat list \<Rightarrow> nat list" where
  "utf8_decode bs = utf8_run (0, 0, 0x80, 0xBF) bs"

lemma utf8_start_lead:
  "n < 0x80 \<Longrightarrow> utf8_start n = ([n], (0, 0, 0x80, 0xBF))"
  "2 \<le> a \<Longrightarrow> a < 32 \<Longrightarrow> utf8_start (0xC0 + a) = ([], (1, a, 0x80, 0xBF))"
  "a < 16 \<Longrightarrow> utf8_start (0xE0 + a) =
     ([], (2, a, (if a = 0 then 0xA0 else 0x80), (if a = 13 then 0x9F else 0xBF)))"
  "a < 5 \<Longrightarrow> utf8_start (0xF0 + a) =
     ([], (3, a, (if a = 0 then 0x90 else 0x80), (if a = 4 then 0x8F else 0xBF)))"
  by (simp_all add: utf8_start_def)

lemma utf8_byte_start: "utf8_byte (0, cp, lo, hi) b = utf8_start b"
  by (simp add: utf8_byte_def)

lemma utf8_byte_next:
  "0 < need \<Longrightarrow> lo \<le> 0x80 + b \<Longrightarrow> 0x80 + b \<le> hi \<Longrightarrow> utf8_byte (need, cp, lo, hi) (0x80 + b) =
     (if need = 1 then ([cp * 0x40 + b], (0, 0, 0x80, 0xBF))
      else ([], (need - 1, cp * 0x40 + b, 0x80, 0xBF)))"
  by (simp add: utf8_byte_def Let_def)

lemma base64_split:
  fixes x c :: nat
  assumes "c < 64"
  shows "(x * 64 + c) div 64 = x" and "(x * 64 + c) mod 64 = c"
  using assms by simp_all

lemma div_4096: "(n :: nat) div 4096 = n div 64 div 64"
  by (simp flip: div_mult2_eq)

lemma div_262144: "(n :: nat) div 262144 = n div 64 div 64 div 64"
  by (simp flip: div_mult2_eq)

lemma utf8_form2: "2 \<le> a \<Longrightarrow> a < 32 \<Longrightarrow> b < 64 \<Longrightarrow> utf8 (a * 64 + b) = [0xC0 + a, 0x80 + b]"
  by (simp add: utf8_def)

lemma utf8_form3:
  assumes "a < 16" "b < 64" "c < 64" "a = 0 \<Longrightarrow> 32 \<le> b"
  shows "utf8 ((a * 64 + b) * 64 + c) = [0xE0 + a, 0x80 + b, 0x80 + c]"
proof -
  let ?n = "(a * 64 + b) * 64 + c"
  have "\<not> ?n < 2048" using assms by (cases "a = 0") auto
  moreover from this have "\<not> ?n < 128" by linarith
  moreover have "?n < 65536"
  proof -
    have "a * 64 + b \<le> 1023" using assms(1,2) by linarith
    then have "(a * 64 + b) * 64 \<le> 1023 * 64" by (rule mult_le_mono1)
    then show ?thesis using assms(3) by linarith
  qed
  moreover have "?n div 64 = a * 64 + b" "?n mod 64 = c" using assms(3) by (rule base64_split)+
  moreover have "(a * 64 + b) div 64 = a" "(a * 64 + b) mod 64 = b"
    using assms(2) by (rule base64_split)+
  ultimately show ?thesis by (simp only: utf8_def div_4096 if_False if_True)
qed

lemma utf8_form4:
  assumes "b < 64" "c < 64" "d < 64" "a = 0 \<Longrightarrow> 16 \<le> b"
  shows "utf8 (((a * 64 + b) * 64 + c) * 64 + d) = [0xF0 + a, 0x80 + b, 0x80 + c, 0x80 + d]"
proof -
  let ?n = "((a * 64 + b) * 64 + c) * 64 + d"
  have "\<not> ?n < 65536" using assms by (cases "a = 0") auto
  moreover from this have "\<not> ?n < 2048" "\<not> ?n < 128" by linarith+
  moreover have "?n div 64 = (a * 64 + b) * 64 + c" "?n mod 64 = d"
    using assms(3) by (rule base64_split)+
  moreover have "((a * 64 + b) * 64 + c) div 64 = a * 64 + b" "((a * 64 + b) * 64 + c) mod 64 = c"
    using assms(2) by (rule base64_split)+
  moreover have "(a * 64 + b) div 64 = a" "(a * 64 + b) mod 64 = b"
    using assms(1) by (rule base64_split)+
  ultimately show ?thesis by (simp only: utf8_def div_4096 div_262144 if_False)
qed

lemma base64_digits:
  fixes n :: nat
  obtains x c where "n = x * 64 + c" "c < 64"
  by (rule that [of "n div 64" "n mod 64"]) auto

lemma scalar_value_cases:
  assumes "scalar_value n"
  obtains "n < 0x80"
  | a b where "n = a * 64 + b" "2 \<le> a" "a < 32" "b < 64"
  | a b c where "n = (a * 64 + b) * 64 + c" "a < 16" "b < 64" "c < 64"
      "a = 0 \<Longrightarrow> 32 \<le> b" "a = 13 \<Longrightarrow> b < 32"
  | a b c d where "n = ((a * 64 + b) * 64 + c) * 64 + d" "a < 5" "b < 64" "c < 64" "d < 64"
      "a = 0 \<Longrightarrow> 16 \<le> b" "a = 4 \<Longrightarrow> b < 16"
proof -
  have n_max: "n < 1114112" and gap: "\<not> (55296 \<le> n \<and> n < 57344)"
    using assms by (auto simp: scalar_value_def)
  obtain x d where n: "n = x * 64 + d" "d < 64" by (rule base64_digits)
  obtain y c where x: "x = y * 64 + c" "c < 64" by (rule base64_digits)
  obtain a b where y: "y = a * 64 + b" "b < 64" by (rule base64_digits)
  consider "n < 0x80" | "0x80 \<le> n" "n < 0x800" | "0x800 \<le> n" "n < 0x10000" | "0x10000 \<le> n"
    by linarith
  then show thesis
  proof cases
    case 1
    then show thesis by (rule that(1))
  next
    case 2
    show thesis using n(1) by (rule that(2)) (use 2 n in linarith)+
  next
    case 3
    have "n = (y * 64 + c) * 64 + d" using n x by simp
    then show thesis by (rule that(3)) (use 3 n x gap in linarith)+
  next
    case 4
    have "n = ((a * 64 + b) * 64 + c) * 64 + d" using n x y by simp
    then show thesis by (rule that(4)) (use 4 n x y n_max in linarith)+
  qed
qed

lemma utf8_run_utf8:
  assumes "scalar_value n"
  shows "utf8_run (0, 0, 0x80, 0xBF) (utf8 n @ bs) = n # utf8_run (0, 0, 0x80, 0xBF) bs"
  using assms
proof (cases rule: scalar_value_cases)
  case 1
  then have "utf8 n = [n]" by (simp add: utf8_def)
  with 1 show ?thesis by (simp add: utf8_byte_start utf8_start_lead(1))
next
  case (2 a b)
  with utf8_form2 [of a b] show ?thesis
    by (simp add: utf8_byte_start utf8_start_lead(2) utf8_byte_next)
next
  case (3 a b c)
  have "utf8 n = [0xE0 + a, 0x80 + b, 0x80 + c]"
    unfolding 3(1) using 3 by (intro utf8_form3) auto
  with 3 show ?thesis
    by (cases "a = 13"; cases "a = 0")
      (simp_all add: utf8_byte_start utf8_start_lead(3) utf8_byte_next utf8_start_def)
next
  case (4 a b c d)
  have "utf8 n = [0xF0 + a, 0x80 + b, 0x80 + c, 0x80 + d]"
    unfolding 4(1) using 4 by (intro utf8_form4) auto
  with 4 show ?thesis
    by (cases "a = 4"; cases "a = 0")
      (simp_all add: utf8_byte_start utf8_start_lead(4) utf8_byte_next utf8_start_def)
qed

lemma utf8_decode_utf8:
  "list_all scalar_value ns \<Longrightarrow> utf8_decode (concat (map utf8 ns)) = ns"
  by (induction ns) (simp_all add: utf8_decode_def utf8_run_utf8)

lemma unat_unit_less: "unat (u :: code_unit) < 65536"
  using unsigned_less [of u] by simp

lemma code_points_scalar: "code_points s = Some ns \<Longrightarrow> list_all scalar_value ns"
proof (induction s arbitrary: ns rule: code_points.induct)
  case (2 u us)
  then show ?case
    using unat_unit_less [of u]
    by (auto simp: Let_def scalar_value_def low_surrogate_def high_surrogate_def
        join_surrogates_def split: if_splits list.splits)
qed simp

lemma utf16_single: "n < 65536 \<Longrightarrow> utf16 n = [of_nat n]"
  by (simp add: utf16_def)

lemma utf16_join:
  "high_surrogate (unat u) \<Longrightarrow> low_surrogate (unat v)
   \<Longrightarrow> utf16 (join_surrogates (unat u) (unat v)) = [u, v]"
proof -
  assume h: "high_surrogate (unat u)" and l: "low_surrogate (unat v)"
  define a where "a = unat u - 55296"
  define b where "b = unat v - 56320"
  have "b < 1024" "unat u = 55296 + a" "unat v = 56320 + b"
    using h l by (auto simp: a_def b_def high_surrogate_def low_surrogate_def)
  moreover from this have "of_nat (55296 + a) = u" "of_nat (56320 + b) = v"
    by (simp_all flip: \<open>unat u = 55296 + a\<close> \<open>unat v = 56320 + b\<close>)
  ultimately show ?thesis by (simp add: utf16_def join_surrogates_def a_def [symmetric] b_def [symmetric])
qed

lemma code_points_utf16: "code_points s = Some ns \<Longrightarrow> concat (map utf16 ns) = s"
proof (induction s arbitrary: ns rule: code_points.induct)
  case (2 u us)
  then show ?case
    using unat_unit_less [of u]
    by (auto simp: Let_def utf16_single utf16_join split: if_splits list.splits)
qed simp

section \<open>Query parameters\<close>

text \<open>\<open>encodeURIComponent\<close>: the unreserved characters stand for themselves, every other code point
  is written as its UTF-8 bytes in upper-case hexadecimal.\<close>

definition alpha_numeric :: "nat \<Rightarrow> bool" where
  "alpha_numeric n \<longleftrightarrow> (48 \<le> n \<and> n \<le> 57) \<or> (65 \<le> n \<and> n \<le> 90) \<or> (97 \<le> n \<and> n \<le> 122)"

definition unreserved :: "nat \<Rightarrow> bool" where
  "unreserved n \<longleftrightarrow> alpha_numeric n \<or> n \<in> {45, 95, 46, 33, 126, 42, 39, 40, 41}"

definition hex_digit :: "nat \<Rightarrow> nat" where
  "hex_digit d = (if d < 10 then 48 + d else 55 + d)"

definition percent_byte :: "nat \<Rightarrow> nat list" where
  "percent_byte b = [37, hex_digit (b div 16), hex_digit (b mod 16)]"

definition encode_point :: "nat \<Rightarrow> nat list" where
  "encode_point n = (if unreserved n then [n] else concat (map percent_byte (utf8 n)))"

definition encode_uri_component :: "jsstr \<Rightarrow> jsstr option" where
  "encode_uri_component s =
     map_option (\<lambda>ns. map of_nat (concat (map encode_point ns))) (code_points s)"

text \<open>
  The \<open>application/x-www-form-urlencoded\<close> parser behind \<open>URLSearchParams\<close>: a leading question
  mark is dropped, the UTF-8 bytes are split at ampersands, empty pieces are skipped, each piece is
  split at its first equals sign, plus signs become spaces, and both halves are percent-decoded and
  then decoded as UTF-8.
\<close>

definition hex_value :: "nat \<Rightarrow> nat option" where
  "hex_value c = (if 48 \<le> c \<and> c \<le> 57 then Some (c - 48)
     else if 65 \<le> c \<and> c \<le> 70 then Some (c - 55)
     else if 97 \<le> c \<and> c \<le> 102 then Some (c - 87) else None)"

fun percent_decode :: "nat list \<Rightarrow> nat list" where
  "percent_decode (b # h # l # bs) =
     (if b = 37 then
        (case (hex_value h, hex_value l) of
          (Some x, Some y) \<Rightarrow> (16 * x + y) # percent_decode bs
        | _ \<Rightarrow> b # percent_decode (h # l # bs))
      else b # percent_decode (h # l # bs))"
| "percent_decode bs = bs"

fun split_at :: "nat \<Rightarrow> nat list \<Rightarrow> nat list list" where
  "split_at c [] = [[]]"
| "split_at c (b # bs) =
     (if b = c then [] # split_at c bs
      else case split_at c bs of [] \<Rightarrow> [[b]] | p # ps \<Rightarrow> (b # p) # ps)"

definition form_text :: "nat list \<Rightarrow> jsstr" where
  "form_text bs =
     concat (map utf16 (utf8_decode (percent_decode (map (\<lambda>b. if b = 43 then 32 else b) bs))))"

definition form_pair :: "nat list \<Rightarrow> jsstr \<times> jsstr" where
  "form_pair p = (form_text (takeWhile (\<lambda>b. b \<noteq> 61) p), form_text (drop 1 (dropWhile (\<lambda>b. b \<noteq> 61) p)))"

definition drop_question :: "jsstr \<Rightarrow> jsstr" where
  "drop_question s = (case s of [] \<Rightarrow> [] | c # cs \<Rightarrow> if c = 63 then cs else s)"

definition search_params :: "jsstr \<Rightarrow> (jsstr \<times> jsstr) list" where
  "search_params s =
     map form_pair (filter (\<lambda>p. p \<noteq> []) (split_at 38 (concat (map utf8 (usv (drop_question s))))))"

definition search_get :: "jsstr \<Rightarrow> jsstr \<Rightarrow> jsstr option" where
  "search_get s name = map_option snd (List.find (\<lambda>p. fst p = name) (search_params s))"

subsection \<open>The round trip\<close>

lemma utf8_bytes:
  assumes "scalar_value n"
  shows "\<forall>b \<in> set (utf8 n). b < 256"
  using assms
proof (cases rule: scalar_value_cases)
  case 1
  then show ?thesis by (simp add: utf8_def)
next
  case (2 a b)
  with utf8_form2 [of a b] show ?thesis by simp
next
  case (3 a b c)
  then show ?thesis unfolding 3(1) by (subst utf8_form3) auto
next
  case (4 a b c d)
  then show ?thesis unfolding 4(1) by (subst utf8_form4) auto
qed

lemma hex_value_digit: "d < 16 \<Longrightarrow> hex_value (hex_digit d) = Some d"
  by (auto simp: hex_value_def hex_digit_def)

lemma percent_decode_byte:
  "b < 256 \<Longrightarrow> percent_decode (percent_byte b @ bs) = b # percent_decode bs"
  by (simp add: percent_byte_def hex_value_digit)

lemma percent_decode_plain: "b \<noteq> 37 \<Longrightarrow> percent_decode (b # bs) = b # percent_decode bs"
  by (cases bs rule: percent_decode.cases; cases bs) auto

lemma percent_decode_bytes:
  "\<forall>b \<in> set bs. b < 256 \<Longrightarrow>
   percent_decode (concat (map percent_byte bs) @ cs) = bs @ percent_decode cs"
  by (induction bs) (simp_all add: percent_decode_byte)

lemma unreserved_less: "unreserved n \<Longrightarrow> n < 128 \<and> n \<noteq> 35 \<and> n \<noteq> 37 \<and> n \<noteq> 38 \<and> n \<noteq> 43 \<and> n \<noteq> 61"
  by (auto simp: unreserved_def alpha_numeric_def)

lemma percent_decode_point:
  assumes "scalar_value n"
  shows "percent_decode (encode_point n @ bs) = utf8 n @ percent_decode bs"
proof (cases "unreserved n")
  case True
  then show ?thesis using unreserved_less [OF True]
    by (simp add: encode_point_def percent_decode_plain utf8_def)
next
  case False
  then show ?thesis using utf8_bytes [OF assms]
    by (simp add: encode_point_def percent_decode_bytes)
qed

lemma percent_decode_points:
  "list_all scalar_value ns \<Longrightarrow>
   percent_decode (concat (map encode_point ns)) = concat (map utf8 ns)"
  by (induction ns) (simp_all add: percent_decode_point)

text \<open>The encoded text is ASCII and holds none of the characters the parser gives a meaning to.\<close>

definition inert :: "nat \<Rightarrow> bool" where
  "inert b \<longleftrightarrow> b < 128 \<and> b \<noteq> 35 \<and> b \<noteq> 38 \<and> b \<noteq> 43 \<and> b \<noteq> 61"

lemma hex_digit_inert: "d < 16 \<Longrightarrow> inert (hex_digit d)"
  by (auto simp: inert_def hex_digit_def)

lemma encode_point_inert:
  assumes "scalar_value n"
  shows "list_all inert (encode_point n)"
proof -
  have "list_all inert (percent_byte b)" if "b < 256" for b
    using that by (simp add: percent_byte_def hex_digit_inert) (simp add: inert_def)
  then show ?thesis
    using utf8_bytes [OF assms] unreserved_less [of n]
    by (auto simp: encode_point_def list_all_iff inert_def)
qed

lemma encode_points_inert:
  "list_all scalar_value ns \<Longrightarrow> list_all inert (concat (map encode_point ns))"
  by (induction ns) (simp_all add: encode_point_inert)

lemma unat_ascii: "n < 128 \<Longrightarrow> unat (of_nat n :: code_unit) = n"
  by (simp add: unat_of_nat)

lemma usv_ascii: "list_all inert bs \<Longrightarrow> usv (map of_nat bs) = bs"
  by (induction bs)
    (auto simp: Let_def inert_def unat_ascii low_surrogate_def high_surrogate_def)

lemma utf8_ascii: "list_all inert bs \<Longrightarrow> concat (map utf8 bs) = bs"
  by (induction bs) (auto simp: utf8_def inert_def)

lemma split_at_none: "list_all (\<lambda>b. b \<noteq> c) bs \<Longrightarrow> split_at c bs = [bs]"
  by (induction bs) auto

lemma plus_free: "list_all inert bs \<Longrightarrow> map (\<lambda>b. if b = 43 then 32 else b) bs = bs"
  by (induction bs) (auto simp: inert_def)

lemma form_text_encoded:
  assumes "code_points s = Some ns"
  shows "form_text (concat (map encode_point ns)) = s"
proof -
  have ns: "list_all scalar_value ns" using assms by (rule code_points_scalar)
  then show ?thesis
    using code_points_utf16 [OF assms]
    by (simp add: form_text_def plus_free encode_points_inert percent_decode_points utf8_decode_utf8)
qed

lemma search_get_encoded:
  assumes "encode_uri_component s = Some e"
    and "list_all inert nm" and "form_text nm = name" and "nm \<noteq> []"
  shows "search_get (unit_of (CHR ''?'') # map of_nat nm @ unit_of (CHR ''='') # e) name = Some s"
proof -
  from assms(1) obtain ns where ns: "code_points s = Some ns"
    and e: "e = map of_nat (concat (map encode_point ns))"
    by (auto simp: encode_uri_component_def)
  let ?enc = "concat (map encode_point ns)"
  have enc: "list_all inert ?enc" using ns by (intro encode_points_inert) (rule code_points_scalar)
  have eq: "unit_of (CHR ''='') = 61" and q: "unit_of (CHR ''?'') = 63"
    by (simp_all add: unit_of_def)
  have app: "usv (map of_nat as @ bs) = as @ usv bs" if "list_all inert as" for as bs
    using that by (induction as)
      (auto simp: Let_def inert_def unat_ascii low_surrogate_def high_surrogate_def)
  have "usv (61 # map of_nat ?enc) = 61 # ?enc"
    using enc by (simp add: usv_ascii low_surrogate_def high_surrogate_def)
  with app [OF assms(2)] have "usv (map of_nat nm @ 61 # map of_nat ?enc) = nm @ 61 # ?enc"
    by simp
  then have bytes: "concat (map utf8 (usv (map of_nat nm @ 61 # map of_nat ?enc))) = nm @ 61 # ?enc"
    using assms(2) enc by (simp add: utf8_ascii utf8_def)
  have "list_all (\<lambda>b. b \<noteq> 38) (nm @ 61 # ?enc)"
    using assms(2) enc by (auto simp: list_all_iff inert_def)
  then have "split_at 38 (nm @ 61 # ?enc) = [nm @ 61 # ?enc]" by (rule split_at_none)
  then have "search_params (63 # map of_nat nm @ 61 # map of_nat ?enc) = [form_pair (nm @ 61 # ?enc)]"
    by (simp add: search_params_def drop_question_def bytes)
  moreover have "takeWhile (\<lambda>b. b \<noteq> 61) (nm @ 61 # ?enc) = nm"
    and "dropWhile (\<lambda>b. b \<noteq> 61) (nm @ 61 # ?enc) = 61 # ?enc"
    using assms(2) by (auto simp: list_all_iff inert_def takeWhile_append2 dropWhile_append2)
  ultimately show ?thesis
    unfolding e eq q by (simp add: search_get_def form_pair_def assms(3) form_text_encoded [OF ns])
qed

text \<open>The encoder fails exactly at unpaired surrogates.\<close>

lemma encode_uri_component_None: "encode_uri_component s = None \<longleftrightarrow> code_points s = None"
  by (simp add: encode_uri_component_def)

section \<open>Base64\<close>

text \<open>\<open>btoa\<close>: the base64 form of a string of units below 256, an \<open>InvalidCharacterError\<close>
  (\<open>None\<close>) otherwise.\<close>

definition base64_unit :: "nat \<Rightarrow> code_unit" where
  "base64_unit d = of_nat (if d < 26 then 65 + d else if d < 52 then 71 + d
     else if d < 62 then d - 4 else if d = 62 then 43 else 47)"

fun base64 :: "nat list \<Rightarrow> jsstr" where
  "base64 [] = []"
| "base64 [a] = [base64_unit (a div 4), base64_unit (a mod 4 * 16), 61, 61]"
| "base64 [a, b] = [base64_unit (a div 4), base64_unit (a mod 4 * 16 + b div 16),
     base64_unit (b mod 16 * 4), 61]"
| "base64 (a # b # c # bs) = base64_unit (a div 4) # base64_unit (a mod 4 * 16 + b div 16)
     # base64_unit (b mod 16 * 4 + c div 64) # base64_unit (c mod 64) # base64 bs"

definition btoa :: "jsstr \<Rightarrow> jsstr option" where
  "btoa s = (if list_all (\<lambda>u. u < 256) s then Some (base64 (map unat s)) else None)"

lemma btoa_nonempty: "btoa s = Some c \<Longrightarrow> s \<noteq> [] \<Longrightarrow> c \<noteq> []"
  by (cases "map unat s" rule: base64.cases) (auto simp: btoa_def split: if_splits)

text \<open>What evaluates the encoder and the parser on a closed string.\<close>

lemmas lit_eval = lit_def unit_of_def
lemmas encode_eval = encode_uri_component_def encode_point_def unreserved_def alpha_numeric_def
  utf8_def percent_byte_def hex_digit_def low_surrogate_def high_surrogate_def join_surrogates_def
lemmas parse_eval = form_text_def utf8_decode_def utf8_byte_def utf8_start_def utf16_def lit_eval

end
