(* ===== verification/ConsoleLib.thy ===== *)
theory ConsoleLib
  imports JsText
begin

text \<open>
  The console's helper functions, \<open>console/src/lib.ts\<close>: \<open>duration\<close> and \<open>title\<close> in full, and
  \<open>relativeTime\<close>, \<open>compact\<close> and \<open>cn\<close> over the libraries they call (\<open>date-fns\<close>, the locale tables
  of \<open>Intl\<close>, \<open>clsx\<close> and \<open>tailwind-merge\<close>), which are parameters.
\<close>

section \<open>Definitions\<close>

definition em_dash :: jsstr where
  "em_dash = [0x2014]"

definition duration :: "f64 \<Rightarrow> jsstr" where
  "duration seconds =
     (if flt seconds (num 1) then to_fixed 0 (js_max (num 0) (fmul seconds (num 1000))) @ lit '' ms''
      else if flt seconds (num 60) then to_fixed 2 seconds @ lit '' s''
      else num_str (js_floor (fdiv seconds (num 60))) @ lit ''m ''
           @ num_str (js_floor (js_mod seconds (num 60))) @ lit ''s'')"

text \<open>\<open>\w\<close> without the \<open>u\<close> flag, and \<open>toUpperCase\<close> on a character that matches it.\<close>

definition word_unit :: "code_unit \<Rightarrow> bool" where
  "word_unit c \<longleftrightarrow> (48 \<le> c \<and> c \<le> 57) \<or> (65 \<le> c \<and> c \<le> 90) \<or> c = 95 \<or> (97 \<le> c \<and> c \<le> 122)"

definition upper_word_unit :: "code_unit \<Rightarrow> code_unit" where
  "upper_word_unit c = (if 97 \<le> c \<and> c \<le> 122 then c - 32 else c)"

text \<open>\<open>replace(/\b\w/g, up)\<close>: the flag says whether the unit before the rest is a word unit.\<close>

fun upper_starts :: "bool \<Rightarrow> jsstr \<Rightarrow> jsstr" where
  "upper_starts before [] = []"
| "upper_starts before (c # cs) =
     (if \<not> before \<and> word_unit c then upper_word_unit c else c) # upper_starts (word_unit c) cs"

definition underscore_to_space :: "code_unit \<Rightarrow> code_unit" where
  "underscore_to_space c = (if c = 95 then 32 else c)"

definition title :: "jsstr \<Rightarrow> jsstr" where
  "title value = upper_starts False (map underscore_to_space value)"

text \<open>An omitted argument is the empty string.\<close>

definition title_opt :: "jsstr option \<Rightarrow> jsstr" where
  "title_opt value = title (case value of None \<Rightarrow> [] | Some v \<Rightarrow> v)"

text \<open>\<open>distance ms\<close> is \<open>formatDistanceToNowStrict(new Date(ms), \<dots>)\<close>.\<close>

definition relativeTime :: "(f64 \<Rightarrow> jsstr) \<Rightarrow> f64 option \<Rightarrow> jsstr" where
  "relativeTime distance seconds =
     (case seconds of None \<Rightarrow> em_dash
      | Some s \<Rightarrow> if falsy_num s then em_dash else distance (fmul s (num 1000)))"

definition compact :: "(f64 \<Rightarrow> jsstr) \<Rightarrow> f64 option \<Rightarrow> jsstr" where
  "compact format value = format (case value of None \<Rightarrow> num 0 | Some v \<Rightarrow> v)"

definition cn :: "('i list \<Rightarrow> jsstr) \<Rightarrow> (jsstr \<Rightarrow> jsstr) \<Rightarrow> 'i list \<Rightarrow> jsstr" where
  "cn clsx twMerge inputs = twMerge (clsx inputs)"

section \<open>Durations\<close>

lemma representable_multiple:
  assumes "round64 q = q" "0 < q" "e \<le> grid q"
  obtains m where "q = of_int m * pow2 e"
proof
  define r where "r = rhe (q / pow2 (grid q))"
  have "q = of_int r * pow2 (grid q)"
    using assms(1,2) by (simp add: round64_pos rnd_pos_def r_def)
  also have "\<dots> = of_int (r * 2 ^ nat (grid q - e)) * pow2 e"
    using assms(3) pow2_add [of "grid q - e" e] by (simp add: pow2_int)
  finally show "q = of_int (r * 2 ^ nat (grid q - e)) * pow2 e" .
qed

text \<open>
  Rounding the sixtieth of a number never carries it over a whole: a number of the format below
  \<open>60 * k\<close> is below it by at least one spacing at \<open>60 * k\<close>, and a sixtieth of that is more than
  half a spacing at \<open>k\<close>.
\<close>

lemma sixtieth_below:
  assumes q: "round64 q = q" "60 \<le> q" "q < 2 ^ 53" and below: "q < 60 * of_int k"
  shows "round64 (q / 60) < of_int k"
proof (rule ccontr)
  define x where "x = q / 60"
  define j where "j = ilog2 x"
  assume "\<not> ?thesis"
  then have over: "of_int k \<le> rnd_pos x" using q(2) by (simp add: x_def round64_pos)
  have x: "1 \<le> x" "x < of_int k" "q = 60 * x" using q(2) below by (simp_all add: x_def)
  then have "0 < x" by linarith
  have "pow2 0 \<le> x" using x(1) by (simp add: pow2_def)
  then have j0: "0 \<le> j" using \<open>0 < x\<close> by (simp add: j_def ilog2_ge_iff)
  have "x < pow2 48" using q(3) by (simp add: x_def pow2_def)
  then have j47: "j \<le> 47" using \<open>0 < x\<close> ilog2_less_iff [of x 48] by (simp add: j_def)
  have "grid x = j - 52" using j0 by (simp add: grid_def j_def)
  with rnd_pos_near [of x] have "\<bar>rnd_pos x - x\<bar> \<le> pow2 (j - 52) / 2" by simp
  with over x(2) have "of_int k - x \<le> pow2 (j - 52) / 2" by linarith
  then have "60 * of_int k - q \<le> 30 * pow2 (j - 52)" using x(3) by linarith
  also have "\<dots> < 32 * pow2 (j - 52)" by simp
  also have "\<dots> = pow2 (j - 47)" using pow2_add [of 5 "j - 52"] by (simp add: pow2_int [of 5])
  finally have close: "60 * of_int k - q < pow2 (j - 47)" .
  have "pow2 (j + 5) = 32 * pow2 j" using pow2_add [of j 5] by (simp add: pow2_int [of 5])
  also have "\<dots> \<le> 60 * x"
    using ilog2_bounds(1) [OF \<open>0 < x\<close>] \<open>0 < x\<close> unfolding j_def by linarith
  finally have "j + 5 \<le> ilog2 q" using x(3) q(2) by (simp add: ilog2_ge_iff)
  then have "j - 47 \<le> grid q" by (simp add: grid_def)
  then obtain m where m: "q = of_int m * pow2 (j - 47)"
    using representable_multiple [of q "j - 47"] q(1,2) by auto
  have "60 * of_int k = (of_int (60 * k * 2 ^ nat (47 - j)) :: rat) * pow2 (j - 47)"
    using j47 pow2_add [of "47 - j" "j - 47"] by (simp add: pow2_int [of "47 - j"] pow2_int [of 0])
  then have diff: "60 * of_int k - q = of_int (60 * k * 2 ^ nat (47 - j) - m) * pow2 (j - 47)"
    by (simp add: m left_diff_distrib)
  define n where "n = 60 * k * 2 ^ nat (47 - j) - m"
  have "0 < (of_int n :: rat) * pow2 (j - 47)" using below diff by (simp add: n_def)
  then have "0 < (of_int n :: rat)" using zero_less_mult_pos2 [OF _ pow2_pos] by blast
  then have "(1 :: rat) \<le> of_int n" by simp
  then have "1 * pow2 (j - 47) \<le> of_int n * pow2 (j - 47)" by (rule mult_right_mono) simp
  with close diff show False by (simp add: n_def)
qed

lemma floor_div_60: "\<lfloor>q / 60\<rfloor> = \<lfloor>q :: rat\<rfloor> div 60"
proof (rule floor_unique)
  have m: "\<lfloor>q\<rfloor> = 60 * (\<lfloor>q\<rfloor> div 60) + \<lfloor>q\<rfloor> mod 60" "0 \<le> \<lfloor>q\<rfloor> mod 60" "\<lfloor>q\<rfloor> mod 60 < 60" by simp_all
  then have "60 * (\<lfloor>q\<rfloor> div 60) \<le> \<lfloor>q\<rfloor>" "\<lfloor>q\<rfloor> + 1 \<le> 60 * (\<lfloor>q\<rfloor> div 60) + 60" by linarith+
  then have "(of_int (60 * (\<lfloor>q\<rfloor> div 60)) :: rat) \<le> of_int \<lfloor>q\<rfloor>"
    and "(of_int (\<lfloor>q\<rfloor> + 1) :: rat) \<le> of_int (60 * (\<lfloor>q\<rfloor> div 60) + 60)"
    by (simp_all only: of_int_le_iff)
  moreover have "of_int \<lfloor>q\<rfloor> \<le> q" "q < of_int (\<lfloor>q\<rfloor> + 1)" using floor_correct [of q] by simp_all
  ultimately have "of_int (60 * (\<lfloor>q\<rfloor> div 60)) \<le> q" "q < of_int (60 * (\<lfloor>q\<rfloor> div 60) + 60)"
    by linarith+
  then show "of_int (\<lfloor>q\<rfloor> div 60) \<le> q / 60" "q / 60 < of_int (\<lfloor>q\<rfloor> div 60) + 1"
    by (simp_all add: field_simps)
qed

lemma floor_sixtieth:
  assumes q: "round64 q = q" "60 \<le> q" "q < 2 ^ 53"
  shows "js_floor (fdiv (Fin q) (num 60)) = num (\<lfloor>q\<rfloor> div 60)"
proof -
  define k where "k = \<lfloor>q / 60\<rfloor>"
  have k: "of_int k \<le> q / 60" "q / 60 < of_int (k + 1)"
    unfolding k_def using floor_correct [of "q / 60"] by simp_all
  have "q < 60 * of_int (k + 1)" using k(2) by (simp add: field_simps)
  with q have up: "round64 (q / 60) < of_int (k + 1)" by (rule sixtieth_below)
  have k53: "0 \<le> k" "k \<le> 2 ^ 53"
  proof -
    show "0 \<le> k" using q(2) by (simp add: k_def le_floor_iff)
    have "(of_int k :: rat) \<le> of_int (2 ^ 53)" using k(1) q(2,3) by simp
    then show "k \<le> 2 ^ 53" by (simp only: of_int_le_iff)
  qed
  have lo: "of_int k \<le> round64 (q / 60)" using k(1) k53 by (intro r64.ge_exact r64.int53) auto
  have "\<lfloor>round64 (q / 60)\<rfloor> = k" using lo up by (intro floor_unique) auto
  moreover have "mk64 (q / 60) = Fin (round64 (q / 60))"
  proof (rule mk64_bounded)
    have "(of_int (k + 1) :: rat) \<le> of_int (2 ^ 53 + 1)" using k53(2) by (simp only: of_int_le_iff add_le_cancel_right)
    moreover have "(2 ^ 53 + 1 :: rat) < pow2 1024"
    proof -
      have "(2 ^ 53 + 1 :: rat) < 2 ^ 54" by simp
      also have "\<dots> = pow2 54" by (simp add: pow2_def)
      also have "\<dots> < pow2 1024" by simp
      finally show ?thesis .
    qed
    moreover have "0 \<le> round64 (q / 60)" using q(2) by (intro r64.nonneg) simp
    ultimately show "\<bar>round64 (q / 60)\<bar> < pow2 1024" using up by simp
  qed
  ultimately show ?thesis by (simp add: num_def k_def floor_div_60)
qed

lemma floor_mod_60:
  assumes "0 \<le> q"
  shows "js_floor (js_mod (Fin q) (num 60)) = num (\<lfloor>q\<rfloor> mod 60)"
proof -
  have "\<lfloor>q - of_int (60 * \<lfloor>q / 60\<rfloor>)\<rfloor> = \<lfloor>q\<rfloor> - 60 * \<lfloor>q / 60\<rfloor>" by (rule floor_diff_of_int)
  also have "\<dots> = \<lfloor>q\<rfloor> mod 60" by (simp add: floor_div_60 minus_mult_div_eq_mod)
  finally show ?thesis using assms by (simp add: num_def truncate_def)
qed

section \<open>Titles\<close>

lemma word_upper_word_unit: "word_unit c \<Longrightarrow> word_unit (upper_word_unit c)"
  unfolding word_unit_def upper_word_unit_def by (cases "97 \<le> c \<and> c \<le> 122") (auto, unat_arith+)

lemma upper_word_unit_idem: "upper_word_unit (upper_word_unit c) = upper_word_unit c"
  unfolding upper_word_unit_def by (cases "97 \<le> c \<and> c \<le> 122") (auto, unat_arith+)

lemma upper_word_unit_not_underscore: "c \<noteq> 95 \<Longrightarrow> upper_word_unit c \<noteq> 95"
  unfolding upper_word_unit_def by (cases "97 \<le> c \<and> c \<le> 122") auto

lemma length_upper_starts [simp]: "length (upper_starts b s) = length s"
  by (induction s arbitrary: b) auto

lemma upper_starts_idem: "upper_starts b (upper_starts b s) = upper_starts b s"
  by (induction s arbitrary: b) (auto simp: word_upper_word_unit upper_word_unit_idem)

lemma upper_starts_no_underscore: "95 \<notin> set s \<Longrightarrow> 95 \<notin> set (upper_starts b s)"
  by (induction s arbitrary: b) (auto dest: upper_word_unit_not_underscore)

lemma underscore_to_space_id: "95 \<notin> set s \<Longrightarrow> map underscore_to_space s = s"
  by (induction s) (auto simp: underscore_to_space_def)

lemma title_no_underscore: "95 \<notin> set (title s)"
  unfolding title_def by (rule upper_starts_no_underscore) (auto simp: underscore_to_space_def)

section \<open>Properties\<close>

text \<open>
  From one minute up to \<open>2 ^ 53\<close> seconds, \<open>duration\<close> shows exactly the whole minutes and the
  remaining whole seconds of its argument: the rounding of \<open>seconds / 60\<close> never carries the minutes
  over, so minutes and seconds always belong together.
\<close>

theorem duration_minutes:
  assumes "valid64 (Fin q)" and "60 \<le> q" and "q < 2 ^ 53"
  shows "duration (Fin q) =
    num_str (num (\<lfloor>q\<rfloor> div 60)) @ lit ''m '' @ num_str (num (\<lfloor>q\<rfloor> mod 60)) @ lit ''s''"
proof -
  have "\<not> flt (Fin q) (num 1)" "\<not> flt (Fin q) (num 60)" using assms(2) by (simp_all add: num_def)
  moreover have "js_floor (fdiv (Fin q) (num 60)) = num (\<lfloor>q\<rfloor> div 60)"
    using assms by (intro floor_sixtieth) auto
  moreover have "js_floor (js_mod (Fin q) (num 60)) = num (\<lfloor>q\<rfloor> mod 60)"
    using assms(2) by (intro floor_mod_60) simp
  ultimately show ?thesis by (simp add: duration_def)
qed

lemma valid64_half: "valid64 (Fin (181 / 2))"
proof -
  have "rnd_pos (of_int 181 * pow2 (- 1)) = of_int 181 * pow2 (- 1)"
    by (rule rnd_pos_exact) simp_all
  then have "round64 (181 / 2) = 181 / 2" by (simp add: round64_pos pow2_def)
  moreover have "(181 / 2 :: rat) < pow2 1024" by (rule less_trans [OF _ pow2_1024_big]) simp
  ultimately show ?thesis by simp
qed

theorem duration_minutes_witness:
  "duration (Fin (181 / 2)) = num_str (num 1) @ lit ''m '' @ num_str (num 30) @ lit ''s''"
proof -
  have "\<lfloor>181 / 2 :: rat\<rfloor> = 90" by (rule floor_unique) simp_all
  then show ?thesis using duration_minutes [OF valid64_half] by simp
qed

text \<open>
  Below one minute \<open>duration\<close> shows the nearest value it can: seconds to two places (an error of
  at most \<open>1/200\<close>), and below one second a whole number of milliseconds that is never negative,
  whatever the argument (an error of at most half a millisecond on the product it rounds).
\<close>

theorem duration_below_minute:
  assumes "q < 60"
  shows "(1 \<le> q \<longrightarrow> (\<exists>n. duration (Fin q) = place_point 2 (dec n) @ lit '' s''
            \<and> \<bar>of_int n / 100 - q\<bar> \<le> 1 / 200))
    \<and> (q < 1 \<longrightarrow> (\<exists>n \<ge> 0. duration (Fin q) = dec n @ lit '' ms''
            \<and> \<bar>of_int n - max 0 (round64 (q * 1000))\<bar> \<le> 1 / 2))"
proof (intro conjI impI)
  assume "1 \<le> q"
  with assms have "duration (Fin q) = place_point 2 (dec (fixed_digits 2 q)) @ lit '' s''"
    by (simp add: duration_def num_def Let_def)
  then show "\<exists>n. duration (Fin q) = place_point 2 (dec n) @ lit '' s'' \<and> \<bar>of_int n / 100 - q\<bar> \<le> 1 / 200"
    using fixed_digits_near [of 2 q] by auto
next
  assume q: "q < 1"
  define r where "r = max 0 (round64 (q * 1000))"
  have r1000: "round64 (q * 1000) \<le> 1000"
    using r64.int53 [of 1000] q by (intro r64.le_exact) auto
  have "js_max (num 0) (fmul (Fin q) (num 1000)) = Fin r"
    using r1000 less_trans [OF _ pow2_1024_big, of 1000]
    by (auto simp: num_def mk64_def Let_def js_max_def r_def not_le)
  moreover have "0 \<le> r" "\<not> 10 ^ 21 \<le> r" using r1000 by (simp_all add: r_def)
  ultimately have "duration (Fin q) = place_point 0 (dec (fixed_digits 0 r)) @ lit '' ms''"
    using q by (simp add: duration_def num_def Let_def)
  moreover have "0 \<le> fixed_digits 0 r" by (simp add: fixed_digits_def r_def)
  ultimately show "\<exists>n \<ge> 0. duration (Fin q) = dec n @ lit '' ms''
      \<and> \<bar>of_int n - max 0 (round64 (q * 1000))\<bar> \<le> 1 / 2"
    using fixed_digits_near [of 0 r] by (auto simp: place_point_def r_def)
qed

theorem duration_below_minute_witness:
  "(\<exists>n. duration (Fin (3 / 2)) = place_point 2 (dec n) @ lit '' s'' \<and> \<bar>of_int n / 100 - 3 / 2 :: rat\<bar> \<le> 1 / 200)
   \<and> (\<exists>n \<ge> 0. duration (Fin (1 / 4)) = dec n @ lit '' ms'')"
  using duration_below_minute [of "3 / 2"] duration_below_minute [of "1 / 4"] by auto

text \<open>
  \<open>title\<close> keeps the length of its argument, leaves no underscore, and is idempotent: a heading
  that is already a title is unchanged.
\<close>

theorem title_canonical:
  "length (title s) = length s \<and> 95 \<notin> set (title s) \<and> title (title s) = title s"
proof -
  have "title (title s) = upper_starts False (title s)"
    using title_no_underscore [of s] by (simp add: title_def underscore_to_space_id)
  then show ?thesis
    using title_no_underscore [of s] by (simp add: upper_starts_idem title_def)
qed

end
