(* ===== verification/ConsoleTypes.thy ===== *)
theory ConsoleTypes
  imports JsText
begin

text \<open>
  The data the console exchanges with the cloud API, \<open>console/src/types.ts\<close>. A TypeScript object
  type is a record whose fields carry a prefix for the type; an optional field (and a field that
  \<open>getOverview\<close> fills in when an older server omits it) is an \<open>option\<close>; a \<open>number\<close> is a binary64
  number; \<open>unknown\<close> is a JSON value.
\<close>

datatype json =
    JNull
  | JBool bool
  | JNum f64
  | JStr jsstr
  | JArr "json list"
  | JObj "(jsstr \<times> json) list"

record Workflow =
  w_workflow_id :: jsstr
  w_workflow_type :: jsstr
  w_status :: jsstr
  w_retries :: f64
  w_history_events :: f64
  w_duration_seconds :: f64
  w_created_at :: f64
  w_updated_at :: f64
  w_task_queue :: jsstr
  w_build_id :: "jsstr option"
  w_result :: "json option"
  w_error :: "jsstr option"

record Stream =
  s_name :: jsstr
  s_partitions :: f64
  s_records :: f64
  s_watermark :: "f64 option"
  s_max_event_time :: "f64 option"
  s_watermark_lag :: "f64 option"
  s_watermark_mode :: jsstr
  s_finalized :: bool
  s_updated_at :: f64

record Operator =
  o_operator_id :: jsstr
  o_kind :: jsstr
  o_status :: jsstr
  o_input :: "jsstr list"
  o_received :: "f64 option"
  o_emitted :: "f64 option"
  o_matched :: "f64 option"
  o_suppressed :: "f64 option"
  o_workflow_type :: "jsstr option"
  o_output_stream :: "jsstr option"
  o_n :: "f64 option"
  o_join_type :: "jsstr option"
  o_probe_watermark :: "f64 option"
  o_version_watermark :: "f64 option"
  o_latest_workflow_id :: "jsstr option"

record Process =
  p_process_id :: jsstr
  p_workflow_type :: jsstr
  p_stream :: jsstr
  p_status :: jsstr
  p_pending :: f64
  p_running :: f64
  p_completed :: f64
  p_failed :: f64
  p_retrying :: "f64 option"
  p_quarantined :: "f64 option"
  p_max_concurrent_keys :: f64
  p_retry_concurrency :: "f64 option"
  p_max_attempts :: f64
  p_mailbox_capacity :: f64
  p_event_time_gate :: jsstr

record SystemEvent =
  y_type :: jsstr
  y_level :: jsstr
  y_created_at :: f64
  y_message :: jsstr
  y_data :: "(jsstr \<times> json) list option"

record ProcessDetail =
  pd_process_id :: jsstr
  pd_outputs :: "(jsstr \<times> json) list"
  pd_system_events :: "SystemEvent list"

record Counts =
  c_workflows :: f64
  c_running_workflows :: f64
  c_failed_workflows :: f64
  c_streams :: f64
  c_processes :: f64
  c_operators :: f64
  c_recovered_workflows :: "f64 option"

record Checkpoint =
  k_checkpoint_id :: jsstr
  k_sequence :: f64
  k_created_at :: f64
  k_age_seconds :: f64
  k_shards :: f64
  k_state_handles :: f64

record PartitionOwner =
  po_partition :: f64
  po_node_id :: jsstr
  po_epoch :: f64
  po_status :: jsstr
  po_lease_remaining_seconds :: f64
  po_checkpoint_id :: "jsstr option"

record Durability =
  d_status :: jsstr
  d_storage_mode :: jsstr
  d_checkpoint :: "Checkpoint option"
  d_partition_owners :: "PartitionOwner list"
  d_active_partition_owners :: f64
  d_key_groups :: f64
  d_active_key_groups :: f64
  d_node_id :: jsstr
  d_region :: jsstr

record Overview =
  ov_environment :: jsstr
  ov_generated_at :: f64
  ov_counts :: Counts
  ov_workflows :: "Workflow list"
  ov_streams :: "Stream list"
  ov_operators :: "Operator list"
  ov_processes :: "Process list"
  ov_durability :: "Durability option"

text \<open>The overview of an environment with nothing deployed, which the closed examples start from.\<close>

definition empty_overview :: Overview where
  "empty_overview =
     \<lparr> ov_environment = [], ov_generated_at = num 0,
       ov_counts = \<lparr> c_workflows = num 0, c_running_workflows = num 0, c_failed_workflows = num 0,
         c_streams = num 0, c_processes = num 0, c_operators = num 0, c_recovered_workflows = None \<rparr>,
       ov_workflows = [], ov_streams = [], ov_operators = [], ov_processes = [], ov_durability = None \<rparr>"

text \<open>
  A history event carries its type as \<open>type\<close> or, from older servers, as \<open>event_type\<close>; its \<open>data\<close> is
  an object, read by field name.
\<close>

record HistoryEvent =
  h_event_id :: "f64 option"
  h_type :: jsstr
  h_event_type :: "jsstr option"
  h_created_at :: f64
  h_data :: "(jsstr \<times> json) list"

record TraceSource =
  ts_stream :: jsstr
  ts_partition :: f64
  ts_offset :: f64
  ts_event_id :: "jsstr option"
  ts_key :: "jsstr option"
  ts_event_time :: f64
  ts_ingestion_time :: f64
  ts_late :: bool
  ts_too_late :: bool

record TraceGate =
  tg_as_of :: f64
  tg_release_watermark :: "f64 option"
  tg_decision :: jsstr

record TraceOperator =
  to_operator_id :: jsstr
  to_kind :: jsstr
  to_probe_stream :: jsstr
  to_version_stream :: jsstr
  to_join_type :: jsstr
  to_matched :: bool

record TraceVersion =
  tv_stream :: jsstr
  tv_partition :: f64
  tv_offset :: f64
  tv_event_id :: "jsstr option"
  tv_event_time :: f64
  tv_value :: json

record ExecutionTrace =
  tr_source :: TraceSource
  tr_gate :: TraceGate
  tr_operator :: TraceOperator
  tr_version :: "TraceVersion option"

record WorkflowDetail =
  wd_workflow :: Workflow
  wd_history :: "HistoryEvent list"
  wd_trace :: "ExecutionTrace option"

text \<open>\<open>event.data.name\<close>: \<open>None\<close> is \<open>undefined\<close>.\<close>

definition data_field :: "HistoryEvent \<Rightarrow> string \<Rightarrow> json option" where
  "data_field e name = map_of (h_data e) (lit name)"

text \<open>\<open>event.type || event.event_type\<close>: an empty \<open>type\<close> gives way to \<open>event_type\<close>.\<close>

definition event_kind :: "HistoryEvent \<Rightarrow> jsstr option" where
  "event_kind e = (if h_type e = [] then h_event_type e else Some (h_type e))"

text \<open>JavaScript's truth of a value and its conversion to a string.\<close>

fun truthy :: "json \<Rightarrow> bool" where
  "truthy JNull = False"
| "truthy (JBool b) = b"
| "truthy (JNum x) = (\<not> falsy_num x)"
| "truthy (JStr s) = (s \<noteq> [])"
| "truthy _ = True"

fun join_with :: "jsstr \<Rightarrow> jsstr list \<Rightarrow> jsstr" where
  "join_with sep [] = []"
| "join_with sep [s] = s"
| "join_with sep (s # ss) = s @ sep @ join_with sep ss"

fun js_string :: "json \<Rightarrow> jsstr" where
  "js_string JNull = lit ''null''"
| "js_string (JBool b) = (if b then lit ''true'' else lit ''false'')"
| "js_string (JNum x) = num_str x"
| "js_string (JStr s) = s"
| "js_string (JArr vs) =
     join_with (lit '','') (map (\<lambda>v. if v = JNull then [] else js_string v) vs)"
| "js_string (JObj _) = lit ''[object Object]''"

definition js_string_opt :: "json option \<Rightarrow> jsstr" where
  "js_string_opt v = (case v of None \<Rightarrow> lit ''undefined'' | Some j \<Rightarrow> js_string j)"

end
