(* ===== verification/ConsoleApi.thy ===== *)
theory ConsoleApi
  imports ConsoleTypes
begin

text \<open>
  The console's client of the cloud API, \<open>console/src/api.ts\<close>: the choice of the server, the
  request with its error mapping, the overview with the fields older servers omit, and the paths of
  the detail requests. What \<open>fetch\<close> does is a value of \<open>reply\<close>: it rejects, or it resolves with a
  status, the flag \<open>ok\<close>, and the body, \<open>None\<close> when the body is not JSON.
\<close>

section \<open>Definitions\<close>

definition search_has :: "jsstr \<Rightarrow> jsstr \<Rightarrow> bool" where
  "search_has s name = (search_get s name \<noteq> None)"

definition api_base :: "jsstr \<Rightarrow> jsstr \<Rightarrow> jsstr \<Rightarrow> jsstr" where
  "api_base hostname search origin =
     (if hostname \<in> set [lit ''localhost'', lit ''127.0.0.1''] \<and> \<not> search_has search (lit ''cloud'')
      then lit ''http://127.0.0.1:17333'' else origin)"

datatype reply =
    Unreachable
  | Reply (reply_status: int) (reply_ok: bool) (reply_body: "json option")

text \<open>What a request throws: an \<open>ApiError\<close> with its message and status, or the \<open>TypeError\<close> of
  reading a property of \<open>null\<close>.\<close>

datatype failure = ApiError jsstr "int option" | TypeError

definition http_status :: "int \<Rightarrow> jsstr" where
  "http_status st = lit ''HTTP '' @ num_str (num st)"

definition json_body :: "int \<Rightarrow> json option \<Rightarrow> json" where
  "json_body st b = (case b of None \<Rightarrow> JObj [(lit ''error'', JStr (http_status st))] | Some v \<Rightarrow> v)"

text \<open>\<open>body.error\<close>: the outer \<open>None\<close> is the \<open>TypeError\<close>, the inner one \<open>undefined\<close>.\<close>

fun error_field :: "json \<Rightarrow> json option option" where
  "error_field JNull = None"
| "error_field (JObj fs) = Some (map_of fs (lit ''error''))"
| "error_field _ = Some None"

definition error_message :: "int \<Rightarrow> json option \<Rightarrow> jsstr" where
  "error_message st e =
     (case e of None \<Rightarrow> http_status st | Some v \<Rightarrow> if truthy v then js_string v else http_status st)"

fun request :: "reply \<Rightarrow> failure + json" where
  "request Unreachable =
     Inl (ApiError (lit ''The cloud API could not be reached. Check your connection and try again.'') None)"
| "request (Reply st ok b) =
     (let body = json_body st b in
      if \<not> ok then
        (case error_field body of None \<Rightarrow> Inl TypeError
         | Some e \<Rightarrow> Inl (ApiError (error_message st e) (Some st)))
      else Inr body)"

definition request_url :: "jsstr \<Rightarrow> jsstr \<Rightarrow> jsstr" where
  "request_url base path = base @ path"

definition authorization :: "jsstr \<Rightarrow> jsstr" where
  "authorization credential = lit ''Basic '' @ credential"

definition recovered_run :: "Workflow \<Rightarrow> bool" where
  "recovered_run run \<longleftrightarrow> w_status run = lit ''COMPLETED'' \<and> flt (num 0) (w_retries run)"

definition default_durability :: Durability where
  "default_durability =
     \<lparr> d_status = lit ''UNKNOWN'', d_storage_mode = lit ''checkpointed'', d_checkpoint = None,
       d_partition_owners = [], d_active_partition_owners = num 0, d_key_groups = num 0,
       d_active_key_groups = num 0, d_node_id = lit ''upgrading'', d_region = lit ''unknown'' \<rparr>"

definition fill_overview :: "Overview \<Rightarrow> Overview" where
  "fill_overview ov =
     ov\<lparr> ov_counts := (ov_counts ov)\<lparr> c_recovered_workflows :=
            (case c_recovered_workflows (ov_counts ov) of
               None \<Rightarrow> Some (num (int (length (filter recovered_run (ov_workflows ov)))))
             | Some n \<Rightarrow> Some n) \<rparr>,
         ov_durability :=
           (case ov_durability ov of None \<Rightarrow> Some default_durability | Some d \<Rightarrow> Some d) \<rparr>"

text \<open>\<open>shape\<close> is the cast \<open>body as Overview\<close>; a body without the type's fields makes the next
  property access throw.\<close>

definition getOverview :: "(json \<Rightarrow> Overview option) \<Rightarrow> reply \<Rightarrow> failure + Overview" where
  "getOverview shape r =
     (case request r of Inl e \<Rightarrow> Inl e
      | Inr body \<Rightarrow> (case shape body of None \<Rightarrow> Inl TypeError | Some ov \<Rightarrow> Inr (fill_overview ov)))"

definition workflow_path :: "jsstr \<Rightarrow> jsstr option" where
  "workflow_path ident = map_option ((@) (lit ''/console/workflows/'')) (encode_uri_component ident)"

definition process_path :: "jsstr \<Rightarrow> jsstr option" where
  "process_path ident = map_option ((@) (lit ''/console/processes/'')) (encode_uri_component ident)"

section \<open>Lemmas\<close>

lemma fill_overview_simps [simp]:
  "ov_workflows (fill_overview ov) = ov_workflows ov"
  "ov_streams (fill_overview ov) = ov_streams ov"
  "ov_operators (fill_overview ov) = ov_operators ov"
  "ov_processes (fill_overview ov) = ov_processes ov"
  "ov_generated_at (fill_overview ov) = ov_generated_at ov"
  by (simp_all add: fill_overview_def)

lemma code_points_inj: "code_points a = Some ns \<Longrightarrow> code_points b = Some ns \<Longrightarrow> a = b"
  by (metis code_points_utf16)

lemma encode_inj:
  assumes "encode_uri_component a = Some e" and "encode_uri_component b = Some e"
  shows "a = b"
proof -
  have nm: "list_all inert [120]" and t: "form_text [120] = lit ''x''"
    by (simp_all add: inert_def parse_eval)
  note get = search_get_encoded [OF _ nm t]
  from get [OF assms(1)] get [OF assms(2)] show ?thesis by simp
qed

lemma unit_of_nat_eq: "n < 128 \<Longrightarrow> m < 128 \<Longrightarrow> (of_nat n :: code_unit) = of_nat m \<longleftrightarrow> n = m"
  by (metis unat_ascii)

lemma hex_digit_plain: "d < 16 \<Longrightarrow> alpha_numeric (hex_digit d)"
  by (auto simp: hex_digit_def alpha_numeric_def)

lemma encode_point_plain:
  "scalar_value n \<Longrightarrow> list_all (\<lambda>b. unreserved b \<or> b = 37) (encode_point n)"
proof -
  assume n: "scalar_value n"
  have "list_all (\<lambda>b. unreserved b \<or> b = 37) (percent_byte b)" if "b < 256" for b
    using that by (simp add: percent_byte_def unreserved_def hex_digit_plain)
  with utf8_bytes [OF n] show ?thesis by (auto simp: encode_point_def list_all_iff)
qed

lemma encode_plain:
  assumes "encode_uri_component s = Some e" and "u \<in> set e"
  shows "unreserved (unat u) \<or> unat u = 37"
proof -
  obtain ns where ns: "code_points s = Some ns" and e: "e = map of_nat (concat (map encode_point ns))"
    using assms(1) by (auto simp: encode_uri_component_def)
  have "list_all scalar_value ns" using ns by (rule code_points_scalar)
  then have "list_all (\<lambda>b. unreserved b \<or> b = 37) (concat (map encode_point ns))"
    by (induction ns) (simp_all add: encode_point_plain)
  moreover obtain n where "n \<in> set (concat (map encode_point ns))" "u = of_nat n"
    using assms(2) unfolding e by auto
  ultimately have "unreserved n \<or> n = 37" "u = of_nat n" by (auto simp: list_all_iff)
  moreover from this unreserved_less [of n] have "n < 128" by auto
  ultimately show ?thesis by (simp add: unat_ascii)
qed

section \<open>Properties\<close>

text \<open>
  Error mapping of \<open>request\<close>: a body is returned only for an \<open>ok\<close> reply, every refused reply is
  reported with its own status (or as a \<open>TypeError\<close> when its body is the JSON \<open>null\<close>), and an
  unreachable server is reported without a status, so it can never pass for a 401.
\<close>

theorem request_outcome:
  "(case request r of
      Inr body \<Rightarrow> (\<exists>st b. r = Reply st True b \<and> body = json_body st b)
    | Inl TypeError \<Rightarrow> (\<exists>st. r = Reply st False (Some JNull))
    | Inl (ApiError msg None) \<Rightarrow> r = Unreachable
    | Inl (ApiError msg (Some st)) \<Rightarrow> (\<exists>b. r = Reply st False b \<and> b \<noteq> Some JNull))"
proof (cases r)
  case (Reply st ok b)
  have "error_field (json_body st b) = None \<longleftrightarrow> b = Some JNull"
    by (cases b; cases "the b") (auto simp: json_body_def)
  with Reply show ?thesis by (auto simp: Let_def split: option.splits)
qed simp

text \<open>
  \<open>getOverview\<close> leaves what the server sent unchanged and only fills what is missing: afterwards
  the recovered count is present, it is the number of completed runs with retries when the server
  sent none, the durability section is present, and filling twice is filling once.
\<close>

theorem fill_overview_complete:
  "c_recovered_workflows (ov_counts (fill_overview ov)) =
     (case c_recovered_workflows (ov_counts ov) of
        Some n \<Rightarrow> Some n
      | None \<Rightarrow> Some (num (int (length [run \<leftarrow> ov_workflows ov. w_status run = lit ''COMPLETED''
                                              \<and> flt (num 0) (w_retries run)]))))
   \<and> ov_durability (fill_overview ov) \<noteq> None
   \<and> (ov_durability ov \<noteq> None \<longrightarrow> ov_durability (fill_overview ov) = ov_durability ov)
   \<and> fill_overview (fill_overview ov) = fill_overview ov"
  by (auto simp: fill_overview_def recovered_run_def [abs_def] split: option.splits)

theorem fill_overview_complete_witness:
  "ov_durability (fill_overview empty_overview) = Some default_durability
   \<and> ov_durability (fill_overview (fill_overview empty_overview)) = Some default_durability"
proof -
  have "ov_durability (fill_overview empty_overview) = Some default_durability"
    by (simp add: fill_overview_def empty_overview_def)
  with fill_overview_complete [of empty_overview] show ?thesis by metis
qed

text \<open>
  The identifier in a detail request stays inside its path segment: every character of the
  encoded identifier is unreserved or a percent sign (so no slash, question mark or hash), and
  different identifiers have different paths.
\<close>

theorem detail_path_safe:
  assumes "workflow_path a = Some pa"
  shows "\<exists>seg. pa = lit ''/console/workflows/'' @ seg
      \<and> (\<forall>u \<in> set seg. unreserved (unat u) \<or> unat u = 37)
      \<and> (\<forall>b. workflow_path b = Some pa \<longrightarrow> b = a)"
proof -
  obtain seg where seg: "encode_uri_component a = Some seg" "pa = lit ''/console/workflows/'' @ seg"
    using assms by (auto simp: workflow_path_def)
  show ?thesis
  proof (intro exI conjI ballI allI impI)
    show "pa = lit ''/console/workflows/'' @ seg" by (rule seg(2))
    show "unreserved (unat u) \<or> unat u = 37" if "u \<in> set seg" for u
      using encode_plain [OF seg(1) that] .
    show "b = a" if "workflow_path b = Some pa" for b
      using that seg by (auto simp: workflow_path_def intro: encode_inj)
  qed
qed

theorem detail_path_safe_witness:
  "\<exists>seg. lit ''/console/workflows/a%2Fb'' = lit ''/console/workflows/'' @ seg
      \<and> (\<forall>u \<in> set seg. unreserved (unat u) \<or> unat u = 37)"
proof -
  have "workflow_path (lit ''a/b'') = Some (lit ''/console/workflows/a%2Fb'')"
    by (simp add: workflow_path_def encode_eval lit_eval)
  from detail_path_safe [OF this] show ?thesis by blast
qed

end
