(* ===== verification/ConsoleNav.thy ===== *)
theory ConsoleNav
  imports ConsoleTypes
begin

text \<open>
  Navigation in the console, \<open>console/src/App.tsx\<close>: the pages and their paths, \<open>pageFromPath\<close>, the
  redirect effect of \<open>App\<close>, and opening and closing the detail of a run or of a process. The router
  is \<open>react-router-dom\<close>: what \<open>navigate\<close> does with its target is the parameter \<open>parse\<close>, of which
  only the documented split of a path from its query is used (\<open>splits_query\<close>). The history is the
  stack of locations, the current one first; \<open>navigate(to)\<close> pushes and
  \<open>navigate(to, \<lbrace>replace: true\<rbrace>)\<close> replaces the top.
\<close>

section \<open>Definitions\<close>

datatype Page = POverview | PRuns | PStreams | POperators | PProcesses | PQuickstart

fun paths :: "Page \<Rightarrow> jsstr" where
  "paths POverview = lit ''/overview''"
| "paths PRuns = lit ''/runs''"
| "paths PStreams = lit ''/streams''"
| "paths POperators = lit ''/operators''"
| "paths PProcesses = lit ''/processes''"
| "paths PQuickstart = lit ''/quickstart''"

definition path_entries :: "(Page \<times> jsstr) list" where
  "path_entries = map (\<lambda>p. (p, paths p))
     [POverview, PRuns, PStreams, POperators, PProcesses, PQuickstart]"

definition starts_with :: "jsstr \<Rightarrow> jsstr \<Rightarrow> bool" where
  "starts_with s p = (take (length p) s = p)"

definition pageFromPath :: "jsstr \<Rightarrow> Page" where
  "pageFromPath pathname =
     (if starts_with pathname (lit ''/runs'') then PRuns
      else if starts_with pathname (lit ''/processes'') then PProcesses
      else case List.find (\<lambda>e. snd e = pathname) path_entries of
             Some e \<Rightarrow> fst e | None \<Rightarrow> POverview)"

definition nav :: "(Page \<times> jsstr) list" where
  "nav = [(POverview, lit ''Overview''), (PRuns, lit ''Runs''), (PStreams, lit ''Streams''),
          (POperators, lit ''Operators''), (PProcesses, lit ''Processes'')]"

record Location =
  l_pathname :: jsstr
  l_search :: jsstr
  l_from :: "jsstr option"

type_synonym history = "Location list"
type_synonym parser = "jsstr \<Rightarrow> jsstr \<times> jsstr"

definition target :: "parser \<Rightarrow> jsstr \<Rightarrow> jsstr option \<Rightarrow> Location" where
  "target parse to state = \<lparr> l_pathname = fst (parse to), l_search = snd (parse to), l_from = state \<rparr>"

definition navigate :: "parser \<Rightarrow> jsstr \<Rightarrow> jsstr option \<Rightarrow> history \<Rightarrow> history" where
  "navigate parse to state h = target parse to state # h"

definition navigate_replace :: "parser \<Rightarrow> jsstr \<Rightarrow> history \<Rightarrow> history" where
  "navigate_replace parse to h = target parse to None # tl h"

definition run_detail_path :: jsstr where
  "run_detail_path = lit ''/runs/detail''"

definition process_detail_path :: jsstr where
  "process_detail_path = lit ''/processes/detail''"

text \<open>\<open>new URLSearchParams(search).get(name) || undefined\<close>\<close>

definition query_param :: "jsstr \<Rightarrow> jsstr \<Rightarrow> jsstr option" where
  "query_param search name =
     (case search_get search name of None \<Rightarrow> None | Some v \<Rightarrow> if v = [] then None else Some v)"

definition selectedRun :: "Location \<Rightarrow> jsstr option" where
  "selectedRun l = (if l_pathname l = run_detail_path then query_param (l_search l) (lit ''run'') else None)"

definition selectedProcess :: "Location \<Rightarrow> jsstr option" where
  "selectedProcess l =
     (if l_pathname l = process_detail_path then query_param (l_search l) (lit ''process'') else None)"

definition setPage :: "parser \<Rightarrow> Page \<Rightarrow> history \<Rightarrow> history" where
  "setPage parse p h = navigate parse (paths p) None h"

text \<open>The callbacks run with the location of the current render, the top of the history. \<open>None\<close> is
  the \<open>URIError\<close> that \<open>encodeURIComponent\<close> throws.\<close>

definition openRun :: "parser \<Rightarrow> jsstr \<Rightarrow> history \<Rightarrow> history option" where
  "openRun parse ident h =
     map_option (\<lambda>e. navigate parse (lit ''/runs/detail?run='' @ e)
                       (Some (l_pathname (hd h) @ l_search (hd h))) h) (encode_uri_component ident)"

definition openProcess :: "parser \<Rightarrow> jsstr \<Rightarrow> history \<Rightarrow> history option" where
  "openProcess parse ident h =
     map_option (\<lambda>e. navigate parse (lit ''/processes/detail?process='' @ e)
                       (Some (l_pathname (hd h) @ l_search (hd h))) h) (encode_uri_component ident)"

definition from_or :: "jsstr option \<Rightarrow> jsstr \<Rightarrow> jsstr" where
  "from_or from fallback =
     (case from of None \<Rightarrow> fallback | Some f \<Rightarrow> if f = [] then fallback else f)"

definition closeRun :: "parser \<Rightarrow> history \<Rightarrow> history" where
  "closeRun parse h = navigate_replace parse (from_or (l_from (hd h)) (paths PRuns)) h"

definition closeProcess :: "parser \<Rightarrow> history \<Rightarrow> history" where
  "closeProcess parse h = navigate_replace parse (from_or (l_from (hd h)) (paths PProcesses)) h"

definition needs_redirect :: "jsstr \<Rightarrow> bool" where
  "needs_redirect pathname \<longleftrightarrow>
     pathname = lit ''/'' \<or>
     (pathname \<notin> set (map snd path_entries) \<and> pathname \<noteq> run_detail_path \<and> pathname \<noteq> process_detail_path)"

definition redirect_effect :: "parser \<Rightarrow> history \<Rightarrow> history" where
  "redirect_effect parse h =
     (if needs_redirect (l_pathname (hd h)) then navigate_replace parse (paths POverview) h else h)"

section \<open>What the router is relied on for\<close>

definition query_free :: "jsstr \<Rightarrow> bool" where
  "query_free s \<longleftrightarrow> (\<forall>u \<in> set s. u \<noteq> 63 \<and> u \<noteq> 35)"

definition hash_free :: "jsstr \<Rightarrow> bool" where
  "hash_free s \<longleftrightarrow> (\<forall>u \<in> set s. u \<noteq> 35)"

definition splits_query :: "parser \<Rightarrow> bool" where
  "splits_query parse \<longleftrightarrow>
     (\<forall>p. query_free p \<longrightarrow> parse p = (p, [])) \<and>
     (\<forall>p q. query_free p \<longrightarrow> hash_free q \<longrightarrow> parse (p @ 63 # q) = (p, 63 # q))"

text \<open>A parser that satisfies it (for paths without a hash), used by the witnesses.\<close>

definition simple_parse :: parser where
  "simple_parse s = (takeWhile (\<lambda>u. u \<noteq> 63) s, dropWhile (\<lambda>u. u \<noteq> 63) s)"

lemma takeWhile_query: "query_free p \<Longrightarrow> takeWhile (\<lambda>u. u \<noteq> 63) (p @ 63 # q) = p"
  "query_free p \<Longrightarrow> dropWhile (\<lambda>u. u \<noteq> 63) (p @ 63 # q) = 63 # q"
  by (auto simp: query_free_def takeWhile_append2 dropWhile_append2)

lemma splits_query_simple: "splits_query simple_parse"
  by (auto simp: splits_query_def simple_parse_def takeWhile_query)
     (auto simp: query_free_def takeWhile_eq_all_conv dropWhile_eq_Nil_conv)

section \<open>Detail routes\<close>

text \<open>
  The contract the run route and the process route share: a path, the name of the parameter that
  holds the identifier, and the text between them. A client that navigates to it finds the
  identifier it put in, whatever characters it has.
\<close>

locale detail_route =
  fixes path :: jsstr and name :: jsstr and bytes :: "nat list" and before :: jsstr
  assumes path_plain: "query_free path"
    and name_inert: "list_all inert bytes" "bytes \<noteq> []" "form_text bytes = name"
    and before_eq: "before = path @ 63 # map of_nat bytes @ [61]"
begin

lemma encoded_hash_free:
  assumes "encode_uri_component s = Some e"
  shows "hash_free (map of_nat bytes @ 61 # e)"
proof -
  obtain ns where ns: "code_points s = Some ns" and e: "e = map of_nat (concat (map encode_point ns))"
    using assms by (auto simp: encode_uri_component_def)
  have plain: "(of_nat b :: code_unit) \<noteq> 35" if "inert b" for b
  proof -
    from that have "unat (of_nat b :: code_unit) \<noteq> 35" by (simp add: inert_def unat_ascii)
    then show ?thesis by auto
  qed
  have "list_all inert (concat (map encode_point ns))"
    using ns by (intro encode_points_inert) (rule code_points_scalar)
  with name_inert(1) have "\<forall>b \<in> set (bytes @ concat (map encode_point ns)). inert b"
    by (auto simp: list_all_iff)
  then have "\<forall>b \<in> set (bytes @ concat (map encode_point ns)). (of_nat b :: code_unit) \<noteq> 35"
    using plain by blast
  then show ?thesis unfolding hash_free_def e by auto
qed

lemma detail_target:
  assumes "splits_query parse" and "encode_uri_component s = Some e"
  shows "parse (before @ e) = (path, 63 # map of_nat bytes @ 61 # e)"
  using assms(1) path_plain encoded_hash_free [OF assms(2)]
  by (simp add: splits_query_def before_eq)

lemma detail_param:
  assumes "encode_uri_component s = Some e" and "s \<noteq> []"
  shows "query_param (63 # map of_nat bytes @ 61 # e) name = Some s"
proof -
  have "search_get (unit_of (CHR ''?'') # map of_nat bytes @ unit_of (CHR ''='') # e) name = Some s"
    using assms(1) name_inert by (intro search_get_encoded) auto
  then have "search_get (63 # map of_nat bytes @ 61 # e) name = Some s" by (simp add: unit_of_def)
  with assms(2) show ?thesis by (simp add: query_param_def)
qed

end

lemma run_path_eq: "run_detail_path = [47, 114, 117, 110, 115, 47, 100, 101, 116, 97, 105, 108]"
  by (simp add: run_detail_path_def lit_eval)

lemma process_path_eq:
  "process_detail_path = [47, 112, 114, 111, 99, 101, 115, 115, 101, 115, 47, 100, 101, 116, 97, 105, 108]"
  by (simp add: process_detail_path_def lit_eval)

interpretation run_route: detail_route run_detail_path "lit ''run''" "[114, 117, 110]" "lit ''/runs/detail?run=''"
  by unfold_locales
    (simp_all add: run_path_eq query_free_def inert_def parse_eval)

interpretation process_route: detail_route process_detail_path "lit ''process''"
    "[112, 114, 111, 99, 101, 115, 115]" "lit ''/processes/detail?process=''"
  by unfold_locales
    (simp_all add: process_path_eq query_free_def inert_def parse_eval)

section \<open>Pages and redirects\<close>

lemma paths_inj: "paths p = paths q \<longleftrightarrow> p = q"
  by (cases p; cases q) simp_all

lemma paths_entries: "paths p \<in> set (map snd path_entries)"
  by (cases p) (simp_all add: path_entries_def)

lemma paths_no_redirect: "\<not> needs_redirect (paths p)"
  using paths_entries [of p] by (cases p) (auto simp: needs_redirect_def)

lemma find_path: "List.find (\<lambda>e. snd e = paths p) path_entries = Some (p, paths p)"
  by (cases p) (simp_all add: path_entries_def)

lemma starts_with_lits:
  "starts_with (lit s) (lit t) \<longleftrightarrow> take (length t) s = t"
  by (simp add: starts_with_def lit_def take_map) (simp flip: lit_def)

lemma detail_pages:
  "pageFromPath run_detail_path = PRuns" "pageFromPath process_detail_path = PProcesses"
  "\<not> needs_redirect run_detail_path" "\<not> needs_redirect process_detail_path"
  by (simp_all add: pageFromPath_def needs_redirect_def run_detail_path_def process_detail_path_def
      starts_with_lits)

lemma query_free_paths: "query_free (paths p)"
  by (cases p) (simp_all add: query_free_def lit_eval)

text \<open>
  Every page is found again from its own path, its path is never redirected, and the redirect
  effect settles in one step from any location: afterwards no redirect is needed, and a location
  that needed one shows the overview.
\<close>

theorem routes_settle:
  assumes "splits_query parse"
  shows "pageFromPath (paths p) = p
    \<and> \<not> needs_redirect (l_pathname (hd (setPage parse p h)))
    \<and> \<not> needs_redirect (l_pathname (hd (redirect_effect parse (l # h))))
    \<and> redirect_effect parse (redirect_effect parse (l # h)) = redirect_effect parse (l # h)
    \<and> (needs_redirect (l_pathname l) \<longrightarrow>
         pageFromPath (l_pathname (hd (redirect_effect parse (l # h)))) = POverview)"
proof -
  have page: "pageFromPath (paths q) = q" for q
    by (cases q) (simp_all add: pageFromPath_def path_entries_def starts_with_lits)
  have go: "fst (parse (paths q)) = paths q" for q
    using assms query_free_paths [of q] by (simp add: splits_query_def)
  have set: "\<not> needs_redirect (l_pathname (hd (setPage parse p h)))"
    using paths_no_redirect [of p] by (simp add: setPage_def navigate_def target_def go)
  have settled: "\<not> needs_redirect (l_pathname (hd (redirect_effect parse (l # h))))"
    using paths_no_redirect [of POverview] go [of POverview]
    by (simp add: redirect_effect_def navigate_replace_def target_def)
  then have again: "redirect_effect parse (redirect_effect parse (l # h)) = redirect_effect parse (l # h)"
    by (simp add: redirect_effect_def [of parse "redirect_effect parse (l # h)"])
  have "pageFromPath (l_pathname (hd (redirect_effect parse (l # h)))) = POverview"
    if "needs_redirect (l_pathname l)"
    using that go [of POverview] page [of POverview]
    by (simp add: redirect_effect_def navigate_replace_def target_def)
  with page set settled again show ?thesis by blast
qed

theorem routes_settle_witness:
  "redirect_effect simple_parse [\<lparr> l_pathname = lit ''/nowhere'', l_search = [], l_from = None \<rparr>]
     = [\<lparr> l_pathname = lit ''/overview'', l_search = [], l_from = None \<rparr>]
   \<and> pageFromPath (lit ''/overview'') = POverview"
proof -
  have "needs_redirect (lit ''/nowhere'')"
    by (simp add: needs_redirect_def path_entries_def run_detail_path_def process_detail_path_def)
  moreover have "simple_parse (lit ''/overview'') = (lit ''/overview'', [])"
    by (simp add: simple_parse_def lit_eval)
  ultimately show ?thesis
    using routes_settle [OF splits_query_simple, of POverview]
    by (simp add: redirect_effect_def navigate_replace_def target_def)
qed

lemma opened_run:
  assumes "splits_query parse" and "ident \<noteq> []" and "code_points ident \<noteq> None"
  shows "\<exists>l. openRun parse ident h = Some (l # h) \<and> pageFromPath (l_pathname l) = PRuns
    \<and> \<not> needs_redirect (l_pathname l) \<and> selectedRun l = Some ident \<and> selectedProcess l = None"
proof -
  obtain e where e: "encode_uri_component ident = Some e"
    using assms(3) by (auto simp: encode_uri_component_def)
  have "run_detail_path \<noteq> process_detail_path" by (simp add: run_detail_path_def process_detail_path_def)
  then show ?thesis
    using e assms(2) run_route.detail_target [OF assms(1) e] run_route.detail_param [OF e]
    by (simp add: openRun_def navigate_def target_def detail_pages selectedRun_def selectedProcess_def)
qed

lemma opened_process:
  assumes "splits_query parse" and "ident \<noteq> []" and "code_points ident \<noteq> None"
  shows "\<exists>l. openProcess parse ident h = Some (l # h) \<and> pageFromPath (l_pathname l) = PProcesses
    \<and> \<not> needs_redirect (l_pathname l) \<and> selectedProcess l = Some ident \<and> selectedRun l = None"
proof -
  obtain e where e: "encode_uri_component ident = Some e"
    using assms(3) by (auto simp: encode_uri_component_def)
  have "run_detail_path \<noteq> process_detail_path" by (simp add: run_detail_path_def process_detail_path_def)
  then show ?thesis
    using e assms(2) process_route.detail_target [OF assms(1) e] process_route.detail_param [OF e]
    by (simp add: openProcess_def navigate_def target_def detail_pages selectedRun_def selectedProcess_def)
qed

text \<open>
  C27. Opening a run or a process: whenever its identifier can be encoded and is not empty, the new
  location shows that page, needs no redirect, and selects exactly that identifier, whatever
  characters it holds.
\<close>

theorem open_selects:
  assumes "splits_query parse" and "ident \<noteq> []" and "code_points ident \<noteq> None"
  shows "(\<exists>l. openRun parse ident h = Some (l # h) \<and> pageFromPath (l_pathname l) = PRuns
           \<and> \<not> needs_redirect (l_pathname l) \<and> selectedRun l = Some ident \<and> selectedProcess l = None)
    \<and> (\<exists>l. openProcess parse ident h = Some (l # h) \<and> pageFromPath (l_pathname l) = PProcesses
           \<and> \<not> needs_redirect (l_pathname l) \<and> selectedProcess l = Some ident \<and> selectedRun l = None)"
  using opened_run [OF assms] opened_process [OF assms] by blast

theorem open_selects_witness:
  "\<exists>l. openRun simple_parse (lit ''order/7 & more'') [] = Some [l]
     \<and> selectedRun l = Some (lit ''order/7 & more'')"
proof -
  have "code_points (lit ''order/7 & more'') \<noteq> None"
    by (simp add: lit_eval low_surrogate_def high_surrogate_def)
  from open_selects [OF splits_query_simple _ this, of "[]"] show ?thesis by auto
qed

definition well_formed_location :: "Location \<Rightarrow> bool" where
  "well_formed_location l \<longleftrightarrow> l_pathname l \<noteq> [] \<and> query_free (l_pathname l) \<and> hash_free (l_search l)
     \<and> (l_search l = [] \<or> hd (l_search l) = 63)"

lemma parse_location:
  assumes "splits_query parse" and "well_formed_location l"
  shows "parse (l_pathname l @ l_search l) = (l_pathname l, l_search l)"
proof (cases "l_search l")
  case Nil
  with assms show ?thesis by (simp add: splits_query_def well_formed_location_def)
next
  case (Cons u us)
  with assms(2) have "u = 63" "hash_free us" by (auto simp: well_formed_location_def hash_free_def)
  with assms Cons show ?thesis by (simp add: splits_query_def well_formed_location_def)
qed

text \<open>
  Closing a detail returns to the very location it was opened from (path and query), for any
  location whose path holds no question mark or hash and whose query is empty or starts with a
  question mark.
\<close>

theorem close_returns:
  assumes "splits_query parse" and "well_formed_location l"
    and "openRun parse ident (l # h) = Some h1" and "openProcess parse ident (l # h) = Some h2"
  shows "closeRun parse h1 = l\<lparr> l_from := None \<rparr> # l # h
    \<and> closeProcess parse h2 = l\<lparr> l_from := None \<rparr> # l # h"
proof -
  have ret: "target parse (l_pathname l @ l_search l) None = l\<lparr> l_from := None \<rparr>"
    by (simp add: target_def parse_location [OF assms(1,2)])
  have "l_pathname l @ l_search l \<noteq> []" using assms(2) by (simp add: well_formed_location_def)
  then show ?thesis
    using assms(3,4) ret
    by (auto simp: openRun_def openProcess_def navigate_def closeRun_def closeProcess_def
        navigate_replace_def from_or_def target_def)
qed

theorem close_returns_witness:
  "\<exists>h1. openRun simple_parse (lit ''r1'') [\<lparr> l_pathname = lit ''/overview'', l_search = [], l_from = None \<rparr>] = Some h1
     \<and> hd (closeRun simple_parse h1) = \<lparr> l_pathname = lit ''/overview'', l_search = [], l_from = None \<rparr>"
proof -
  let ?l = "\<lparr> l_pathname = lit ''/overview'', l_search = [], l_from = None \<rparr>"
  have wf: "well_formed_location ?l"
    by (simp add: well_formed_location_def query_free_def hash_free_def lit_eval)
  have "code_points (lit ''r1'') \<noteq> None"
    by (simp add: lit_eval low_surrogate_def high_surrogate_def)
  then obtain h1 h2 where "openRun simple_parse (lit ''r1'') [?l] = Some h1"
    and "openProcess simple_parse (lit ''r1'') [?l] = Some h2"
    by (auto simp: openRun_def openProcess_def encode_uri_component_def)
  with close_returns [OF splits_query_simple wf this] show ?thesis by simp
qed

end
