(* ===== verification/ConsoleSession.thy ===== *)
theory ConsoleSession
  imports ConsoleApi
begin

text \<open>
  The state of the console application, \<open>App\<close> and \<open>Login\<close> of \<open>console/src/App.tsx\<close>: the
  credential and its copy in \<open>sessionStorage\<close>, the overview, the connection error, the throughput
  trend and the sign-in form, as a machine over the events that change them. Several requests can
  be in flight at once (the interval, the retry button and the refresh button all start one), and
  their replies may arrive in any order: the credentials of the loads in flight are part of the
  state, and a reply is an event of its own. \<open>a_busy\<close> and \<open>a_form_error\<close> are the state of the mounted
  \<open>Login\<close>; \<open>a_form\<close> counts its mounts, so that the reply to an attempt of a form that is gone does not
  reach the next one.

  Parameters: \<open>clock\<close> is \<open>toLocaleTimeString\<close> on the time of an overview; \<open>engine\<close> is the text of
  an error the JavaScript engine raises itself.
\<close>

section \<open>The throughput trend\<close>

record TrendPoint =
  t_time :: jsstr
  t_generatedAt :: f64
  t_rate :: f64
  t_total :: f64

definition total_records :: "Overview \<Rightarrow> f64" where
  "total_records ov = foldl (\<lambda>acc stream. fadd acc (s_records stream)) (num 0) (ov_streams ov)"

definition recent_points :: "f64 \<Rightarrow> TrendPoint list \<Rightarrow> TrendPoint list" where
  "recent_points now points = filter (\<lambda>p. fle (fsub now (t_generatedAt p)) (num 60)) points"

definition trend_point :: "(f64 \<Rightarrow> jsstr) \<Rightarrow> f64 \<Rightarrow> f64 \<Rightarrow> TrendPoint option \<Rightarrow> TrendPoint" where
  "trend_point clock now records anchor =
     (let elapsed = (case anchor of None \<Rightarrow> num 1
                     | Some a \<Rightarrow> js_max (num 1) (fsub now (t_generatedAt a)));
          rate = (case anchor of None \<Rightarrow> num 0
                  | Some a \<Rightarrow> js_max (num 0) (fdiv (fsub records (t_total a)) elapsed))
      in \<lparr> t_time = clock (fmul now (num 1000)), t_generatedAt = now, t_rate = rate, t_total = records \<rparr>)"

definition next_trend :: "(f64 \<Rightarrow> jsstr) \<Rightarrow> Overview \<Rightarrow> TrendPoint list \<Rightarrow> TrendPoint list" where
  "next_trend clock next points =
     (let recent = recent_points (ov_generated_at next) points
      in slice_last 18 (recent @ [trend_point clock (ov_generated_at next) (total_records next) (first_of recent)]))"

definition current_rate :: "TrendPoint list \<Rightarrow> f64" where
  "current_rate trend = (case last_of trend of None \<Rightarrow> num 0 | Some p \<Rightarrow> t_rate p)"

section \<open>The application\<close>

record App =
  a_credential :: jsstr
  a_storage :: "jsstr option"
  a_data :: "Overview option"
  a_error :: jsstr
  a_refreshing :: bool
  a_trend :: "TrendPoint list"
  a_inflight :: "jsstr list"
  a_busy :: bool
  a_form_error :: jsstr
  a_form :: nat
  a_pending :: "(nat \<times> jsstr) list"

text \<open>\<open>useState(() => sessionStorage.getItem("highwater_demo_login") || "")\<close>\<close>

definition initial_app :: "jsstr option \<Rightarrow> App" where
  "initial_app stored =
     \<lparr> a_credential = (case stored of None \<Rightarrow> [] | Some c \<Rightarrow> c), a_storage = stored, a_data = None,
       a_error = [], a_refreshing = False, a_trend = [], a_inflight = [], a_busy = False,
       a_form_error = [], a_form = 0, a_pending = [] \<rparr>"

datatype Event =
    Load
  | LoadDone jsstr "failure + Overview"
  | Submit jsstr jsstr
  | LoginDone nat jsstr "failure + Overview"
  | Logout

definition failure_message :: "jsstr \<Rightarrow> failure \<Rightarrow> jsstr" where
  "failure_message engine f = (case f of ApiError m st \<Rightarrow> m | TypeError \<Rightarrow> engine)"

definition unauthorized :: "failure \<Rightarrow> bool" where
  "unauthorized f = (case f of ApiError m st \<Rightarrow> st = Some 401 | TypeError \<Rightarrow> False)"

text \<open>\<open>sessionStorage.removeItem\<close>, \<open>setCredential("")\<close>, \<open>setData(undefined)\<close>: what \<open>logout\<close> and a
  401 do. When a credential was set the sign-in form mounts afresh, with the initial state of \<open>Login\<close>.\<close>

definition sign_out :: "App \<Rightarrow> App" where
  "sign_out s = s\<lparr> a_storage := None, a_credential := [], a_data := None,
     a_busy := (if a_credential s = [] then a_busy s else False),
     a_form_error := (if a_credential s = [] then a_form_error s else []),
     a_form := (if a_credential s = [] then a_form s else Suc (a_form s)) \<rparr>"

definition load :: "jsstr \<Rightarrow> App \<Rightarrow> App" where
  "load login s =
     (if login = [] then s else s\<lparr> a_refreshing := True, a_inflight := a_inflight s @ [login] \<rparr>)"

definition load_done :: "(f64 \<Rightarrow> jsstr) \<Rightarrow> jsstr \<Rightarrow> failure + Overview \<Rightarrow> App \<Rightarrow> App" where
  "load_done clock engine outcome s =
     (case outcome of
        Inr next \<Rightarrow> s\<lparr> a_error := [], a_trend := next_trend clock next (a_trend s),
                      a_data := Some next, a_refreshing := False \<rparr>
      | Inl f \<Rightarrow> (if unauthorized f then sign_out s else s\<lparr> a_error := failure_message engine f \<rparr>)
                  \<lparr> a_refreshing := False \<rparr>)"

text \<open>
  \<open>submit\<close> of the mounted form; there is none with a credential. The handler itself does not look at \<open>busy\<close>:
  only the button does. \<open>btoa\<close> may raise, which the handler catches.
\<close>

definition submit :: "jsstr \<Rightarrow> jsstr \<Rightarrow> jsstr \<Rightarrow> App \<Rightarrow> App" where
  "submit engine username password s =
     (if a_credential s \<noteq> [] then s
      else let trying = s\<lparr> a_busy := True, a_form_error := [] \<rparr>
        in case btoa (username @ lit '':'' @ password) of
             None \<Rightarrow> trying\<lparr> a_form_error := engine, a_busy := False \<rparr>
           | Some c \<Rightarrow> trying\<lparr> a_pending := a_pending s @ [(a_form s, c)] \<rparr>)"

definition login_message :: "jsstr \<Rightarrow> failure \<Rightarrow> jsstr" where
  "login_message engine f =
     (if unauthorized f then lit ''That username or password is not valid.''
      else failure_message engine f)"

text \<open>The \<open>finally\<close> and the \<open>catch\<close> of \<open>submit\<close> set the state of the form that made the attempt.\<close>

definition form_idle :: "nat \<Rightarrow> App \<Rightarrow> App" where
  "form_idle form s = (if form = a_form s then s\<lparr> a_busy := False \<rparr> else s)"

definition login_done :: "jsstr \<Rightarrow> nat \<Rightarrow> jsstr \<Rightarrow> failure + Overview \<Rightarrow> App \<Rightarrow> App" where
  "login_done engine form next outcome s = form_idle form
     (case outcome of
        Inr result \<Rightarrow> s\<lparr> a_storage := Some next, a_credential := next, a_data := Some result, a_error := [] \<rparr>
      | Inl f \<Rightarrow> if form = a_form s then s\<lparr> a_form_error := login_message engine f \<rparr> else s)"

text \<open>A reply can only arrive for a request that is in flight.\<close>

fun app_step :: "(f64 \<Rightarrow> jsstr) \<Rightarrow> jsstr \<Rightarrow> App \<Rightarrow> Event \<Rightarrow> App" where
  "app_step clock engine s Load = load (a_credential s) s"
| "app_step clock engine s (LoadDone c outcome) =
     (if c \<in> set (a_inflight s)
      then load_done clock engine outcome (s\<lparr> a_inflight := remove1 c (a_inflight s) \<rparr>) else s)"
| "app_step clock engine s (Submit u p) = submit engine u p s"
| "app_step clock engine s (LoginDone form c outcome) =
     (if (form, c) \<in> set (a_pending s)
      then login_done engine form c outcome (s\<lparr> a_pending := remove1 (form, c) (a_pending s) \<rparr>) else s)"
| "app_step clock engine s Logout = sign_out s"

definition app_run :: "(f64 \<Rightarrow> jsstr) \<Rightarrow> jsstr \<Rightarrow> jsstr option \<Rightarrow> Event list \<Rightarrow> App" where
  "app_run clock engine stored es = foldl (app_step clock engine) (initial_app stored) es"

text \<open>What is on the screen: the sign-in form without a credential, a loader without data.\<close>

datatype Screen = LoginForm jsstr bool | Connecting jsstr | Console Overview jsstr

definition screen :: "App \<Rightarrow> Screen" where
  "screen s =
     (if a_credential s = [] then LoginForm (a_form_error s) (a_busy s)
      else case a_data s of None \<Rightarrow> Connecting (a_error s) | Some ov \<Rightarrow> Console ov (a_error s))"

section \<open>The trend stays a bounded window\<close>

text \<open>Numbers of at most \<open>2 ^ 53\<close>: the counts and the epoch seconds the server sends.\<close>

definition sound_overview :: "Overview \<Rightarrow> bool" where
  "sound_overview ov \<longleftrightarrow> small64 (ov_generated_at ov) \<and> small64 (total_records ov)"

fun sound_event :: "Event \<Rightarrow> bool" where
  "sound_event (LoadDone c (Inr ov)) = sound_overview ov"
| "sound_event _ = True"

definition sound_point :: "TrendPoint \<Rightarrow> bool" where
  "sound_point p \<longleftrightarrow> small64 (t_generatedAt p) \<and> small64 (t_total p)
     \<and> finite64 (t_rate p) \<and> fle (num 0) (t_rate p)"

definition trend_ok :: "TrendPoint list \<Rightarrow> bool" where
  "trend_ok ps \<longleftrightarrow> length ps \<le> 18 \<and> (\<forall>p \<in> set ps. sound_point p)
     \<and> (\<forall>p \<in> set ps. fle (fsub (t_generatedAt (last ps)) (t_generatedAt p)) (num 60))"

lemma sound_trend_point:
  assumes "small64 now" "small64 records" "\<And>a. anchor = Some a \<Longrightarrow> sound_point a"
  shows "sound_point (trend_point clock now records anchor)"
proof (cases anchor)
  case None
  with assms show ?thesis by (simp add: sound_point_def trend_point_def num_def)
next
  case (Some a)
  then have a: "small64 (t_generatedAt a)" "small64 (t_total a)"
    using assms(3) by (auto simp: sound_point_def)
  obtain g where g: "fsub now (t_generatedAt a) = Fin g" using fsub_small [OF assms(1) a(1)] by metis
  obtain d where d: "fsub records (t_total a) = Fin d" "\<bar>d\<bar> \<le> 2 ^ 54"
    using fsub_small [OF assms(2) a(2)] by metis
  define e where "e = max 1 g"
  have e: "js_max (num 1) (Fin g) = Fin e" "1 \<le> e" by (auto simp: e_def js_max_def num_def)
  have "\<bar>d / e\<bar> \<le> \<bar>d\<bar>" using e(2) mult_left_mono [of 1 e "\<bar>d\<bar>"] by (simp add: divide_le_eq)
  with d(2) have "fdiv (Fin d) (Fin e) = Fin (round64 (d / e))" using e(2) by (simp add: mk64_pow54)
  then have "t_rate (trend_point clock now records anchor) = js_max (num 0) (Fin (round64 (d / e)))"
    by (simp only: trend_point_def Let_def Some option.case TrendPoint.simps g d(1) e(1))
  then have "t_rate (trend_point clock now records anchor) = Fin (max 0 (round64 (d / e)))"
    by (auto simp: js_max_def num_def)
  moreover have "t_generatedAt (trend_point clock now records anchor) = now"
    "t_total (trend_point clock now records anchor) = records"
    by (simp_all add: trend_point_def Let_def)
  ultimately show ?thesis using assms(1,2) by (simp add: sound_point_def)
qed

lemma next_trend_ok:
  assumes "trend_ok ps" and "sound_overview ov"
  shows "trend_ok (next_trend clock ov ps)"
proof -
  let ?now = "ov_generated_at ov"
  let ?recent = "recent_points ?now ps"
  let ?p = "trend_point clock ?now (total_records ov) (first_of ?recent)"
  let ?all = "?recent @ [?p]"
  have now: "small64 ?now" "small64 (total_records ov)" using assms(2) by (auto simp: sound_overview_def)
  have recent: "\<forall>p \<in> set ?recent. sound_point p"
    using assms(1) by (auto simp: trend_ok_def recent_points_def)
  then have "sound_point ?p" using now by (intro sound_trend_point) (auto dest: first_of_Some)
  with recent have sound: "\<forall>p \<in> set ?all. sound_point p" by simp
  have gen: "t_generatedAt ?p = ?now" by (simp add: trend_point_def Let_def)
  have window: "\<forall>p \<in> set ?all. fle (fsub ?now (t_generatedAt p)) (num 60)"
    using now(1) unfolding set_append ball_Un
    by (simp add: gen fsub_self) (simp add: recent_points_def num_def)
  have "last (slice_last 18 ?all) = ?p" by (simp add: last_slice_last)
  with sound window show ?thesis
    using set_slice_last [of 18 ?all] unfolding next_trend_def Let_def trend_ok_def
    by (auto simp: gen)
qed

section \<open>The invariant of the application\<close>

text \<open>The credential of the console and the one in \<open>sessionStorage\<close> are the same, and the trend is a
  bounded window.\<close>

definition app_inv :: "App \<Rightarrow> bool" where
  "app_inv s \<longleftrightarrow> a_credential s = (case a_storage s of None \<Rightarrow> [] | Some c \<Rightarrow> c) \<and> trend_ok (a_trend s)"

lemma sign_out_inv: "app_inv s \<Longrightarrow> app_inv (sign_out s)"
  by (simp add: app_inv_def sign_out_def)

lemma load_done_inv:
  "app_inv s \<Longrightarrow> (\<And>ov. outcome = Inr ov \<Longrightarrow> sound_overview ov) \<Longrightarrow> app_inv (load_done clock engine outcome s)"
  using sign_out_inv [of s]
  by (auto simp: load_done_def app_inv_def next_trend_ok split: sum.splits)

lemma app_step_inv:
  assumes "app_inv s" "sound_event e"
  shows "app_inv (app_step clock engine s e)"
proof (cases e)
  case Load
  with assms show ?thesis by (auto simp: app_inv_def load_def)
next
  case (LoadDone c outcome)
  have "app_inv (s\<lparr> a_inflight := x \<rparr>)" for x using assms(1) by (simp add: app_inv_def)
  with LoadDone assms show ?thesis by (auto intro!: load_done_inv)
next
  case (Submit u p)
  with assms show ?thesis by (auto simp: app_inv_def submit_def Let_def split: option.splits)
next
  case (LoginDone form c outcome)
  with assms show ?thesis by (auto simp: app_inv_def login_done_def form_idle_def split: sum.splits)
next
  case Logout
  with assms show ?thesis by (simp add: sign_out_inv)
qed

interpretation console: machine "\<lambda>s. \<exists>stored. s = initial_app stored" "app_step clock engine" sound_event app_inv
  for clock :: "f64 \<Rightarrow> jsstr" and engine :: jsstr
proof unfold_locales
  show "app_inv s" if "\<exists>stored. s = initial_app stored" for s
    using that by (auto simp: initial_app_def app_inv_def trend_ok_def)
qed (rule app_step_inv)

lemma app_run_inv: "list_all sound_event es \<Longrightarrow> app_inv (app_run clock engine stored es)"
  unfolding app_run_def by (rule console.run_inv) auto

lemma app_run_snoc: "app_run clock engine stored (es @ [e]) = app_step clock engine (app_run clock engine stored es) e"
  by (simp add: app_run_def)

section \<open>Properties\<close>

text \<open>
  C10. The throughput trend, whatever sequence of loads, sign-ins and sign-outs, with replies in any
  order: never more than 18 points, none of them more than 60 seconds older than the newest, and
  every rate, the displayed one included, is finite and not negative (for overviews whose numbers
  are at most \<open>2 ^ 53\<close>).
\<close>

theorem trend_window:
  assumes "list_all sound_event es"
  shows "let ps = a_trend (app_run clock engine stored es) in
    length ps \<le> 18
    \<and> (\<forall>p \<in> set ps. finite64 (t_rate p) \<and> fle (num 0) (t_rate p)
         \<and> fle (fsub (t_generatedAt (last ps)) (t_generatedAt p)) (num 60))
    \<and> finite64 (current_rate ps) \<and> fle (num 0) (current_rate ps)"
proof -
  let ?ps = "a_trend (app_run clock engine stored es)"
  have ok: "trend_ok ?ps" using app_run_inv [OF assms] by (simp add: app_inv_def)
  have "finite64 (current_rate ?ps) \<and> fle (num 0) (current_rate ?ps)"
  proof (cases "last_of ?ps")
    case None
    then show ?thesis by (simp add: current_rate_def num_def)
  next
    case (Some p)
    with ok show ?thesis by (auto simp: current_rate_def trend_ok_def sound_point_def dest: last_of_Some)
  qed
  with ok show ?thesis by (simp add: Let_def trend_ok_def sound_point_def)
qed

theorem trend_window_witness:
  "let ps = a_trend (app_run (\<lambda>_. []) [] (Some [65]) [Load, LoadDone [65] (Inr empty_overview)]) in
    length ps = 1 \<and> length ps \<le> 18 \<and> finite64 (current_rate ps)"
proof -
  let ?es = "[Load, LoadDone [65] (Inr empty_overview)]"
  have "list_all sound_event ?es"
    by (simp add: sound_overview_def empty_overview_def total_records_def num_def)
  moreover have "length (a_trend (app_run (\<lambda>_. []) [] (Some [65]) ?es)) = 1"
    by (simp add: app_run_def initial_app_def load_def load_done_def next_trend_def recent_points_def
        slice_last_def)
  ultimately show ?thesis using trend_window [of ?es "\<lambda>_. []" "[]" "Some [65]"] by (simp add: Let_def)
qed

text \<open>
  C1. Only a successful sign-in sets a credential: one step of the application changes the credential
  only to the one of a successful sign-in reply, or to the empty one by signing out or by a 401; in
  every reachable state the copy in \<open>sessionStorage\<close> is the credential of the console.
\<close>

theorem credential_changes:
  assumes "list_all sound_event es"
  shows "let s = app_run clock engine stored es; s' = app_step clock engine s e in
    a_credential s = (case a_storage s of None \<Rightarrow> [] | Some c \<Rightarrow> c)
    \<and> (a_credential s' \<noteq> a_credential s \<longrightarrow>
        (\<exists>form c ov. e = LoginDone form c (Inr ov) \<and> (form, c) \<in> set (a_pending s) \<and> a_credential s' = c)
        \<or> ((e = Logout \<or> (\<exists>c f. e = LoadDone c (Inl f) \<and> unauthorized f)) \<and> a_credential s' = []))"
proof -
  let ?s = "app_run clock engine stored es"
  have "app_inv ?s" using assms by (rule app_run_inv)
  moreover have "a_credential (app_step clock engine ?s e) \<noteq> a_credential ?s \<longrightarrow>
      (\<exists>form c ov. e = LoginDone form c (Inr ov) \<and> (form, c) \<in> set (a_pending ?s) \<and> a_credential (app_step clock engine ?s e) = c)
      \<or> ((e = Logout \<or> (\<exists>c f. e = LoadDone c (Inl f) \<and> unauthorized f))
          \<and> a_credential (app_step clock engine ?s e) = [])"
    by (cases e) (auto simp: load_def load_done_def submit_def Let_def login_done_def form_idle_def sign_out_def
        split: sum.splits option.splits)
  ultimately show ?thesis by (simp add: app_inv_def Let_def)
qed

theorem credential_changes_witness:
  "a_storage (app_run (\<lambda>_. []) [] (Some [65]) [Load]) = Some [65]
   \<and> a_credential (app_run (\<lambda>_. []) [] (Some [65]) [Load]) = [65]"
proof -
  have "a_storage (app_run (\<lambda>_. []) [] (Some [65]) [Load]) = Some [65]"
    by (simp add: app_run_def initial_app_def load_def)
  then show ?thesis
    using credential_changes [of "[Load]" "\<lambda>_. []" "[]" "Some [65]" Logout] by (simp add: Let_def)
qed

text \<open>
  C28. A sign-out holds against every request still in flight: whatever replies to earlier loads arrive
  afterwards, in whatever order, the screen stays the sign-in form and nothing is stored again, until
  a new sign-in succeeds.
\<close>

theorem sign_out_final:
  assumes "\<forall>e \<in> set fs. \<forall>form c r. e \<noteq> LoginDone form c (Inr r)"
  shows "let s = foldl (app_step clock engine) (sign_out s0) fs in
    a_credential s = [] \<and> a_storage s = None \<and> (\<exists>m b. screen s = LoginForm m b)"
proof -
  have step: "a_credential (app_step clock engine s e) = [] \<and> a_storage (app_step clock engine s e) = None"
    if "a_credential s = []" "a_storage s = None" "\<forall>form c r. e \<noteq> LoginDone form c (Inr r)" for s e
    using that by (cases e) (auto simp: load_def load_done_def submit_def Let_def login_done_def form_idle_def sign_out_def
        split: sum.splits option.splits)
  have "a_credential (foldl (app_step clock engine) s fs) = [] \<and> a_storage (foldl (app_step clock engine) s fs) = None"
    if "a_credential s = []" "a_storage s = None" for s
    using that assms
  proof (induction fs arbitrary: s)
    case Nil
    then show ?case by simp
  next
    case (Cons e fs)
    with step [of s e] show ?case by simp
  qed
  from this [of "sign_out s0"] show ?thesis by (simp add: sign_out_def screen_def Let_def)
qed

theorem sign_out_final_witness:
  "let s = app_run (\<lambda>_. []) [] (Some [65]) [Load] in
    a_inflight s = [[65]]
    \<and> a_storage (foldl (app_step (\<lambda>_. []) []) (sign_out s) [LoadDone [65] (Inr empty_overview), Load]) = None"
  using sign_out_final [of "[LoadDone [65] (Inr empty_overview), Load]" "\<lambda>_. []" "[]"
      "app_run (\<lambda>_. []) [] (Some [65]) [Load]"]
  by (auto simp: Let_def app_run_def initial_app_def load_def)

text \<open>
  C29. The console does not compare the credential of a reply with its own. For any two different
  credentials: after a sign-in with the first, a load, a sign-out and a sign-in with the second, the
  console shows the second session; the reply to the first session's load then acts on it, a 401 ends
  the second session and clears what it stored, and a success replaces the data on its screen.
\<close>

theorem stale_reply_acts_on_new_session:
  assumes "btoa (u1 @ lit '':'' @ p1) = Some c1" and "btoa (u2 @ lit '':'' @ p2) = Some c2"
    and "c1 \<noteq> c2"
  shows "let s = app_run clock engine None
          [Submit u1 p1, LoginDone 0 c1 (Inr ov1), Load, Logout, Submit u2 p2, LoginDone 1 c2 (Inr ov2)] in
    screen s = Console ov2 [] \<and> a_credential s = c2 \<and> a_storage s = Some c2
    \<and> screen (app_step clock engine s (LoadDone c1 (Inl (ApiError m (Some 401))))) = LoginForm [] False
    \<and> a_storage (app_step clock engine s (LoadDone c1 (Inl (ApiError m (Some 401))))) = None
    \<and> screen (app_step clock engine s (LoadDone c1 (Inr ov1))) = Console ov1 []"
proof -
  have "c1 \<noteq> []" "c2 \<noteq> []" using assms(1,2) by (auto dest!: btoa_nonempty)
  with assms show ?thesis
    by (simp add: app_run_def initial_app_def submit_def login_done_def form_idle_def load_def load_done_def
        sign_out_def unauthorized_def screen_def Let_def)
qed

theorem stale_reply_acts_on_new_session_witness:
  "let s = app_run (\<lambda>_. []) [] None
          [Submit (lit ''a'') (lit ''x''), LoginDone 0 (lit ''YTp4'') (Inr empty_overview), Load, Logout,
           Submit (lit ''b'') (lit ''x''), LoginDone 1 (lit ''Yjp4'') (Inr empty_overview)] in
    a_credential s = lit ''Yjp4''
    \<and> a_storage (app_step (\<lambda>_. []) [] s (LoadDone (lit ''YTp4'') (Inl (ApiError [] (Some 401))))) = None"
proof -
  have "btoa (lit ''a'' @ lit '':'' @ lit ''x'') = Some (lit ''YTp4'')"
    and "btoa (lit ''b'' @ lit '':'' @ lit ''x'') = Some (lit ''Yjp4'')"
    by (simp_all add: btoa_def lit_eval base64_unit_def)
  moreover have "lit ''YTp4'' \<noteq> lit ''Yjp4''" by simp
  ultimately show ?thesis
    using stale_reply_acts_on_new_session [of "lit ''a''" "lit ''x''" "lit ''YTp4''" "lit ''b''" "lit ''x''" "lit ''Yjp4''"
        "\<lambda>_. []" "[]" empty_overview empty_overview "[]"]
    by (simp add: Let_def)
qed

end
