(* ===== verification/ConsoleTimeline.thy ===== *)
theory ConsoleTimeline
  imports ConsoleTypes ConsoleLib
begin

text \<open>
  The views of a run's history, \<open>console/src/App.tsx\<close>: the lanes of the timeline
  (\<open>timelineLanes\<close>), the coordinates they are drawn at (\<open>TimelineSvg\<close>), and the entries of the
  compact history (\<open>CompactHistory\<close>).

  The lanes are computed by a loop that mutates them; \<open>lanes_spec\<close> says declaratively what they are,
  one lane per scheduled activity or received signal, each absorbing the later events of its own
  command, and \<open>foldl_lane_step\<close> is the refinement.
\<close>

section \<open>Lanes\<close>

record TimelineLane =
  n_label :: jsstr
  n_kind :: jsstr
  n_commandId :: "json option"
  n_start :: f64
  n_end :: f64
  n_markers :: "(f64 \<times> jsstr) list"

text \<open>\<open>===\<close> on values read from JSON; two arrays or objects of different events are different
  references.\<close>

fun strict_eq :: "json option \<Rightarrow> json option \<Rightarrow> bool" where
  "strict_eq None None = True"
| "strict_eq (Some JNull) (Some JNull) = True"
| "strict_eq (Some (JBool a)) (Some (JBool b)) = (a = b)"
| "strict_eq (Some (JNum a)) (Some (JNum b)) = feq a b"
| "strict_eq (Some (JStr a)) (Some (JStr b)) = (a = b)"
| "strict_eq _ _ = False"

definition has_kind :: "string \<Rightarrow> HistoryEvent \<Rightarrow> bool" where
  "has_kind k e = (event_kind e = Some (lit k))"

definition command_of :: "HistoryEvent \<Rightarrow> json option" where
  "command_of e = data_field e ''command_id''"

definition label_or :: "json option \<Rightarrow> jsstr \<Rightarrow> jsstr" where
  "label_or v fallback =
     (case v of Some j \<Rightarrow> if truthy j then js_string j else fallback | None \<Rightarrow> fallback)"

definition activity_lane :: "f64 \<Rightarrow> HistoryEvent \<Rightarrow> TimelineLane" where
  "activity_lane final e =
     \<lparr> n_label = label_or (data_field e ''name'') (lit ''Activity '' @ js_string_opt (command_of e)),
       n_kind = lit ''activity'', n_commandId = command_of e,
       n_start = h_created_at e, n_end = final, n_markers = [] \<rparr>"

definition signal_lane :: "HistoryEvent \<Rightarrow> TimelineLane" where
  "signal_lane e =
     \<lparr> n_label = label_or (data_field e ''name'') (lit ''Signal''), n_kind = lit ''signal'',
       n_commandId = None, n_start = h_created_at e, n_end = h_created_at e,
       n_markers = [(h_created_at e, lit ''signal'')] \<rparr>"

definition lane_of_command :: "HistoryEvent \<Rightarrow> TimelineLane \<Rightarrow> bool" where
  "lane_of_command e l \<longleftrightarrow> n_kind l = lit ''activity'' \<and> strict_eq (n_commandId l) (command_of e)"

definition add_marker :: "f64 \<Rightarrow> jsstr \<Rightarrow> TimelineLane \<Rightarrow> TimelineLane" where
  "add_marker t kind l = l\<lparr> n_markers := n_markers l @ [(t, kind)] \<rparr>"

definition end_lane :: "HistoryEvent \<Rightarrow> TimelineLane \<Rightarrow> TimelineLane" where
  "end_lane e l =
     add_marker (h_created_at e) (if has_kind ''ACTIVITY_FAILED'' e then lit ''failed'' else lit ''completed'')
       (l\<lparr> n_end := h_created_at e \<rparr>)"

text \<open>The body of the loop, statement by statement.\<close>

definition lane_step :: "f64 \<Rightarrow> TimelineLane list \<Rightarrow> HistoryEvent \<Rightarrow> TimelineLane list" where
  "lane_step final lanes e =
     (let lanes = (if has_kind ''ACTIVITY_SCHEDULED'' e then lanes @ [activity_lane final e] else lanes);
          lanes = (if has_kind ''ACTIVITY_RETRY_SCHEDULED'' e
                   then update_first (lane_of_command e) (add_marker (h_created_at e) (lit ''retry'')) lanes
                   else lanes);
          lanes = (if has_kind ''ACTIVITY_COMPLETED'' e \<or> has_kind ''ACTIVITY_FAILED'' e
                   then update_first (lane_of_command e) (end_lane e) lanes else lanes)
      in if has_kind ''SIGNAL_RECEIVED'' e then lanes @ [signal_lane e] else lanes)"

definition first_time :: "WorkflowDetail \<Rightarrow> f64" where
  "first_time d = (case first_of (wd_history d) of
     None \<Rightarrow> w_created_at (wd_workflow d) | Some e \<Rightarrow> h_created_at e)"

definition last_time :: "WorkflowDetail \<Rightarrow> f64" where
  "last_time d = (case last_of (wd_history d) of
     None \<Rightarrow> w_updated_at (wd_workflow d) | Some e \<Rightarrow> h_created_at e)"

definition workflow_lane :: "WorkflowDetail \<Rightarrow> TimelineLane" where
  "workflow_lane d =
     \<lparr> n_label = w_workflow_type (wd_workflow d), n_kind = lit ''workflow'', n_commandId = None,
       n_start = first_time d, n_end = last_time d, n_markers = [] \<rparr>"

definition timelineLanes :: "WorkflowDetail \<Rightarrow> TimelineLane list" where
  "timelineLanes d = foldl (lane_step (last_time d)) [workflow_lane d] (wd_history d)"

section \<open>What the lanes are\<close>

definition absorb :: "TimelineLane \<Rightarrow> HistoryEvent \<Rightarrow> TimelineLane" where
  "absorb l e =
     (if \<not> lane_of_command e l then l
      else if has_kind ''ACTIVITY_RETRY_SCHEDULED'' e then add_marker (h_created_at e) (lit ''retry'') l
      else if has_kind ''ACTIVITY_COMPLETED'' e \<or> has_kind ''ACTIVITY_FAILED'' e then end_lane e l
      else l)"

fun lanes_spec :: "f64 \<Rightarrow> HistoryEvent list \<Rightarrow> TimelineLane list" where
  "lanes_spec final [] = []"
| "lanes_spec final (e # es) =
     (if has_kind ''ACTIVITY_SCHEDULED'' e then [foldl absorb (activity_lane final e) es]
      else if has_kind ''SIGNAL_RECEIVED'' e then [signal_lane e] else []) @ lanes_spec final es"

text \<open>Every command is scheduled once.\<close>

definition scheduled_once :: "HistoryEvent list \<Rightarrow> bool" where
  "scheduled_once es \<longleftrightarrow>
     sorted_wrt (\<lambda>a b. \<not> strict_eq (command_of a) (command_of b)) (filter (has_kind ''ACTIVITY_SCHEDULED'') es)"

lemma strict_eq_sym: "strict_eq a b \<longleftrightarrow> strict_eq b a"
  by (cases "(a, b)" rule: strict_eq.cases) (auto simp: feq_def)

lemma strict_eq_trans: "strict_eq a b \<Longrightarrow> strict_eq b c \<Longrightarrow> strict_eq a c"
  by (cases "(a, b)" rule: strict_eq.cases; cases "(b, c)" rule: strict_eq.cases)
     (auto simp: feq_def)

lemma has_kind_excl: "has_kind k e \<Longrightarrow> has_kind k' e \<longleftrightarrow> k = k'"
  by (auto simp: has_kind_def)

lemma lane_of_command_frame [simp]:
  "lane_of_command e (add_marker t k l) = lane_of_command e l"
  "lane_of_command e (end_lane e' l) = lane_of_command e l"
  "lane_of_command e (absorb l e') = lane_of_command e l"
  "\<not> lane_of_command e (signal_lane e')" "\<not> lane_of_command e (workflow_lane d)"
  by (auto simp: lane_of_command_def add_marker_def end_lane_def absorb_def signal_lane_def
      workflow_lane_def)

lemma lane_of_activity [simp]:
  "lane_of_command e (activity_lane final s) \<longleftrightarrow> strict_eq (command_of s) (command_of e)"
  by (simp add: lane_of_command_def activity_lane_def)

text \<open>At most one lane answers to the command of an event.\<close>

definition lanes_unique :: "TimelineLane list \<Rightarrow> bool" where
  "lanes_unique ls \<longleftrightarrow> sorted_wrt (\<lambda>a b. \<forall>e. \<not> (lane_of_command e a \<and> lane_of_command e b)) ls"

lemma update_first_unique:
  "lanes_unique ls \<Longrightarrow> update_first (lane_of_command e) f ls = map (\<lambda>l. if lane_of_command e l then f l else l) ls"
proof (induction ls)
  case (Cons l ls)
  then have "lane_of_command e l \<Longrightarrow> map (\<lambda>l. if lane_of_command e l then f l else l) ls = ls"
    by (auto simp: lanes_unique_def intro!: map_idI)
  with Cons show ?case by (auto simp: lanes_unique_def)
qed simp

lemma absorb_other:
  "\<not> has_kind ''ACTIVITY_RETRY_SCHEDULED'' e \<Longrightarrow> \<not> has_kind ''ACTIVITY_COMPLETED'' e
   \<Longrightarrow> \<not> has_kind ''ACTIVITY_FAILED'' e \<Longrightarrow> absorb l e = l"
  by (simp add: absorb_def)

lemma absorb_retry:
  "has_kind ''ACTIVITY_RETRY_SCHEDULED'' e \<Longrightarrow>
   absorb l e = (if lane_of_command e l then add_marker (h_created_at e) (lit ''retry'') l else l)"
  by (simp add: absorb_def)

lemma absorb_end:
  "has_kind ''ACTIVITY_COMPLETED'' e \<or> has_kind ''ACTIVITY_FAILED'' e \<Longrightarrow>
   absorb l e = (if lane_of_command e l then end_lane e l else l)"
  by (auto simp: absorb_def has_kind_excl)

lemma lane_step_map:
  assumes "lanes_unique ls"
  shows "lane_step final ls e = map (\<lambda>l. absorb l e) ls @
    (if has_kind ''ACTIVITY_SCHEDULED'' e then [activity_lane final e]
     else if has_kind ''SIGNAL_RECEIVED'' e then [signal_lane e] else [])"
proof -
  consider "has_kind ''ACTIVITY_SCHEDULED'' e" | "has_kind ''ACTIVITY_RETRY_SCHEDULED'' e"
    | "has_kind ''ACTIVITY_COMPLETED'' e" | "has_kind ''ACTIVITY_FAILED'' e"
    | "has_kind ''SIGNAL_RECEIVED'' e"
    | "\<not> has_kind ''ACTIVITY_SCHEDULED'' e" "\<not> has_kind ''ACTIVITY_RETRY_SCHEDULED'' e"
      "\<not> has_kind ''ACTIVITY_COMPLETED'' e" "\<not> has_kind ''ACTIVITY_FAILED'' e"
      "\<not> has_kind ''SIGNAL_RECEIVED'' e" by blast
  then show ?thesis
    by cases (simp_all add: lane_step_def has_kind_excl update_first_unique [OF assms]
        absorb_other absorb_retry absorb_end)
qed

lemma lanes_unique_map: "lanes_unique (map (\<lambda>l. absorb l e) ls) = lanes_unique ls"
  by (simp add: lanes_unique_def sorted_wrt_map)

text \<open>New lanes of the rest of the history do not answer to the commands of the lanes there are.\<close>

definition fresh :: "TimelineLane list \<Rightarrow> HistoryEvent list \<Rightarrow> bool" where
  "fresh ls es \<longleftrightarrow> (\<forall>l \<in> set ls. \<forall>e \<in> set es. has_kind ''ACTIVITY_SCHEDULED'' e \<longrightarrow> \<not> lane_of_command e l)"

lemma foldl_lane_step:
  assumes "lanes_unique ls" "fresh ls es" "scheduled_once es"
  shows "foldl (lane_step final) ls es = map (\<lambda>l. foldl absorb l es) ls @ lanes_spec final es"
  using assms
proof (induction es arbitrary: ls)
  case Nil
  then show ?case by simp
next
  case (Cons e es)
  let ?new = "if has_kind ''ACTIVITY_SCHEDULED'' e then [activity_lane final e]
     else if has_kind ''SIGNAL_RECEIVED'' e then [signal_lane e] else []"
  let ?ls = "map (\<lambda>l. absorb l e) ls @ ?new"
  have step: "lane_step final ls e = ?ls" by (rule lane_step_map [OF Cons.prems(1)])
  have clash: "\<not> (lane_of_command e' l \<and> strict_eq (command_of e) (command_of e'))"
    if "has_kind ''ACTIVITY_SCHEDULED'' e" "l \<in> set ls" for l e'
  proof
    assume both: "lane_of_command e' l \<and> strict_eq (command_of e) (command_of e')"
    then have "lane_of_command e l"
      unfolding lane_of_command_def using strict_eq_sym strict_eq_trans by blast
    moreover have "\<not> lane_of_command e l" using Cons.prems(2) that by (simp add: fresh_def)
    ultimately show False by simp
  qed
  have "lanes_unique (map (\<lambda>l. absorb l e) ls)" using Cons.prems(1) by (simp add: lanes_unique_map)
  then have "lanes_unique ?ls"
    using clash by (auto simp: lanes_unique_def sorted_wrt_append)
  moreover have "fresh ?ls es"
    using Cons.prems(2,3) by (auto simp: fresh_def scheduled_once_def)
  moreover have "scheduled_once es" using Cons.prems(3) by (simp add: scheduled_once_def split: if_splits)
  ultimately have "foldl (lane_step final) ?ls es = map (\<lambda>l. foldl absorb l es) ?ls @ lanes_spec final es"
    by (rule Cons.IH)
  moreover have "foldl absorb (signal_lane e) es = signal_lane e"
    by (induction es) (simp_all add: absorb_def)
  ultimately show ?case by (simp add: step o_def)
qed

lemma foldl_absorb_workflow: "foldl absorb (workflow_lane d) es = workflow_lane d"
  by (induction es) (simp_all add: absorb_def)

text \<open>
  C3. The loop computes what the timeline is meant to show: the lane of the workflow, then one lane
  for each scheduled activity and each received signal in the order of the history, where the lane of
  an activity takes up, in order, exactly the later retries, completions and failures of its own
  command, whatever commands the other events interleave. (Provided a command is scheduled once: a
  second scheduling of the same command gets a lane that no event reaches.)
\<close>

theorem timeline_refines:
  assumes "scheduled_once (wd_history d)"
  shows "timelineLanes d = workflow_lane d # lanes_spec (last_time d) (wd_history d)"
proof -
  have "fresh [workflow_lane d] (wd_history d)" by (simp add: fresh_def)
  moreover have "lanes_unique [workflow_lane d]" by (simp add: lanes_unique_def)
  ultimately show ?thesis using assms unfolding timelineLanes_def
    by (subst foldl_lane_step) (simp_all add: foldl_absorb_workflow)
qed

section \<open>Times\<close>

definition lane_within :: "f64 \<Rightarrow> f64 \<Rightarrow> f64 \<Rightarrow> TimelineLane \<Rightarrow> bool" where
  "lane_within lo hi now l \<longleftrightarrow> fle lo (n_start l) \<and> fle (n_start l) now \<and> fle (n_start l) (n_end l)
     \<and> fle (n_end l) hi \<and> (\<forall>m \<in> set (n_markers l). fle (n_start l) (fst m) \<and> fle (fst m) hi)"

lemma lane_within_later: "lane_within lo hi now l \<Longrightarrow> fle now later \<Longrightarrow> lane_within lo hi later l"
  by (auto simp: lane_within_def intro: fle_trans)

lemma lane_within_marker:
  "lane_within lo hi t l \<Longrightarrow> fle t hi \<Longrightarrow> lane_within lo hi t (add_marker t k l)"
  by (auto simp: lane_within_def add_marker_def)

lemma lane_within_end:
  "lane_within lo hi (h_created_at e) l \<Longrightarrow> fle (h_created_at e) hi
   \<Longrightarrow> lane_within lo hi (h_created_at e) (end_lane e l)"
  by (auto simp: lane_within_def end_lane_def add_marker_def)

lemma lane_step_within:
  assumes "\<forall>l \<in> set ls. lane_within lo hi now l"
    and "fle now (h_created_at e)" "fle lo (h_created_at e)" "fle (h_created_at e) hi"
  shows "\<forall>l \<in> set (lane_step hi ls e). lane_within lo hi (h_created_at e) l"
proof -
  let ?t = "h_created_at e"
  have t: "?t \<noteq> NaN" "hi \<noteq> NaN" using fle_not_NaN [OF assms(4)] by auto
  have old: "\<forall>l \<in> set ls. lane_within lo hi ?t l" using assms(1,2) lane_within_later by blast
  have new: "lane_within lo hi ?t (activity_lane hi e)" "lane_within lo hi ?t (signal_lane e)"
    using assms(3,4) t by (simp_all add: lane_within_def activity_lane_def signal_lane_def)
  define l1 where "l1 = (if has_kind ''ACTIVITY_SCHEDULED'' e then ls @ [activity_lane hi e] else ls)"
  have "\<forall>l \<in> set l1. lane_within lo hi ?t l" using old new by (simp add: l1_def)
  then have upd: "\<forall>l \<in> set (update_first p f l1). lane_within lo hi ?t l"
    if "\<And>l. lane_within lo hi ?t l \<Longrightarrow> lane_within lo hi ?t (f l)" for p f
    using that by (intro update_first_all) auto
  define l2 where "l2 = (if has_kind ''ACTIVITY_RETRY_SCHEDULED'' e
     then update_first (lane_of_command e) (add_marker ?t (lit ''retry'')) l1 else l1)"
  have l2: "\<forall>l \<in> set l2. lane_within lo hi ?t l"
    using upd [OF lane_within_marker [OF _ assms(4)]] \<open>\<forall>l \<in> set l1. lane_within lo hi ?t l\<close>
    by (simp add: l2_def)
  then have "\<forall>l \<in> set (update_first (lane_of_command e) (end_lane e) l2). lane_within lo hi ?t l"
    using assms(4) by (intro update_first_all) (auto intro: lane_within_end)
  with l2 new show ?thesis by (auto simp: lane_step_def Let_def simp flip: l1_def l2_def)
qed

lemma foldl_lane_within:
  assumes "\<forall>l \<in> set ls. lane_within lo hi now l"
    and "sorted_wrt fle (now # map h_created_at es)"
    and "\<forall>e \<in> set es. fle lo (h_created_at e) \<and> fle (h_created_at e) hi"
    and "fle now hi"
  shows "\<forall>l \<in> set (foldl (lane_step hi) ls es). lane_within lo hi hi l"
  using assms
proof (induction es arbitrary: ls now)
  case Nil
  then show ?case by (auto intro: lane_within_later)
next
  case (Cons e es)
  then have step: "\<forall>l \<in> set (lane_step hi ls e). lane_within lo hi (h_created_at e) l"
    by (intro lane_step_within) auto
  have "\<forall>l \<in> set (foldl (lane_step hi) (lane_step hi ls e) es). lane_within lo hi hi l"
    by (rule Cons.IH [OF step]) (use Cons.prems in auto)
  then show ?case by simp
qed

text \<open>A history in the order of its times, which are numbers; an empty one of a run that was not
  updated before it was created.\<close>

definition chronological :: "WorkflowDetail \<Rightarrow> bool" where
  "chronological d \<longleftrightarrow> sorted_wrt fle (map h_created_at (wd_history d))
     \<and> fle (first_time d) (last_time d)"

lemma chronological_bounds:
  assumes "chronological d" and "e \<in> set (wd_history d)"
  shows "fle (first_time d) (h_created_at e)" and "fle (h_created_at e) (last_time d)"
proof -
  let ?ts = "map h_created_at (wd_history d)"
  have ne: "wd_history d \<noteq> []" using assms(2) by auto
  then have ends: "first_time d = hd ?ts" "last_time d = last ?ts"
    by (auto simp: first_time_def last_time_def first_of_def last_of_def hd_map last_map split: list.splits)
  have nan: "hd ?ts \<noteq> NaN" "last ?ts \<noteq> NaN"
    using assms(1) fle_not_NaN unfolding chronological_def ends by blast+
  obtain i where i: "i < length ?ts" "h_created_at e = ?ts ! i"
    using assms(2) by (auto simp: in_set_conv_nth)
  have le: "fle (?ts ! a) (?ts ! b)" if "a < b" "b < length ?ts" for a b
    using assms(1) that unfolding chronological_def by (simp only: sorted_wrt_iff_nth_less)
  have hd: "hd ?ts = ?ts ! 0" and last: "last ?ts = ?ts ! (length ?ts - 1)"
    using ne by (simp_all add: hd_conv_nth last_conv_nth)
  show "fle (first_time d) (h_created_at e)"
    using le [of 0 i] i nan unfolding ends hd by (cases "i = 0") auto
  show "fle (h_created_at e) (last_time d)"
    using le [of i "length ?ts - 1"] i nan unfolding ends last
    by (cases "i = length ?ts - 1") auto
qed

lemma timeline_within:
  assumes "chronological d" and "l \<in> set (timelineLanes d)"
  shows "lane_within (first_time d) (last_time d) (last_time d) l"
proof -
  let ?lo = "first_time d" and ?hi = "last_time d"
  have le: "fle ?lo ?hi" using assms(1) by (simp add: chronological_def)
  then have nan: "?lo \<noteq> NaN" using fle_not_NaN by blast
  have "\<forall>l \<in> set [workflow_lane d]. lane_within ?lo ?hi ?lo l"
    using le nan fle_not_NaN [OF le] by (simp add: lane_within_def workflow_lane_def)
  moreover have "sorted_wrt fle (?lo # map h_created_at (wd_history d))"
    using assms(1) chronological_bounds(1) [OF assms(1)] by (auto simp: chronological_def)
  moreover have "\<forall>e \<in> set (wd_history d). fle ?lo (h_created_at e) \<and> fle (h_created_at e) ?hi"
    using chronological_bounds [OF assms(1)] by blast
  ultimately show ?thesis using foldl_lane_within le assms(2) unfolding timelineLanes_def by blast
qed

section \<open>The drawing\<close>

record Circle =
  ci_cx :: f64
  ci_r :: int
  ci_fill :: string

record LaneRow =
  lr_y :: int
  lr_label :: jsstr
  lr_x :: f64
  lr_bar_y :: int
  lr_width :: f64
  lr_bar_height :: int
  lr_fill :: string
  lr_circles :: "Circle list"

record Svg =
  sv_width :: int
  sv_height :: int
  sv_ticks :: "(f64 \<times> jsstr) list"
  sv_rows :: "LaneRow list"

text \<open>\<open>Math.min(...)\<close> and \<open>Math.max(...)\<close> of a list of arguments; the spacing \<open>.001\<close> below which a
  span is not drawn to scale.\<close>

definition svg_minimum :: "TimelineLane list \<Rightarrow> f64" where
  "svg_minimum lanes = foldl js_min PInf (map n_start lanes)"

definition svg_maximum :: "TimelineLane list \<Rightarrow> f64" where
  "svg_maximum lanes = foldl js_max NInf (map n_end lanes)"

definition svg_span :: "TimelineLane list \<Rightarrow> f64" where
  "svg_span lanes = js_max (mk64 (1 / 1000)) (fsub (svg_maximum lanes) (svg_minimum lanes))"

definition svg_x :: "f64 \<Rightarrow> f64 \<Rightarrow> f64" where
  "svg_x extent v = fadd (num 190) (fmul (fdiv v extent) (num (1100 - 190 - 24)))"

definition lane_label :: "jsstr \<Rightarrow> jsstr" where
  "lane_label s = (if 24 < length s then take 24 s @ [0x2026] else s)"

definition marker_circle :: "f64 \<Rightarrow> f64 \<Rightarrow> f64 \<times> jsstr \<Rightarrow> Circle" where
  "marker_circle extent minimum = (\<lambda>(time, kind).
     \<lparr> ci_cx = svg_x extent (fsub time minimum),
       ci_r = (if kind = lit ''retry'' then 7 else 6),
       ci_fill = (if kind = lit ''retry'' then ''#d49331'' else if kind = lit ''failed'' then ''#d85850''
                  else ''#6de39a'') \<rparr>)"

definition lane_row :: "f64 \<Rightarrow> f64 \<Rightarrow> nat \<Rightarrow> TimelineLane \<Rightarrow> LaneRow" where
  "lane_row extent minimum index lane =
     (let y = int index * 58 + 18; start = svg_x extent (fsub (n_start lane) minimum);
          stop = svg_x extent (fsub (n_end lane) minimum); whole = n_kind lane = lit ''workflow''
      in \<lparr> lr_y = y, lr_label = lane_label (n_label lane), lr_x = start,
           lr_bar_y = y - (if whole then 5 else 4), lr_width = js_max (num 3) (fsub stop start),
           lr_bar_height = (if whole then 10 else 8),
           lr_fill = (if whole then ''#4e7cf0'' else ''#3fab6b''),
           lr_circles = map (marker_circle extent minimum) (n_markers lane) \<rparr>)"

definition TimelineSvg :: "TimelineLane list \<Rightarrow> Svg" where
  "TimelineSvg lanes =
     (let minimum = svg_minimum lanes; extent = svg_span lanes;
          ticks = map (\<lambda>index. fdiv (fmul extent (num (int index))) (num 6)) [0..<7]
      in \<lparr> sv_width = 1100, sv_height = 32 + int (length lanes) * 58 + 42,
           sv_ticks = map (\<lambda>tick. (svg_x extent tick, duration tick)) ticks,
           sv_rows = map (\<lambda>(index, lane). lane_row extent minimum index lane)
                         (zip [0..<length lanes] lanes) \<rparr>)"

definition ExecutionTimeline :: "WorkflowDetail \<Rightarrow> Svg" where
  "ExecutionTimeline detail = TimelineSvg (timelineLanes detail)"

section \<open>Everything is drawn inside the chart\<close>

lemma foldl_js_min:
  "fle m a \<Longrightarrow> \<forall>x \<in> set xs. fle m x \<Longrightarrow> a = m \<or> m \<in> set xs \<Longrightarrow> foldl js_min a xs = m"
proof (induction xs arbitrary: a)
  case (Cons x xs)
  have "fle m (js_min a x)" using Cons.prems fle_not_NaN by (auto simp: js_min_def)
  moreover have "js_min a x = m \<or> m \<in> set xs"
    using Cons.prems fle_antisym fle_not_NaN by (fastforce simp: js_min_def)
  ultimately show ?case using Cons by simp
qed simp

lemma foldl_js_max:
  "fle a m \<Longrightarrow> \<forall>x \<in> set xs. fle x m \<Longrightarrow> a = m \<or> m \<in> set xs \<Longrightarrow> foldl js_max a xs = m"
proof (induction xs arbitrary: a)
  case (Cons x xs)
  have "fle (js_max a x) m" using Cons.prems fle_not_NaN by (auto simp: js_max_def)
  moreover have "js_max a x = m \<or> m \<in> set xs"
    using Cons.prems fle_antisym fle_not_NaN fle_total by (fastforce simp: js_max_def)
  ultimately show ?case using Cons by simp
qed simp

lemma svg_x_bounds:
  assumes "0 < s" "0 \<le> p" "p \<le> s"
  obtains c where "svg_x (Fin s) (Fin p) = Fin c" "190 \<le> c" "c \<le> 1076"
proof -
  obtain f where f: "mk64 (p / s) = Fin f" "0 \<le> f" "f \<le> 1"
    using assms by (auto intro: mk64_between [of 0 1 "p / s"] simp: divide_le_eq_1)
  obtain w where w: "mk64 (f * 886) = Fin w" "0 \<le> w" "w \<le> 886"
    using f by (auto intro: mk64_between [of 0 886 "f * 886"])
  obtain c where "mk64 (190 + w) = Fin c" "190 \<le> c" "c \<le> 1076"
    using w by (auto intro: mk64_between [of 190 1076 "190 + w"])
  with f(1) w(1) assms(1) show thesis by (intro that [of c]) (simp_all add: svg_x_def num_def)
qed

lemma svg_x_mono:
  assumes "0 < s" "0 \<le> p" "p \<le> q" "q \<le> s"
  shows "fle (svg_x (Fin s) (Fin p)) (svg_x (Fin s) (Fin q))"
proof -
  have between: "\<exists>f. mk64 (r / s) = Fin f \<and> 0 \<le> f \<and> f \<le> 1" if "0 \<le> r" "r \<le> s" for r
    using assms(1) that by (auto intro: mk64_between [of 0 1 "r / s"] simp: divide_le_eq_1)
  obtain f g where f: "mk64 (p / s) = Fin f" "0 \<le> f" "f \<le> 1" and g: "mk64 (q / s) = Fin g" "0 \<le> g" "g \<le> 1"
    using between [of p] between [of q] assms by auto
  have "f \<le> g" using mk64_mono [of "p / s" "q / s"] assms by (simp add: f(1) g(1) divide_right_mono)
  obtain v where v: "mk64 (f * 886) = Fin v" using f by (auto intro: mk64_between [of 0 886 "f * 886"])
  obtain w where w: "mk64 (g * 886) = Fin w" using g by (auto intro: mk64_between [of 0 886 "g * 886"])
  have "v \<le> w" using mk64_mono [of "f * 886" "g * 886"] \<open>f \<le> g\<close> by (simp add: v w)
  then have "fle (mk64 (190 + v)) (mk64 (190 + w))" by (intro mk64_mono) simp
  then show ?thesis using assms(1) by (simp add: svg_x_def num_def f(1) g(1) v w)
qed

text \<open>The right edge of a bar between two places of the plot: the width is rounded, and the edge does not leave the plot.\<close>

lemma bar_edge:
  assumes "190 \<le> a" "a \<le> b" "b \<le> 1076"
  shows "fle (fadd (Fin a) (fsub (Fin b) (Fin a))) (num 1076)"
proof -
  have near: "round64 (b - a) \<le> b - a + pow2 (- 44)"
  proof (cases "b = a")
    case False
    with assms have q: "0 < b - a" "b - a < pow2 10" by (simp_all add: pow2_def)
    then have "ilog2 (b - a) < 10" by (simp add: ilog2_less_iff)
    then have "grid (b - a) \<le> - 43" by (simp add: grid_def)
    then have "pow2 (grid (b - a)) \<le> pow2 (- 43)" by simp
    moreover have "pow2 (- 43) / 2 = pow2 (- 44)" by (simp add: pow2_def)
    ultimately have "pow2 (grid (b - a)) / 2 \<le> pow2 (- 44)" by linarith
    then have "\<bar>rnd_pos (b - a) - (b - a)\<bar> \<le> pow2 (- 44)" using rnd_pos_near [of "b - a"] by (rule order_trans [rotated])
    then show ?thesis by (simp add: round64_pos [OF q(1)])
  qed (simp add: r64.zero)
  have "fsub (Fin b) (Fin a) = Fin (round64 (b - a))" using assms by (simp add: fsub_def mk64_pow54)
  moreover have "fle (mk64 (a + round64 (b - a))) (mk64 (1076 + pow2 (- 44)))" using near assms by (intro mk64_mono) linarith
  moreover have "mk64 (1076 + pow2 (- 44)) = num 1076"
    using mk64_nearest [of "- 42" "1076 + pow2 (- 44)" "1076 * 2 ^ 42"] by (simp add: pow2_def nearest_def num_def)
  ultimately show ?thesis by simp
qed

definition small_times :: "WorkflowDetail \<Rightarrow> bool" where
  "small_times d \<longleftrightarrow> small64 (first_time d) \<and> small64 (last_time d)"

lemma workflow_lane_kept:
  assumes "workflow_lane d \<in> set ls"
  shows "workflow_lane d \<in> set (lane_step final ls e)"
proof -
  have upd: "workflow_lane d \<in> set (update_first (lane_of_command e) f ms)"
    if "workflow_lane d \<in> set ms" for f ms
    using that by (induction ms) auto
  show ?thesis
    by (cases "has_kind ''ACTIVITY_SCHEDULED'' e"; cases "has_kind ''ACTIVITY_RETRY_SCHEDULED'' e";
        cases "has_kind ''ACTIVITY_COMPLETED'' e \<or> has_kind ''ACTIVITY_FAILED'' e")
       (simp_all add: lane_step_def Let_def upd assms)
qed

lemma workflow_lane_mem: "workflow_lane d \<in> set (timelineLanes d)"
proof -
  have "workflow_lane d \<in> set (foldl (lane_step final) ls es)" if "workflow_lane d \<in> set ls" for final ls es
    using that by (induction es arbitrary: ls) (simp_all add: workflow_lane_kept)
  then show ?thesis by (simp add: timelineLanes_def)
qed

lemma svg_minimum_timeline: "chronological d \<Longrightarrow> svg_minimum (timelineLanes d) = first_time d"
proof -
  assume c: "chronological d"
  have "n_start (workflow_lane d) = first_time d" by (simp add: workflow_lane_def)
  then have "first_time d \<in> set (map n_start (timelineLanes d))" using workflow_lane_mem [of d] by force
  moreover have "first_time d \<noteq> NaN" using c fle_not_NaN by (auto simp: chronological_def)
  then have "fle (first_time d) PInf" by (cases "first_time d") auto
  moreover have "\<forall>x \<in> set (map n_start (timelineLanes d)). fle (first_time d) x"
    using timeline_within [OF c] by (auto simp: lane_within_def)
  ultimately show ?thesis unfolding svg_minimum_def by (intro foldl_js_min) auto
qed

lemma svg_maximum_timeline: "chronological d \<Longrightarrow> svg_maximum (timelineLanes d) = last_time d"
proof -
  assume c: "chronological d"
  have "n_end (workflow_lane d) = last_time d" by (simp add: workflow_lane_def)
  then have "last_time d \<in> set (map n_end (timelineLanes d))" using workflow_lane_mem [of d] by force
  moreover have "last_time d \<noteq> NaN" using c fle_not_NaN by (auto simp: chronological_def)
  then have "fle NInf (last_time d)" by (cases "last_time d") auto
  moreover have "\<forall>x \<in> set (map n_end (timelineLanes d)). fle x (last_time d)"
    using timeline_within [OF c] by (auto simp: lane_within_def)
  ultimately show ?thesis unfolding svg_maximum_def by (intro foldl_js_max) auto
qed

text \<open>The span the chart is scaled to is positive and at least the distance of any time from the first.\<close>

lemma svg_span_timeline:
  assumes "chronological d" "small_times d"
  obtains s where "svg_span (timelineLanes d) = Fin s" "0 < s"
    "\<And>t. fle (first_time d) t \<Longrightarrow> fle t (last_time d)
       \<Longrightarrow> \<exists>p. fsub t (first_time d) = Fin p \<and> 0 \<le> p \<and> p \<le> s"
proof -
  obtain a b where ab: "first_time d = Fin a" "\<bar>a\<bar> \<le> 2 ^ 53" "last_time d = Fin b" "\<bar>b\<bar> \<le> 2 ^ 53"
    using assms(2) unfolding small_times_def by (metis small64_cases)
  have "round64 (pow2 (- 10)) = pow2 (- 10)" using rnd_pos_exact [of 1 "- 10"] by (simp add: round64_pos)
  then have "pow2 (- 10) \<le> round64 (1 / 1000)" by (rule r64.ge_exact) (simp add: pow2_def)
  moreover have "0 < pow2 (- 10)" by simp
  ultimately have mil: "mk64 (1 / 1000) = Fin (round64 (1 / 1000))" "0 < round64 (1 / 1000)"
    by (simp add: mk64_pow54, linarith)
  define s where "s = max (round64 (1 / 1000)) (round64 (b - a))"
  have diff: "fsub (Fin t) (Fin a) = Fin (round64 (t - a))" if "a \<le> t" "t \<le> b" for t
  proof -
    have "\<bar>t - a\<bar> \<le> \<bar>a\<bar> + \<bar>b\<bar>" using that by linarith
    also have "\<dots> \<le> 2 ^ 53 + 2 ^ 53" using ab by (intro add_mono)
    finally show ?thesis by (simp add: fsub_def mk64_pow54)
  qed
  have le: "a \<le> b" using assms(1) ab by (simp add: chronological_def)
  have "svg_span (timelineLanes d) = js_max (Fin (round64 (1 / 1000))) (Fin (round64 (b - a)))"
    using le by (simp add: svg_span_def svg_minimum_timeline svg_maximum_timeline assms(1) ab mil(1) diff)
  then have "svg_span (timelineLanes d) = Fin s" by (auto simp: js_max_def s_def)
  moreover have "0 < s" using mil(2) by (simp add: s_def)
  moreover have "\<exists>p. fsub t (first_time d) = Fin p \<and> 0 \<le> p \<and> p \<le> s"
    if t: "fle (first_time d) t" "fle t (last_time d)" for t
  proof -
    obtain c where c: "t = Fin c" "a \<le> c" "c \<le> b" using t ab by (cases t) auto
    have "0 \<le> round64 (c - a)" using c by (intro r64.nonneg) simp
    moreover have "round64 (c - a) \<le> s" using c by (auto simp: s_def le_max_iff_disj intro: r64.mono)
    ultimately show ?thesis using diff [OF c(2,3)] c(1) ab(1) by auto
  qed
  ultimately show thesis by (rule that)
qed

definition in_plot :: "f64 \<Rightarrow> bool" where
  "in_plot x \<longleftrightarrow> fle (num 190) x \<and> fle x (num 1076)"

definition row_in_plot :: "LaneRow \<Rightarrow> bool" where
  "row_in_plot r \<longleftrightarrow> in_plot (lr_x r) \<and> fle (num 3) (lr_width r)
     \<and> (lr_width r = num 3 \<or> fle (fadd (lr_x r) (lr_width r)) (num 1076)) \<and> length (lr_label r) \<le> 25
     \<and> (\<forall>c \<in> set (lr_circles r). in_plot (ci_cx c) \<and> fle (lr_x r) (ci_cx c))"

lemma in_plot_time:
  assumes "chronological d" "small_times d" "fle (first_time d) t" "fle t (last_time d)"
  shows "in_plot (svg_x (svg_span (timelineLanes d)) (fsub t (svg_minimum (timelineLanes d))))"
proof -
  obtain s p where s: "svg_span (timelineLanes d) = Fin s" "0 < s"
    and p: "fsub t (first_time d) = Fin p" "0 \<le> p" "p \<le> s"
    using svg_span_timeline [OF assms(1,2)] assms(3,4) by metis
  obtain c where "svg_x (Fin s) (Fin p) = Fin c" "190 \<le> c" "c \<le> 1076"
    using svg_x_bounds [OF s(2) p(2,3)] .
  then show ?thesis by (simp add: in_plot_def s(1) p(1) svg_minimum_timeline assms(1))
qed

lemma times_in_order:
  assumes "chronological d" "small_times d" "fle (first_time d) t" "fle t u" "fle u (last_time d)"
  shows "fle (svg_x (svg_span (timelineLanes d)) (fsub t (svg_minimum (timelineLanes d))))
    (svg_x (svg_span (timelineLanes d)) (fsub u (svg_minimum (timelineLanes d))))"
proof -
  have le: "fle t (last_time d)" "fle (first_time d) u" using assms(3-5) fle_trans by blast+
  obtain s p q where s: "svg_span (timelineLanes d) = Fin s" "0 < s"
    and p: "fsub t (first_time d) = Fin p" "0 \<le> p" "p \<le> s" and q: "fsub u (first_time d) = Fin q" "0 \<le> q" "q \<le> s"
    using svg_span_timeline [OF assms(1,2)] assms(3,5) le by metis
  obtain a b c where "first_time d = Fin a" "t = Fin b" "u = Fin c"
    using assms(2-5) le unfolding small_times_def
    by (cases "first_time d"; cases "last_time d"; cases t; cases u) auto
  then have "p \<le> q" using p(1) q(1) assms(4) mk64_mono [of "b - a" "c - a"] by (simp add: fsub_def)
  then show ?thesis using svg_x_mono [OF s(2) p(2) _ q(3)] by (simp add: s(1) p(1) q(1) svg_minimum_timeline assms(1))
qed

lemma lane_row_in_plot:
  assumes "chronological d" "small_times d" "lane \<in> set (timelineLanes d)"
  shows "row_in_plot (lane_row (svg_span (timelineLanes d)) (svg_minimum (timelineLanes d)) i lane)"
proof -
  let ?x = "\<lambda>t. svg_x (svg_span (timelineLanes d)) (fsub t (svg_minimum (timelineLanes d)))"
  have w: "fle (first_time d) (n_start lane)" "fle (n_start lane) (last_time d)"
    "fle (n_start lane) (n_end lane)" "fle (n_end lane) (last_time d)"
    "\<And>m. m \<in> set (n_markers lane) \<Longrightarrow> fle (n_start lane) (fst m) \<and> fle (fst m) (last_time d)"
    using timeline_within [OF assms(1,3)] by (auto simp: lane_within_def)
  have x: "in_plot (?x t)" "fle (?x (n_start lane)) (?x t)" if "fle (n_start lane) t" "fle t (last_time d)" for t
    using in_plot_time [OF assms(1,2)] times_in_order [OF assms(1,2)] w(1) that by (blast intro: fle_trans)+
  have "in_plot (?x (n_start lane))" using in_plot_time [OF assms(1,2)] w(1,2) .
  then obtain a b where ab: "?x (n_start lane) = Fin a" "?x (n_end lane) = Fin b" "190 \<le> a" "a \<le> b" "b \<le> 1076"
    using x [OF w(3,4)] unfolding in_plot_def
    by (cases "?x (n_start lane)"; cases "?x (n_end lane)") (auto simp: num_def)
  have nan: "fsub (Fin b) (Fin a) \<noteq> NaN" by (simp add: fsub_def)
  then have wide: "fle (num 3) (js_max (num 3) (fsub (Fin b) (Fin a)))"
    using js_max_ge [of "num 3"] by (simp add: num_def)
  have edge: "js_max (num 3) (fsub (Fin b) (Fin a)) = num 3
      \<or> fle (fadd (Fin a) (js_max (num 3) (fsub (Fin b) (Fin a)))) (num 1076)"
    using bar_edge [OF ab(3-5)] nan by (simp add: js_max_def num_def)
  have "in_plot (Fin a)" using ab(3-5) by (simp add: in_plot_def)
  then show ?thesis using x w(5) wide edge unfolding row_in_plot_def
    by (auto simp: lane_row_def Let_def lane_label_def marker_circle_def ab(1,2) split: prod.splits)
qed

text \<open>
  C11. For every run whose history is in the order of its times (any interleaving of commands, any
  number of lanes, whatever the spacing of the times, down to no time at all), the drawing stays
  inside the plot, in the rounded arithmetic the browser does: one row per lane, every bar starts
  between the label column (190) and the right margin (1076), ends there too unless it is drawn with
  the least width of 3, every marker sits between the start of its bar and the margin, and no label is
  longer than its 24 units and the ellipsis.
\<close>

theorem timeline_in_plot:
  assumes "chronological d" "small_times d"
  shows "length (sv_rows (ExecutionTimeline d)) = length (timelineLanes d) \<and>
    list_all row_in_plot (sv_rows (ExecutionTimeline d))"
  by (auto simp: ExecutionTimeline_def TimelineSvg_def Let_def list_all_iff
      intro!: lane_row_in_plot assms dest: set_zip_rightD)

section \<open>Examples\<close>

text \<open>Two activities whose events interleave; the first one is retried once.\<close>

definition sample_event :: "string \<Rightarrow> int \<Rightarrow> int \<Rightarrow> HistoryEvent" where
  "sample_event kind command time =
     \<lparr> h_event_id = None, h_type = lit kind, h_event_type = None, h_created_at = num time,
       h_data = [(lit ''command_id'', JNum (num command))] \<rparr>"

definition sample_run :: WorkflowDetail where
  "sample_run =
     \<lparr> wd_workflow = \<lparr> w_workflow_id = lit ''w-1'', w_workflow_type = lit ''enrich'',
         w_status = lit ''COMPLETED'', w_retries = num 1, w_history_events = num 5,
         w_duration_seconds = num 9, w_created_at = num 100, w_updated_at = num 109,
         w_task_queue = lit ''default'', w_build_id = None, w_result = None, w_error = None \<rparr>,
       wd_history = [sample_event ''ACTIVITY_SCHEDULED'' 1 100, sample_event ''ACTIVITY_SCHEDULED'' 2 101,
         sample_event ''ACTIVITY_RETRY_SCHEDULED'' 1 103, sample_event ''ACTIVITY_COMPLETED'' 2 105,
         sample_event ''ACTIVITY_FAILED'' 1 109],
       wd_trace = None \<rparr>"

lemma sample_run_facts:
  "scheduled_once (wd_history sample_run)" "chronological sample_run" "small_times sample_run"
  by (simp_all add: sample_run_def sample_event_def scheduled_once_def chronological_def small_times_def
      first_time_def last_time_def has_kind_def event_kind_def command_of_def data_field_def num_def
      feq_def last_of_def)

lemma timeline_refines_witness:
  "map n_end (timelineLanes sample_run) = [num 109, num 109, num 105] \<and>
   map (map snd \<circ> n_markers) (timelineLanes sample_run)
     = [[], [lit ''retry'', lit ''failed''], [lit ''completed'']]"
  by (simp add: timeline_refines [OF sample_run_facts(1)]; simp add: sample_run_def sample_event_def
      workflow_lane_def last_time_def last_of_def has_kind_def event_kind_def activity_lane_def absorb_def
      end_lane_def add_marker_def lane_of_command_def command_of_def data_field_def feq_def num_def)

lemma timeline_in_plot_witness:
  "length (sv_rows (ExecutionTimeline sample_run)) = length (timelineLanes sample_run) \<and>
   list_all row_in_plot (sv_rows (ExecutionTimeline sample_run))"
  by (rule timeline_in_plot [OF sample_run_facts(2,3)])

end
