(* ===== verification/ConsoleViews.thy ===== *)
theory ConsoleViews
  imports ConsoleTypes ConsoleLib ConsoleApi ConsoleNav
begin

text \<open>
  What the console's pages show of an overview, \<open>console/src/App.tsx\<close>: the status cards, the
  overview page, the streaming jobs, the durability panel, the table and the page of runs, the cards
  of streams, operators and processes. A component is a function from its props to the texts,
  classes and targets it renders (icons and fixed prose are left out); \<open>None\<close> is a render that
  throws, which happens where the code reads a field of \<open>undefined\<close>.

  The services of the browser whose tables are not in the repository (the locale's number formats,
  Unicode case mapping, \<open>date-fns\<close>) are the fields of a record that is a parameter.
\<close>

record Browser =
  br_distance :: "f64 \<Rightarrow> jsstr"
  br_compact :: "f64 \<Rightarrow> jsstr"
  br_locale :: "f64 \<Rightarrow> jsstr"
  br_lower :: "jsstr \<Rightarrow> jsstr"
  br_datetime :: "f64 \<Rightarrow> jsstr"
  br_json :: "json \<Rightarrow> jsstr"

definition num_of_nat :: "nat \<Rightarrow> f64" where
  "num_of_nat n = num (int n)"

definition middle_dot :: jsstr where
  "middle_dot = lit '' '' @ [0xB7] @ lit '' ''"

text \<open>\<open>value ?? 0\<close> and \<open>value || 0\<close>\<close>

definition or_zero :: "f64 option \<Rightarrow> f64" where
  "or_zero v = (case v of None \<Rightarrow> num 0 | Some x \<Rightarrow> x)"

definition truthy_or_zero :: "f64 option \<Rightarrow> f64" where
  "truthy_or_zero v = (case v of None \<Rightarrow> num 0 | Some x \<Rightarrow> if falsy_num x then num 0 else x)"

text \<open>The arguments \<open>Badge\<close>, \<open>Button\<close> and \<open>Card\<close> pass to \<open>cn\<close>; \<open>clsx\<close> drops the falsy ones.\<close>

definition badge_classes :: "Browser \<Rightarrow> jsstr option \<Rightarrow> jsstr list" where
  "badge_classes br status =
     lit ''badge'' # (case status of None \<Rightarrow> [] | Some s \<Rightarrow>
       if s = [] then [] else [lit ''badge-'' @ br_lower br s])"

datatype Variant = Primary | Secondary | Ghost

fun variant_name :: "Variant \<Rightarrow> jsstr" where
  "variant_name Primary = lit ''primary''"
| "variant_name Secondary = lit ''secondary''"
| "variant_name Ghost = lit ''ghost''"

definition button_classes :: "jsstr option \<Rightarrow> Variant option \<Rightarrow> jsstr list" where
  "button_classes className variant =
     [lit ''button'', lit ''button-'' @ variant_name (case variant of None \<Rightarrow> Primary | Some v \<Rightarrow> v)]
     @ (case className of None \<Rightarrow> [] | Some c \<Rightarrow> [c])"

definition card_classes :: "jsstr option \<Rightarrow> jsstr list" where
  "card_classes className = lit ''card'' # (case className of None \<Rightarrow> [] | Some c \<Rightarrow> [c])"

record BadgeView =
  bv_status :: jsstr
  bv_text :: jsstr

text \<open>The badge of a streaming job.\<close>

definition job_badge :: "Process \<Rightarrow> BadgeView" where
  "job_badge p = \<lparr> bv_status = p_status p,
     bv_text = (if p_status p = lit ''ACTIVE'' then lit ''Streaming'' else title (p_status p)) \<rparr>"

datatype Target = OpenRun jsstr | OpenProcess jsstr | GoTo Page

section \<open>Status cards\<close>

definition maxWatermarkLag :: "Stream list \<Rightarrow> jsstr" where
  "maxWatermarkLag streams =
     (let lag = foldl js_max (num 0) (map (\<lambda>s. truthy_or_zero (s_watermark_lag s)) streams)
      in if falsy_num lag then lit ''Caught up'' else duration lag)"

record Metric =
  m_label :: jsstr
  m_value :: jsstr
  m_note :: jsstr
  m_tone :: jsstr

definition active_jobs :: "Overview \<Rightarrow> nat" where
  "active_jobs data =
     length (filter (\<lambda>x. o_status x = lit ''ACTIVE'') (ov_operators data))
     + length (filter (\<lambda>p. p_status p = lit ''ACTIVE'') (ov_processes data))"

definition live_inputs :: "Overview \<Rightarrow> nat" where
  "live_inputs data = length (filter (\<lambda>s. \<not> s_finalized s
      \<and> fle (fsub (ov_generated_at data) (s_updated_at s)) (num 30)) (ov_streams data))"

definition count_text :: "nat \<Rightarrow> jsstr" where
  "count_text n = num_str (num_of_nat n)"

definition owners_text :: "Durability \<Rightarrow> jsstr" where
  "owners_text d = num_str (d_active_partition_owners d) @ lit ''/'' @ count_text (length (d_partition_owners d))"

definition StatusSummary :: "Browser \<Rightarrow> Overview \<Rightarrow> f64 \<Rightarrow> Metric list option" where
  "StatusSummary br data rate =
     map_option (\<lambda>d.
       let healthy = d_status d = lit ''HEALTHY'' in
       [ \<lparr> m_label = lit ''Durability health'',
           m_value = (if healthy then lit ''Healthy'' else title (d_status d)),
           m_note = owners_text d @ lit '' partition owners active'',
           m_tone = (if healthy then lit ''green'' else lit ''red'') \<rparr>,
         \<lparr> m_label = lit ''Event throughput'',
           m_value = (if flt rate (num 10) then to_fixed 1 rate else compact (br_compact br) (Some rate)) @ lit ''/s'',
           m_note = lit ''60-second observed rate'', m_tone = lit ''blue'' \<rparr>,
         \<lparr> m_label = lit ''Streaming jobs'', m_value = count_text (active_jobs data),
           m_note = count_text (live_inputs data) @ lit '' inputs receiving'' @ middle_dot
             @ num_str (c_running_workflows (ov_counts data)) @ lit '' executions in flight'',
           m_tone = lit ''amber'' \<rparr>,
         \<lparr> m_label = lit ''Watermark lag'', m_value = maxWatermarkLag (ov_streams data),
           m_note = num_str (c_streams (ov_counts data)) @ lit '' managed streams'',
           m_tone = lit ''violet'' \<rparr> ])
     (ov_durability data)"

section \<open>Streaming jobs\<close>

text \<open>\<open>sort((left, right) => right.completed - left.completed)\<close>: \<open>left\<close> stays first unless the
  comparison is positive.\<close>

definition busier :: "Process \<Rightarrow> Process \<Rightarrow> bool" where
  "busier left right \<longleftrightarrow> \<not> flt (num 0) (fsub (p_completed right) (p_completed left))"

definition by_completed :: "Process list \<Rightarrow> Process list" where
  "by_completed processes = sort_by busier processes"

record JobRow =
  j_target :: Target
  j_id :: jsstr
  j_detail :: jsstr
  j_badge :: BadgeView

definition StreamingJobsPanel :: "Browser \<Rightarrow> Process list \<Rightarrow> JobRow list" where
  "StreamingJobsPanel br processes =
     map (\<lambda>p. \<lparr> j_target = OpenProcess (p_process_id p), j_id = p_process_id p,
       j_detail = p_workflow_type p @ middle_dot @ br_locale br (p_completed p) @ lit '' events completed'',
       j_badge = job_badge p \<rparr>) (by_completed processes)"

section \<open>Durability\<close>

record DurabilityView =
  dv_storage :: jsstr
  dv_place :: jsstr
  dv_checkpoint :: jsstr
  dv_checkpoint_note :: jsstr
  dv_owners :: jsstr
  dv_key_groups :: jsstr

definition DurabilityPanel :: "Browser \<Rightarrow> Overview \<Rightarrow> DurabilityView option" where
  "DurabilityPanel br data =
     map_option (\<lambda>d.
       \<lparr> dv_storage = title (d_storage_mode d), dv_place = d_region d @ middle_dot @ d_node_id d,
         dv_checkpoint = (case d_checkpoint d of
           None \<Rightarrow> lit ''Pending first checkpoint''
         | Some k \<Rightarrow> relativeTime (br_distance br) (Some (k_created_at k))),
         dv_checkpoint_note = (case d_checkpoint d of
           None \<Rightarrow> lit ''Checkpointing begins after durable transitions''
         | Some k \<Rightarrow> lit ''sequence '' @ br_locale br (k_sequence k) @ middle_dot
                      @ num_str (k_shards k) @ lit '' shards''),
         dv_owners = owners_text d @ lit '' partitions active'',
         dv_key_groups = num_str (d_active_key_groups d) @ lit ''/'' @ num_str (d_key_groups d)
           @ lit '' key groups leased'' \<rparr>)
     (ov_durability data)"

section \<open>Runs\<close>

record RunRow =
  rr_target :: Target
  rr_type :: jsstr
  rr_id :: jsstr
  rr_badge :: BadgeView
  rr_queue :: "jsstr option"
  rr_retries :: jsstr
  rr_duration :: jsstr
  rr_updated :: jsstr

record RunsTableView =
  rt_rows :: "RunRow list"
  rt_empty :: bool

definition job_row :: "bool \<Rightarrow> Process \<Rightarrow> RunRow" where
  "job_row compactTable p =
     \<lparr> rr_target = OpenProcess (p_process_id p), rr_type = p_workflow_type p, rr_id = p_process_id p,
       rr_badge = job_badge p, rr_queue = (if compactTable then None else Some (lit ''continuous'')),
       rr_retries = num_str (or_zero (p_retrying p)), rr_duration = lit ''Continuous'',
       rr_updated = lit ''Live'' \<rparr>"

definition run_row :: "Browser \<Rightarrow> bool \<Rightarrow> Workflow \<Rightarrow> RunRow" where
  "run_row br compactTable w =
     \<lparr> rr_target = OpenRun (w_workflow_id w), rr_type = w_workflow_type w, rr_id = w_workflow_id w,
       rr_badge = \<lparr> bv_status = w_status w, bv_text = title (br_lower br (w_status w)) \<rparr>,
       rr_queue = (if compactTable then None
                   else Some (if w_task_queue w = [] then lit ''default'' else w_task_queue w)),
       rr_retries = num_str (w_retries w), rr_duration = duration (w_duration_seconds w),
       rr_updated = relativeTime (br_distance br) (Some (w_updated_at w)) \<rparr>"

definition RunsTable :: "Browser \<Rightarrow> Workflow list \<Rightarrow> Process list \<Rightarrow> bool \<Rightarrow> RunsTableView" where
  "RunsTable br runs processes compactTable =
     \<lparr> rt_rows = map (job_row compactTable) processes @ map (run_row br compactTable) runs,
       rt_empty = (runs = [] \<and> processes = []) \<rparr>"

text \<open>\<open>text.includes(query)\<close>\<close>

fun text_includes :: "jsstr \<Rightarrow> jsstr \<Rightarrow> bool" where
  "text_includes [] query = (query = [])"
| "text_includes (c # cs) query = (take (length query) (c # cs) = query \<or> text_includes cs query)"

definition matching_runs :: "Browser \<Rightarrow> jsstr \<Rightarrow> jsstr \<Rightarrow> Workflow list \<Rightarrow> Workflow list" where
  "matching_runs br query status workflows =
     filter (\<lambda>run. (status = lit ''all'' \<or> w_status run = status)
       \<and> text_includes (br_lower br (w_workflow_id run @ lit '' '' @ w_workflow_type run)) (br_lower br query))
     workflows"

record RunsPageView =
  rg_query :: jsstr
  rg_status :: jsstr
  rg_options :: "(jsstr \<times> jsstr) list"
  rg_count :: jsstr
  rg_table :: RunsTableView

definition status_options :: "(jsstr \<times> jsstr) list" where
  "status_options = [(lit ''all'', lit ''All statuses''), (lit ''RUNNING'', lit ''Running''),
     (lit ''COMPLETED'', lit ''Completed''), (lit ''FAILED'', lit ''Failed'')]"

definition RunsPage :: "Browser \<Rightarrow> jsstr \<Rightarrow> jsstr \<Rightarrow> Overview \<Rightarrow> RunsPageView" where
  "RunsPage br query status data =
     (let runs = matching_runs br query status (ov_workflows data)
      in \<lparr> rg_query = query, rg_status = status, rg_options = status_options,
           rg_count = count_text (length runs + length (ov_processes data)) @ lit '' runs'',
           rg_table = RunsTable br runs (ov_processes data) False \<rparr>)"

section \<open>The overview page\<close>

record RunCard =
  rc_target :: Target
  rc_type :: jsstr
  rc_id :: jsstr
  rc_badge :: BadgeView

record OverviewView =
  vw_action :: Target
  vw_action_text :: jsstr
  vw_metrics :: "Metric list"
  vw_inventory :: "(Target \<times> jsstr) list"
  vw_jobs :: "JobRow list"
  vw_durability :: DurabilityView
  vw_recent :: RunsTableView
  vw_attention :: "RunCard list"
  vw_recovered :: "RunCard list"

definition failed_run :: "Workflow \<Rightarrow> bool" where
  "failed_run run \<longleftrightarrow> w_status run = lit ''FAILED''"

definition failed_card :: "Workflow \<Rightarrow> RunCard" where
  "failed_card run = \<lparr> rc_target = OpenRun (w_workflow_id run), rc_type = w_workflow_type run,
     rc_id = w_workflow_id run, rc_badge = \<lparr> bv_status = lit ''failed'', bv_text = lit ''Failed'' \<rparr> \<rparr>"

definition recovered_card :: "Workflow \<Rightarrow> RunCard" where
  "recovered_card run = \<lparr> rc_target = OpenRun (w_workflow_id run), rc_type = w_workflow_type run,
     rc_id = w_workflow_id run,
     rc_badge = \<lparr> bv_status = lit ''completed'', bv_text = num_str (w_retries run) @ lit '' retry'' \<rparr> \<rparr>"

definition OverviewPage :: "Browser \<Rightarrow> Overview \<Rightarrow> f64 \<Rightarrow> OverviewView option" where
  "OverviewPage br data rate =
     (let attention = take 4 (filter failed_run (ov_workflows data));
          recovered = take 4 (filter recovered_run (ov_workflows data));
          latestRecovery = first_of recovered;
          inventory = [(GoTo PStreams, num_str (c_streams (ov_counts data))),
            (GoTo POperators, num_str (c_operators (ov_counts data))),
            (GoTo PProcesses, num_str (c_processes (ov_counts data)))]
      in case (StatusSummary br data rate, DurabilityPanel br data) of
        (Some metrics, Some durability) \<Rightarrow>
          Some \<lparr> vw_action = (case latestRecovery of Some run \<Rightarrow> OpenRun (w_workflow_id run)
                              | None \<Rightarrow> GoTo PQuickstart),
                 vw_action_text = (if latestRecovery = None then lit ''Run an example'' else lit ''Inspect a recovery''),
                 vw_metrics = metrics, vw_inventory = inventory,
                 vw_jobs = StreamingJobsPanel br (ov_processes data), vw_durability = durability,
                 vw_recent = RunsTable br (take 7 (ov_workflows data)) (ov_processes data) True,
                 vw_attention = map failed_card attention, vw_recovered = map recovered_card recovered \<rparr>
      | _ \<Rightarrow> None)"

section \<open>Streams, operators, processes\<close>

record StreamCard =
  sc_name :: jsstr
  sc_badge :: BadgeView
  sc_updated :: jsstr
  sc_records :: jsstr
  sc_partitions :: jsstr
  sc_watermark :: jsstr
  sc_lag :: jsstr
  sc_mode :: jsstr

definition stream_card :: "Browser \<Rightarrow> Stream \<Rightarrow> StreamCard" where
  "stream_card br s =
     \<lparr> sc_name = s_name s,
       sc_badge = (if s_finalized s then \<lparr> bv_status = lit ''completed'', bv_text = lit ''Finalized'' \<rparr>
                   else \<lparr> bv_status = lit ''healthy'', bv_text = lit ''Active'' \<rparr>),
       sc_updated = relativeTime (br_distance br) (Some (s_updated_at s)),
       sc_records = br_locale br (s_records s), sc_partitions = num_str (s_partitions s),
       sc_watermark = (case s_watermark s of None \<Rightarrow> em_dash | Some w \<Rightarrow> num_str w),
       sc_lag = (case s_watermark_lag s of None \<Rightarrow> lit ''Caught up''
                 | Some lag \<Rightarrow> if falsy_num lag then lit ''Caught up'' else duration lag),
       sc_mode = title (s_watermark_mode s) @ lit '' watermark'' \<rparr>"

definition StreamsPage :: "Browser \<Rightarrow> Stream list \<Rightarrow> StreamCard list \<times> bool" where
  "StreamsPage br streams = (map (stream_card br) streams, streams = [])"

record OperatorCard =
  oc_id :: jsstr
  oc_badge :: BadgeView
  oc_kind :: jsstr
  oc_inputs :: "jsstr list"
  oc_output :: jsstr
  oc_matched :: jsstr
  oc_emitted :: jsstr
  oc_trace :: "Target option"

definition watermark_suffix :: "f64 option \<Rightarrow> jsstr" where
  "watermark_suffix w =
     (case w of None \<Rightarrow> [] | Some x \<Rightarrow> middle_dot @ lit ''wm '' @ to_fixed 1 x)"

definition operator_input :: "Operator \<Rightarrow> nat \<Rightarrow> jsstr \<Rightarrow> jsstr" where
  "operator_input x index input = input
     @ (if index = 0 then watermark_suffix (o_probe_watermark x) else [])
     @ (if index = 1 then watermark_suffix (o_version_watermark x) else [])"

definition operator_card :: "Browser \<Rightarrow> Operator \<Rightarrow> OperatorCard" where
  "operator_card br x =
     \<lparr> oc_id = o_operator_id x, oc_badge = \<lparr> bv_status = o_status x, bv_text = title (o_status x) \<rparr>,
       oc_kind = title (o_kind x)
         @ (case o_n x of None \<Rightarrow> [] | Some n \<Rightarrow> middle_dot @ num_str n @ lit '' rows per group'')
         @ (case o_join_type x of None \<Rightarrow> [] | Some t \<Rightarrow> if t = [] then [] else middle_dot @ t),
       oc_inputs = map (\<lambda>(index, input). operator_input x index input)
                       (zip [0..<length (o_input x)] (o_input x)),
       oc_output = (case o_output_stream x of Some out \<Rightarrow> out
         | None \<Rightarrow> (case o_workflow_type x of Some t \<Rightarrow> t | None \<Rightarrow> lit ''Maintained rows'')),
       oc_matched = (case o_matched x of None \<Rightarrow> em_dash | Some n \<Rightarrow> br_locale br n),
       oc_emitted = (case o_emitted x of None \<Rightarrow> em_dash | Some n \<Rightarrow> br_locale br n),
       oc_trace = (case o_latest_workflow_id x of None \<Rightarrow> None
         | Some w \<Rightarrow> if w = [] then None else Some (OpenRun w)) \<rparr>"

definition OperatorsPage :: "Browser \<Rightarrow> Operator list \<Rightarrow> OperatorCard list \<times> bool" where
  "OperatorsPage br operators = (map (operator_card br) operators, operators = [])"

record ProcessCard =
  pc_target :: Target
  pc_id :: jsstr
  pc_type :: jsstr
  pc_badge :: BadgeView
  pc_width :: f64
  pc_used :: jsstr
  pc_counts :: "(jsstr \<times> jsstr) list"
  pc_slots :: jsstr

definition used_slots :: "Process \<Rightarrow> f64" where
  "used_slots p = fadd (fadd (p_pending p) (p_running p)) (or_zero (p_retrying p))"

text \<open>\<open>Math.min(100, (used / Math.max(1, process.mailbox_capacity)) * 100)\<close>, the width in percent.\<close>

definition queue_bar_width :: "Process \<Rightarrow> f64" where
  "queue_bar_width p =
     js_min (num 100) (fmul (fdiv (used_slots p) (js_max (num 1) (p_mailbox_capacity p))) (num 100))"

definition process_card :: "Process \<Rightarrow> ProcessCard" where
  "process_card p =
     \<lparr> pc_target = OpenProcess (p_process_id p), pc_id = p_process_id p, pc_type = p_workflow_type p,
       pc_badge = job_badge p, pc_width = queue_bar_width p,
       pc_used = num_str (used_slots p) @ lit '' / '' @ num_str (p_mailbox_capacity p),
       pc_counts = [(lit ''Pending'', num_str (p_pending p)), (lit ''In flight'', num_str (p_running p)),
         (lit ''Retrying'', num_str (or_zero (p_retrying p))),
         (lit ''Quarantined'', num_str (or_zero (p_quarantined p))),
         (lit ''Completed'', num_str (p_completed p)), (lit ''Failed'', num_str (p_failed p))],
       pc_slots = lit ''Continuously polling'' @ middle_dot @ num_str (p_max_concurrent_keys p)
         @ lit '' normal'' @ middle_dot @ num_str (or_zero (p_retry_concurrency p)) @ lit '' retry slots'' \<rparr>"

definition ProcessesPage :: "Process list \<Rightarrow> ProcessCard list \<times> bool" where
  "ProcessesPage processes = (map process_card (by_completed processes), processes = [])"

section \<open>The order of the streaming jobs\<close>

definition counted_jobs :: "Process list \<Rightarrow> bool" where
  "counted_jobs ps \<longleftrightarrow> list_all (\<lambda>p. count64 (p_completed p)) ps"

lemma count64_not_NaN: "count64 x \<Longrightarrow> x \<noteq> NaN"
  by (cases x) auto

lemma busier_counts:
  assumes "count64 (p_completed a)" "count64 (p_completed b)"
  shows "busier a b \<longleftrightarrow> fle (p_completed b) (p_completed a)"
proof -
  obtain j k where jk: "p_completed a = num j" "0 \<le> j" "j \<le> 2 ^ 53" "p_completed b = num k" "0 \<le> k" "k \<le> 2 ^ 53"
    using assms by (metis count64E)
  then have "\<bar>k - j\<bar> \<le> 2 ^ 53" by linarith
  then have "fsub (num k) (num j) = num (k - j)" by (rule fsub_num)
  then show ?thesis using jk by (auto simp: busier_def)
qed

lemma counted_ordering: "counted_jobs ps \<Longrightarrow> ordering_on (set ps) busier"
  unfolding ordering_on_def counted_jobs_def list_all_iff
  by (intro conjI ballI impI; simp add: busier_counts)
     (blast intro: fle_trans dest: fle_total count64_not_NaN)+

text \<open>
  The streaming jobs (on the overview and on the processes page) are all there, each as often
  as in the overview, from the most completed events to the fewest, and jobs with equally many keep
  the order of the overview.
\<close>

theorem jobs_in_order:
  assumes "counted_jobs ps"
  shows "mset (by_completed ps) = mset ps \<and>
    sorted_wrt (\<lambda>p q. fle (p_completed q) (p_completed p)) (by_completed ps) \<and>
    (\<forall>n. filter (\<lambda>p. p_completed p = n) (by_completed ps) = filter (\<lambda>p. p_completed p = n) ps)"
proof (intro conjI allI)
  have c: "count64 (p_completed p)" if "p \<in> set ps" for p
    using assms that by (simp add: counted_jobs_def list_all_iff)
  show "mset (by_completed ps) = mset ps" by (simp add: by_completed_def)
  have "sorted_wrt busier (by_completed ps)"
    using sorted_sort_by [OF counted_ordering [OF assms] order.refl] by (simp add: by_completed_def)
  then show "sorted_wrt (\<lambda>p q. fle (p_completed q) (p_completed p)) (by_completed ps)"
    by (rule sorted_wrt_mono_rel [rotated]) (simp add: by_completed_def c busier_counts)
  show "filter (\<lambda>p. p_completed p = n) (by_completed ps) = filter (\<lambda>p. p_completed p = n) ps" for n
    unfolding by_completed_def
  proof (rule stable_sort_by)
    fix x y assume "x \<in> set ps" "y \<in> set ps" and n: "p_completed x = n" "p_completed y = n"
    then have "count64 n" "busier x y \<longleftrightarrow> fle n n" using c [of x] c [of y] busier_counts [of x y] by simp_all
    then show "busier x y" by (simp add: count64_not_NaN)
  qed
qed

definition sample_job :: "string \<Rightarrow> int \<Rightarrow> Process" where
  "sample_job ident completed =
     \<lparr> p_process_id = lit ident, p_workflow_type = lit ''Balance'', p_stream = lit ''deposits'',
       p_status = lit ''ACTIVE'', p_pending = num 5, p_running = num 2, p_completed = num completed,
       p_failed = num 0, p_retrying = Some (num 1), p_quarantined = None, p_max_concurrent_keys = num 4,
       p_retry_concurrency = None, p_max_attempts = num 3, p_mailbox_capacity = num 16,
       p_event_time_gate = lit ''none'' \<rparr>"

lemma jobs_in_order_witness:
  "counted_jobs [sample_job ''a'' 3, sample_job ''b'' 9, sample_job ''c'' 3] \<and>
   mset (by_completed [sample_job ''a'' 3, sample_job ''b'' 9, sample_job ''c'' 3])
     = mset [sample_job ''a'' 3, sample_job ''b'' 9, sample_job ''c'' 3]"
proof -
  have "counted_jobs [sample_job ''a'' 3, sample_job ''b'' 9, sample_job ''c'' 3]"
    by (simp add: counted_jobs_def sample_job_def count64_num)
  then show ?thesis using jobs_in_order by blast
qed

section \<open>The mailbox bar\<close>

definition counted_process :: "Process \<Rightarrow> bool" where
  "counted_process p \<longleftrightarrow> list_all (\<lambda>x. count64 x \<and> fle x (num (2 ^ 50)))
     [p_pending p, p_running p, or_zero (p_retrying p), p_mailbox_capacity p]"

lemma counted_used:
  assumes "counted_process p"
  obtains n m where "used_slots p = num n" "0 \<le> n" "n \<le> 2 ^ 52"
    "p_mailbox_capacity p = num m" "0 \<le> m" "m \<le> 2 ^ 50"
proof -
  obtain a where a: "p_pending p = num a" "0 \<le> a" "a \<le> 2 ^ 50"
    using assms unfolding counted_process_def by (auto elim!: count64E)
  obtain b where b: "p_running p = num b" "0 \<le> b" "b \<le> 2 ^ 50"
    using assms unfolding counted_process_def by (auto elim!: count64E)
  obtain c where c: "or_zero (p_retrying p) = num c" "0 \<le> c" "c \<le> 2 ^ 50"
    using assms unfolding counted_process_def by (auto elim!: count64E)
  obtain m where m: "p_mailbox_capacity p = num m" "0 \<le> m" "m \<le> 2 ^ 50"
    using assms unfolding counted_process_def by (auto elim!: count64E)
  have "used_slots p = num (a + b + c)" using a b c by (simp add: used_slots_def fadd_num)
  with a b c m show thesis by (intro that [of "a + b + c" m]) simp_all
qed

text \<open>
  The bar of a job's mailbox is drawn with a width between 0 and 100 percent for every number
  of pending, running and retrying events and every capacity (zero included, and the capacity
  exceeded), and it is full exactly when the mailbox is; an empty mailbox has an empty bar.
\<close>

theorem queue_bar_bounds:
  assumes "counted_process p"
  shows "fle (num 0) (queue_bar_width p) \<and> fle (queue_bar_width p) (num 100) \<and>
    (queue_bar_width p = num 100 \<longleftrightarrow> fle (js_max (num 1) (p_mailbox_capacity p)) (used_slots p)) \<and>
    (used_slots p = num 0 \<longrightarrow> queue_bar_width p = num 0)"
proof -
  obtain n m where nm: "used_slots p = num n" "0 \<le> n" "n \<le> 2 ^ 52"
    "p_mailbox_capacity p = num m" "0 \<le> m" "m \<le> 2 ^ 50"
    using counted_used [OF assms] .
  define k where "k = max 1 m"
  have k: "1 \<le> k" "k \<le> 2 ^ 50" "js_max (num 1) (num m) = num k" using nm(6) by (auto simp: k_def js_max_def num_def)
  let ?q = "round64 (of_int n / of_int k) * 100"
  have "(of_int n :: rat) / of_int k \<le> of_int n" using nm k by (simp add: divide_le_eq mult_le_cancel_left1)
  also have "(of_int n :: rat) \<le> of_int (2 ^ 53)" using nm(3) unfolding of_int_le_iff by simp
  finally have "mk64 (of_int n / of_int k) = Fin (round64 (of_int n / of_int k))"
    using nm k by (intro mk64_pow54) simp
  then have w: "queue_bar_width p = js_min (num 100) (mk64 ?q)"
    using k by (simp add: queue_bar_width_def nm(1,4) k(3)) (simp add: num_def)
  show ?thesis
  proof (cases "k \<le> n")
    case True
    then have "1 \<le> round64 (of_int n / of_int k)" using k by (intro r64.ge_exact) (auto simp: r64.int53 [of 1, simplified])
    then have "queue_bar_width p = num 100" unfolding w by (intro percent_capped) simp
    with True k nm show ?thesis by simp
  next
    case False
    have f: "0 \<le> round64 (of_int n / of_int k)" "round64 (of_int n / of_int k) \<le> 1"
      using False nm k by (auto intro!: r64.fraction_nonneg r64.fraction_le_1)
    then obtain r where r: "mk64 ?q = Fin r" "0 \<le> r" "r \<le> 100"
      by (auto intro: mk64_between [of 0 100 ?q])
    then have "r = round64 ?q" by (auto simp: mk64_def Let_def split: if_splits)
    then have "r < 100" using percent_below [of n k] False nm k by simp
    with r have "queue_bar_width p = Fin r" unfolding w by (simp add: js_min_def num_def)
    moreover have "r = 0" if "n = 0" using that r(1) \<open>r = round64 ?q\<close> by (simp add: r64.zero)
    ultimately show ?thesis using False r \<open>r < 100\<close> k nm by (auto simp: num_def)
  qed
qed

lemma queue_bar_bounds_witness:
  "counted_process (sample_job ''a'' 3) \<and> fle (queue_bar_width (sample_job ''a'' 3)) (num 100)"
proof -
  have "counted_process (sample_job ''a'' 3)"
    by (simp add: counted_process_def sample_job_def or_zero_def count64_num)
  then show ?thesis using queue_bar_bounds by blast
qed

section \<open>The watermark lag\<close>

text \<open>
  The "Watermark lag" card reads "Caught up" when no stream reports a positive lag (a missing
  lag, 0 and a negative one are none), and otherwise the duration of the greatest lag reported.
\<close>

lemma watermark_lag_shown:
  "if \<exists>s \<in> set streams. \<exists>lag. s_watermark_lag s = Some lag \<and> flt (num 0) lag
   then \<exists>s \<in> set streams. \<exists>lag. s_watermark_lag s = Some lag \<and> flt (num 0) lag
     \<and> maxWatermarkLag streams = duration lag
     \<and> \<not> (\<exists>s' \<in> set streams. \<exists>lag'. s_watermark_lag s' = Some lag' \<and> flt lag lag')
   else maxWatermarkLag streams = lit ''Caught up''"
proof -
  let ?lags = "map (\<lambda>s. truthy_or_zero (s_watermark_lag s)) streams"
  define m where "m = foldl js_max (num 0) ?lags"
  have "NaN \<notin> set ?lags" by (auto simp: truthy_or_zero_def falsy_num_def num_def split: option.splits if_splits)
  then have m: "m \<in> insert (num 0) (set ?lags)" "\<forall>x \<in> insert (num 0) (set ?lags). fle x m"
    using foldl_js_max_greatest [of "num 0" ?lags] unfolding m_def by (auto simp: num_def)
  have card: "maxWatermarkLag streams = (if falsy_num m then lit ''Caught up'' else duration m)"
    by (simp add: maxWatermarkLag_def m_def Let_def)
  have reported: "truthy_or_zero (Some lag) = lag" if "flt (num 0) lag" for lag
    using that by (auto simp: truthy_or_zero_def falsy_num_def num_def flt_def feq_def)
  have above: "fle lag m" if "s \<in> set streams" "s_watermark_lag s = Some lag" "flt (num 0) lag" for s lag
    using m(2) that reported by (metis (no_types, lifting) image_eqI insertCI list.set_map)
  have pos: "flt (num 0) m \<longleftrightarrow> m \<noteq> num 0" using m(2) by (auto simp: flt_def feq_def num_def)
  have m_NaN: "m \<noteq> NaN" using m(2) fle_not_NaN by blast
  then have falsy: "falsy_num m \<longleftrightarrow> m = num 0" by (simp add: falsy_num_def num_def)
  show ?thesis
  proof (cases "m = num 0")
    case True
    have no: "\<not> (\<exists>s \<in> set streams. \<exists>lag. s_watermark_lag s = Some lag \<and> flt (num 0) lag)"
      using above fle_flt_False unfolding True by blast
    have "falsy_num m" using falsy True by simp
    then show ?thesis unfolding if_not_P [OF no] card by simp
  next
    case False
    then obtain s where s: "s \<in> set streams" "truthy_or_zero (s_watermark_lag s) = m" using m(1) by auto
    with False have lag: "s_watermark_lag s = Some m"
      by (auto simp: truthy_or_zero_def split: option.splits if_splits)
    have "\<not> flt m lag'" if "s' \<in> set streams" "s_watermark_lag s' = Some lag'" for s' lag'
    proof
      assume less: "flt m lag'"
      have "flt (num 0) m" using pos False by simp
      then have "flt (num 0) lag'" using less by (rule flt_trans)
      then show False using above [OF that] less fle_flt_False by blast
    qed
    then have none: "\<not> (\<exists>s' \<in> set streams. \<exists>lag'. s_watermark_lag s' = Some lag' \<and> flt m lag')" by blast
    have some: "flt (num 0) m" "maxWatermarkLag streams = duration m" using False pos by (simp_all add: card falsy)
    then have yes: "\<exists>s \<in> set streams. \<exists>lag. s_watermark_lag s = Some lag \<and> flt (num 0) lag" using s(1) lag by blast
    then show ?thesis unfolding if_P [OF yes] using s(1) lag some none by blast
  qed
qed

section \<open>The page of runs\<close>

lemma text_includes_iff: "text_includes s q \<longleftrightarrow> (\<exists>a b. s = a @ q @ b)"
proof (induction s)
  case (Cons c s)
  have "take (length q) (c # s) = q \<longleftrightarrow> (\<exists>b. c # s = q @ b)"
    by (metis append_eq_conv_conj append_take_drop_id)
  moreover have "(\<exists>a b. c # s = a @ q @ b) \<longleftrightarrow> (\<exists>b. c # s = q @ b) \<or> (\<exists>a b. s = a @ q @ b)"
    by (metis append_Cons append_Nil list.exhaust list.sel(3))
  ultimately show ?case using Cons.IH by simp
qed simp

text \<open>
  The page of runs lists all streaming jobs, whatever the filter, and after them, in the order
  of the overview, exactly the runs that have the chosen status (or any, for "all") and whose
  identifier and type, joined by a space and lowered, contain the lowered search text; the count in
  the toolbar is the number of rows, and "No matching runs" is shown exactly when there are none.
\<close>

theorem runs_page_rows:
  "map rr_target (rt_rows (rg_table (RunsPage br query status data))) =
     map (OpenProcess \<circ> p_process_id) (ov_processes data) @
     map (OpenRun \<circ> w_workflow_id)
       [w \<leftarrow> ov_workflows data. (status = lit ''all'' \<or> w_status w = status) \<and>
         (\<exists>before after. br_lower br (w_workflow_id w @ lit '' '' @ w_workflow_type w)
            = before @ br_lower br query @ after)] \<and>
   rg_count (RunsPage br query status data)
     = count_text (length (rt_rows (rg_table (RunsPage br query status data)))) @ lit '' runs'' \<and>
   rt_empty (rg_table (RunsPage br query status data))
     = (rt_rows (rg_table (RunsPage br query status data)) = [])"
  by (auto simp: RunsPage_def Let_def RunsTable_def matching_runs_def text_includes_iff run_row_def
      job_row_def o_def add.commute)

section \<open>The overview page\<close>

text \<open>
  Whatever overview the server sends, in particular one of an older server without a
  \<open>durability\<close>, the overview page renders once \<open>getOverview\<close> has completed it. It lists
  the first four failed runs and the first four recovered ones; the button offers to inspect the
  first recovered run exactly when there is one, and leads to the quickstart otherwise.
\<close>

theorem overview_renders:
  assumes "getOverview shape r = Inr data"
  shows "\<exists>v. OverviewPage br data rate = Some v \<and>
    length (vw_attention v) = min 4 (length (filter failed_run (ov_workflows data))) \<and>
    (vw_action v = GoTo PQuickstart \<longleftrightarrow> vw_recovered v = []) \<and>
    (vw_recovered v = [] \<longleftrightarrow> \<not> (\<exists>w \<in> set (ov_workflows data). recovered_run w)) \<and>
    (vw_recovered v \<noteq> [] \<longrightarrow> vw_action v = rc_target (hd (vw_recovered v)))"
proof -
  have "ov_durability data \<noteq> None"
    using assms by (auto simp: getOverview_def fill_overview_def split: sum.splits option.splits)
  then obtain d where d: "ov_durability data = Some d" by auto
  define rs where "rs = filter recovered_run (ov_workflows data)"
  have "rs = [] \<longleftrightarrow> \<not> (\<exists>w \<in> set (ov_workflows data). recovered_run w)" by (auto simp: rs_def filter_empty_conv)
  then show ?thesis
    by (cases rs)
       (simp_all add: OverviewPage_def Let_def StatusSummary_def DurabilityPanel_def d recovered_card_def
         flip: rs_def)
qed

lemma overview_renders_witness:
  "\<exists>v. OverviewPage
     \<lparr> br_distance = num_str, br_compact = num_str, br_locale = num_str, br_lower = (\<lambda>s. s),
       br_datetime = num_str, br_json = js_string \<rparr> (fill_overview empty_overview) (num 0) = Some v \<and>
     vw_action v = GoTo PQuickstart"
proof -
  have "getOverview (\<lambda>_. Some empty_overview) (Reply 200 True (Some (JObj [])))
      = Inr (fill_overview empty_overview)"
    by (simp add: getOverview_def json_body_def)
  from overview_renders [OF this] obtain v where v: "OverviewPage
     \<lparr> br_distance = num_str, br_compact = num_str, br_locale = num_str, br_lower = (\<lambda>s. s),
       br_datetime = num_str, br_json = js_string \<rparr> (fill_overview empty_overview) (num 0) = Some v"
    "vw_action v = GoTo PQuickstart \<longleftrightarrow> vw_recovered v = []"
    "vw_recovered v = [] \<longleftrightarrow> \<not> (\<exists>w \<in> set (ov_workflows (fill_overview empty_overview)). recovered_run w)"
    by blast
  then have "vw_action v = GoTo PQuickstart" by (simp add: fill_overview_def empty_overview_def)
  then show ?thesis using v by blast
qed

end
