(* ===== verification/ConsoleHistory.thy ===== *)
theory ConsoleHistory
  imports ConsoleViews ConsoleTimeline
begin

text \<open>
  The other views of a run's history, \<open>console/src/App.tsx\<close>: the entries of \<open>CompactHistory\<close>, the
  rows of \<open>FullHistory\<close>, the steps of \<open>ExecutionTraceView\<close> and the two JSON panels, with the
  agreement of the compact history and the timeline.
\<close>

section \<open>Compact and full history\<close>

datatype EntryKind = Started | GateReleased | Recovered | ActivityDone | Ended

record HistoryEntry =
  he_kind :: EntryKind
  he_title :: jsstr
  he_text :: jsstr
  he_time :: "jsstr option"

definition watermark_text :: "f64 option \<Rightarrow> jsstr" where
  "watermark_text w = (case w of None \<Rightarrow> lit ''final'' | Some x \<Rightarrow> to_fixed 1 x)"

definition recovered_entry :: "Browser \<Rightarrow> HistoryEvent \<Rightarrow> HistoryEntry" where
  "recovered_entry br e =
     \<lparr> he_kind = Recovered, he_title = lit ''Activity recovered automatically'',
       he_text = lit ''Attempt '' @ js_string_opt (data_field e ''failed_attempt'')
         @ lit '' failed; attempt '' @ js_string_opt (data_field e ''next_attempt'') @ lit '' was scheduled.'',
       he_time = Some (relativeTime (br_distance br) (Some (h_created_at e))) \<rparr>"

definition done_entry :: "Browser \<Rightarrow> HistoryEvent \<Rightarrow> HistoryEntry" where
  "done_entry br e =
     \<lparr> he_kind = ActivityDone, he_title = lit ''Activity completed'',
       he_text = lit ''Command '' @ js_string_opt (command_of e) @ lit '' committed its result.'',
       he_time = Some (relativeTime (br_distance br) (Some (h_created_at e))) \<rparr>"

definition CompactHistory :: "Browser \<Rightarrow> WorkflowDetail \<Rightarrow> HistoryEntry list" where
  "CompactHistory br d =
     (let w = wd_workflow d;
          retries = filter (has_kind ''ACTIVITY_RETRY_SCHEDULED'') (wd_history d);
          activities = filter (has_kind ''ACTIVITY_COMPLETED'') (wd_history d)
      in [\<lparr> he_kind = Started, he_title = lit ''Workflow started'',
            he_text = w_workflow_type w @ lit '' entered durable execution.'',
            he_time = Some (relativeTime (br_distance br) (Some (w_created_at w))) \<rparr>]
         @ (case wd_trace d of None \<Rightarrow> []
            | Some t \<Rightarrow> [\<lparr> he_kind = GateReleased, he_title = lit ''Event-time gate released'',
                he_text = lit ''Watermark '' @ watermark_text (tg_release_watermark (tr_gate t))
                  @ lit '' passed as-of '' @ to_fixed 1 (tg_as_of (tr_gate t)) @ lit ''.'', he_time = None \<rparr>])
         @ map (recovered_entry br) retries @ map (done_entry br) activities
         @ [\<lparr> he_kind = Ended, he_title = lit ''Workflow '' @ br_lower br (w_status w),
              he_text = lit ''Result and event history are durably retained.'',
              he_time = Some (relativeTime (br_distance br) (Some (w_updated_at w))) \<rparr>])"

record HistoryRow =
  hr_number :: jsstr
  hr_title :: jsstr
  hr_time :: jsstr
  hr_payload :: "jsstr option"

definition history_row :: "Browser \<Rightarrow> nat \<Rightarrow> HistoryEvent \<Rightarrow> HistoryRow" where
  "history_row br index e =
     \<lparr> hr_number = count_text (index + 1), hr_title = title_opt (event_kind e),
       hr_time = br_datetime br (fmul (h_created_at e) (num 1000)),
       hr_payload = (if h_data e = [] then None else Some (br_json br (JObj (h_data e)))) \<rparr>"

definition FullHistory :: "Browser \<Rightarrow> HistoryEvent list \<Rightarrow> HistoryRow list" where
  "FullHistory br events = map (\<lambda>(index, e). history_row br index e) (zip [0..<length events] events)"

section \<open>The streaming trace\<close>

record TraceStep =
  st_label :: jsstr
  st_title :: jsstr
  st_detail :: jsstr
  st_meta :: jsstr
  st_line :: bool

definition trace_steps :: "Browser \<Rightarrow> ExecutionTrace \<Rightarrow> Workflow \<Rightarrow> (jsstr \<times> jsstr \<times> jsstr \<times> jsstr) list" where
  "trace_steps br t w =
     [(lit ''Source record'', ts_stream (tr_source t),
       lit ''partition '' @ num_str (ts_partition (tr_source t)) @ middle_dot @ lit ''offset '' @ num_str (ts_offset (tr_source t)),
       lit ''event time '' @ to_fixed 1 (ts_event_time (tr_source t))),
      (lit ''Event-time gate'', lit ''Watermark '' @ watermark_text (tg_release_watermark (tr_gate t)),
       lit ''released as-of '' @ to_fixed 1 (tg_as_of (tr_gate t)),
       if ts_late (tr_source t) then lit ''late record'' else lit ''on time''),
      (lit ''Temporal join'', to_operator_id (tr_operator t),
       if to_matched (tr_operator t) then lit ''version matched'' else lit ''left join without match'',
       case tr_version t of None \<Rightarrow> lit ''no version''
       | Some v \<Rightarrow> lit ''effective at '' @ to_fixed 1 (tv_event_time v)),
      (lit ''Durable execution'', w_workflow_type w,
       num_str (w_retries w) @ lit '' retries'' @ middle_dot @ num_str (w_history_events w) @ lit '' history events'',
       br_lower br (w_status w)),
      (lit ''Result'', if w_status w = lit ''COMPLETED'' then lit ''Committed'' else title (w_status w),
       lit ''completed in '' @ duration (w_duration_seconds w), lit ''durable history retained'')]"

definition ExecutionTraceView :: "Browser \<Rightarrow> ExecutionTrace \<Rightarrow> Workflow \<Rightarrow> TraceStep list \<times> jsstr option" where
  "ExecutionTraceView br t w =
     (let steps = trace_steps br t w in
      (map (\<lambda>(index, lab, heading, detail, meta).
         \<lparr> st_label = lab, st_title = heading, st_detail = detail, st_meta = meta,
           st_line = (index < length steps - 1) \<rparr>) (zip [0..<length steps] steps),
       map_option (\<lambda>v. br_json br (tv_value v)) (tr_version t)))"

section \<open>JSON panels\<close>

text \<open>
  The panel shows \<open>JSON.stringify(value ?? null, null, 2)\<close>; its button copies
  \<open>JSON.stringify(value, null, 2)\<close>, which is \<open>undefined\<close> for a missing value, and \<open>writeText\<close> turns
  that into text. \<open>None\<close> is \<open>undefined\<close>.
\<close>

record JsonPanel =
  jp_label :: jsstr
  jp_aria :: jsstr
  jp_shown :: jsstr
  jp_copied :: jsstr
  jp_toast :: jsstr

definition json_panel :: "Browser \<Rightarrow> jsstr \<Rightarrow> json option \<Rightarrow> JsonPanel" where
  "json_panel br lab v =
     \<lparr> jp_label = lab, jp_aria = lit ''Copy '' @ br_lower br lab,
       jp_shown = br_json br (case v of None \<Rightarrow> JNull | Some j \<Rightarrow> j),
       jp_copied = (case v of None \<Rightarrow> lit ''undefined'' | Some j \<Rightarrow> br_json br j),
       jp_toast = lab @ lit '' copied'' \<rparr>"

text \<open>
  A JSON panel copies exactly what it shows when there is a value; for a missing one (a run
  without a result) it shows \<open>null\<close> and copies the word \<open>undefined\<close>.
\<close>

theorem json_panel_copies_shown:
  assumes "br_json br JNull = lit ''null''"
  shows "(v \<noteq> None \<longrightarrow> jp_copied (json_panel br lab v) = jp_shown (json_panel br lab v)) \<and>
    jp_shown (json_panel br lab None) = lit ''null'' \<and> jp_copied (json_panel br lab None) = lit ''undefined''"
  using assms by (auto simp: json_panel_def)

section \<open>The compact history and the timeline agree\<close>

definition markers_of :: "string \<Rightarrow> TimelineLane \<Rightarrow> nat" where
  "markers_of k l = length (filter (\<lambda>m. snd m = lit k) (n_markers l))"

definition marker_count :: "string \<Rightarrow> TimelineLane list \<Rightarrow> nat" where
  "marker_count k ls = sum_list (map (markers_of k) ls)"

text \<open>Every retry and every completion is of a command that was scheduled before.\<close>

fun answered :: "json option list \<Rightarrow> HistoryEvent list \<Rightarrow> bool" where
  "answered seen [] = True"
| "answered seen (e # es) =
     ((has_kind ''ACTIVITY_RETRY_SCHEDULED'' e \<or> has_kind ''ACTIVITY_COMPLETED'' e
         \<longrightarrow> list_ex (\<lambda>c. strict_eq c (command_of e)) seen)
      \<and> answered (if has_kind ''ACTIVITY_SCHEDULED'' e then command_of e # seen else seen) es)"

text \<open>Each scheduled command has a lane that answers to it.\<close>

definition has_lanes :: "json option list \<Rightarrow> TimelineLane list \<Rightarrow> bool" where
  "has_lanes seen ls \<longleftrightarrow> (\<forall>c \<in> set seen. \<exists>l \<in> set ls. n_kind l = lit ''activity'' \<and> n_commandId l = c)"

lemma frame [simp]:
  "n_kind (add_marker t k l) = n_kind l" "n_commandId (add_marker t k l) = n_commandId l"
  "n_kind (end_lane e l) = n_kind l" "n_commandId (end_lane e l) = n_commandId l"
  by (simp_all add: add_marker_def end_lane_def)

lemma marker_count_simps [simp]:
  "marker_count k [] = 0" "marker_count k (l # ls) = markers_of k l + marker_count k ls"
  "marker_count k (ls @ ms) = marker_count k ls + marker_count k ms"
  by (simp_all add: marker_count_def)

lemma marker_count_update:
  assumes "\<exists>l \<in> set ls. p l" and "\<And>l. markers_of k (f l) = markers_of k l + n"
  shows "marker_count k (update_first p f ls) = marker_count k ls + n"
  using assms(1) by (induction ls) (auto simp: assms(2))

lemma marker_count_same:
  assumes "\<And>l. markers_of k (f l) = markers_of k l"
  shows "marker_count k (update_first p f ls) = marker_count k ls"
  by (induction ls) (auto simp: assms)

lemma markers_of_simps [simp]:
  "markers_of k (add_marker t (lit k') l) = markers_of k l + (if k = k' then 1 else 0)"
  "markers_of k (activity_lane final e) = 0"
  "markers_of k (signal_lane e) = (if k = ''signal'' then 1 else 0)"
  by (auto simp: markers_of_def add_marker_def activity_lane_def signal_lane_def)

lemma markers_of_end [simp]:
  "markers_of k (end_lane e l) = markers_of k l +
     (if k = (if has_kind ''ACTIVITY_FAILED'' e then ''failed'' else ''completed'') then 1 else 0)"
  by (auto simp: end_lane_def markers_of_def add_marker_def)

lemma has_lanes_mono:
  assumes "has_lanes seen ls"
    and "\<And>l. l \<in> set ls \<Longrightarrow> \<exists>m \<in> set ms. n_kind m = n_kind l \<and> n_commandId m = n_commandId l"
  shows "has_lanes seen ms"
  using assms unfolding has_lanes_def by metis

lemma update_first_frame:
  assumes "\<And>l. n_kind (f l) = n_kind l \<and> n_commandId (f l) = n_commandId l" "l \<in> set ls"
  shows "\<exists>m \<in> set (update_first p f ls). n_kind m = n_kind l \<and> n_commandId m = n_commandId l"
  using assms(2) by (induction ls) (auto simp: assms(1))

lemma has_lanes_update:
  "has_lanes seen ls \<Longrightarrow> (\<And>l. n_kind (f l) = n_kind l \<and> n_commandId (f l) = n_commandId l)
   \<Longrightarrow> has_lanes seen (update_first p f ls)"
  by (erule has_lanes_mono) (rule update_first_frame)

lemma has_lanes_append: "has_lanes seen ls \<Longrightarrow> has_lanes seen (ls @ ms)"
  by (auto simp: has_lanes_def)

lemma has_lanes_answer:
  assumes "has_lanes seen ls" "list_ex (\<lambda>c. strict_eq c (command_of e)) seen"
  shows "\<exists>l \<in> set ls. lane_of_command e l"
  using assms by (auto simp: has_lanes_def list_ex_iff lane_of_command_def)

lemma lane_step_counts:
  assumes lanes: "has_lanes seen ls" and answer: "answered seen [e]"
  shows "has_lanes (if has_kind ''ACTIVITY_SCHEDULED'' e then command_of e # seen else seen) (lane_step final ls e) \<and>
    marker_count ''retry'' (lane_step final ls e)
      = marker_count ''retry'' ls + (if has_kind ''ACTIVITY_RETRY_SCHEDULED'' e then 1 else 0) \<and>
    marker_count ''completed'' (lane_step final ls e)
      = marker_count ''completed'' ls + (if has_kind ''ACTIVITY_COMPLETED'' e then 1 else 0)"
proof -
  note has_kind_excl [simp]
  consider "has_kind ''ACTIVITY_SCHEDULED'' e" | "has_kind ''ACTIVITY_RETRY_SCHEDULED'' e"
    | "has_kind ''ACTIVITY_COMPLETED'' e" | "has_kind ''ACTIVITY_FAILED'' e"
    | "has_kind ''SIGNAL_RECEIVED'' e"
    | "\<not> has_kind ''ACTIVITY_SCHEDULED'' e" "\<not> has_kind ''ACTIVITY_RETRY_SCHEDULED'' e"
      "\<not> has_kind ''ACTIVITY_COMPLETED'' e" "\<not> has_kind ''ACTIVITY_FAILED'' e"
      "\<not> has_kind ''SIGNAL_RECEIVED'' e" by blast
  then show ?thesis
  proof cases
    case 1
    have "has_lanes (command_of e # seen) (ls @ [activity_lane final e])"
      using lanes by (auto simp: has_lanes_def activity_lane_def)
    with 1 show ?thesis by (simp add: lane_step_def)
  next
    case 2
    then have "\<exists>l \<in> set ls. lane_of_command e l" using has_lanes_answer [OF lanes] answer by simp
    with 2 lanes show ?thesis
      by (simp add: lane_step_def has_lanes_update marker_count_update [where n = 1] marker_count_same)
  next
    case 3
    then have "\<exists>l \<in> set ls. lane_of_command e l" using has_lanes_answer [OF lanes] answer by simp
    with 3 lanes show ?thesis
      by (simp add: lane_step_def has_lanes_update marker_count_update [where n = 1] marker_count_same)
  next
    case 4
    with lanes show ?thesis by (simp add: lane_step_def has_lanes_update marker_count_same)
  next
    case 5
    with lanes show ?thesis by (simp add: lane_step_def has_lanes_append)
  next
    case 6
    with lanes show ?thesis by (simp add: lane_step_def)
  qed
qed

lemma lanes_counts:
  assumes "has_lanes seen ls" "answered seen es"
  shows "marker_count ''retry'' (foldl (lane_step final) ls es)
      = marker_count ''retry'' ls + length (filter (has_kind ''ACTIVITY_RETRY_SCHEDULED'') es) \<and>
    marker_count ''completed'' (foldl (lane_step final) ls es)
      = marker_count ''completed'' ls + length (filter (has_kind ''ACTIVITY_COMPLETED'') es)"
  using assms
proof (induction es arbitrary: seen ls)
  case (Cons e es)
  define seen' where "seen' = (if has_kind ''ACTIVITY_SCHEDULED'' e then command_of e # seen else seen)"
  have "answered seen [e]" "answered seen' es" using Cons.prems(2) by (simp_all add: seen'_def)
  note step = lane_step_counts [OF Cons.prems(1) this(1), of final, folded seen'_def]
  with Cons.IH [of seen' "lane_step final ls e"] \<open>answered seen' es\<close> show ?case by simp
qed simp

definition entry_count :: "EntryKind \<Rightarrow> HistoryEntry list \<Rightarrow> nat" where
  "entry_count k hs = length (filter (\<lambda>h. he_kind h = k) hs)"

lemma compact_counts:
  "entry_count Recovered (CompactHistory br d)
     = length (filter (has_kind ''ACTIVITY_RETRY_SCHEDULED'') (wd_history d))"
  "entry_count ActivityDone (CompactHistory br d)
     = length (filter (has_kind ''ACTIVITY_COMPLETED'') (wd_history d))"
  by (simp_all add: entry_count_def CompactHistory_def Let_def recovered_entry_def done_entry_def
      filter_map o_def split: option.splits)

text \<open>
  C24. The two views of a run tell the same story: for every history in which retries and completions
  follow the scheduling of their command, however the commands interleave, the timeline has as many
  retry markers and as many completion markers as the compact history has entries for recovered and
  for completed activities.
\<close>

theorem compact_agrees_with_timeline:
  assumes "answered [] (wd_history d)"
  shows "marker_count ''retry'' (timelineLanes d) = entry_count Recovered (CompactHistory br d) \<and>
    marker_count ''completed'' (timelineLanes d) = entry_count ActivityDone (CompactHistory br d)"
proof -
  have "has_lanes [] [workflow_lane d]" by (simp add: has_lanes_def)
  from lanes_counts [OF this assms, of "last_time d"] show ?thesis
    by (simp add: compact_counts timelineLanes_def markers_of_def workflow_lane_def)
qed

lemma compact_agrees_with_timeline_witness:
  "marker_count ''retry'' (timelineLanes sample_run) = 1 \<and> marker_count ''completed'' (timelineLanes sample_run) = 1"
proof -
  have "answered [] (wd_history sample_run)"
    by (simp add: sample_run_def sample_event_def has_kind_def event_kind_def command_of_def data_field_def
        feq_def num_def)
  from compact_agrees_with_timeline [OF this] show ?thesis
    by (simp add: compact_counts sample_run_def sample_event_def has_kind_def event_kind_def)
qed

definition print_json :: Browser where
  "print_json = \<lparr> br_distance = num_str, br_compact = num_str, br_locale = num_str,
     br_lower = (\<lambda>s. s), br_datetime = num_str, br_json = js_string \<rparr>"

lemma json_panel_copies_shown_witness:
  "jp_shown (json_panel print_json (lit ''Result'') None) \<noteq> jp_copied (json_panel print_json (lit ''Result'') None)"
proof -
  have "br_json print_json JNull = lit ''null''" by (simp add: print_json_def)
  from json_panel_copies_shown [OF this] show ?thesis by simp
qed

end
