(* ===== verification/ConsoleDetail.thy ===== *)
theory ConsoleDetail
  imports ConsoleHistory
begin

text \<open>
  The detail pages of a run and of a streaming job, \<open>console/src/App.tsx\<close>: \<open>RunDetailPage\<close> and
  \<open>ProcessDetailPage\<close>, each as a machine over what happens to it (the page is given an identifier
  or a job, its timer fires, a reply arrives, in any order and however late) and as what it renders
  in each state; the compact and full history and the streaming trace.

  A request in flight is recorded by what its reply handler has closed over: the run's page
  applies every reply, the job's page only those of the effect that is still active.
\<close>

section \<open>The page of a run\<close>

record RunPage =
  rp_id :: jsstr
  rp_detail :: "WorkflowDetail option"
  rp_error :: jsstr
  rp_inflight :: "jsstr list"

datatype RunEvent = RunShown jsstr | RunReply jsstr "failure + WorkflowDetail"

text \<open>The effect of \<open>[credential, id]\<close>. (The credential cannot change while the page is mounted:
  without one the application renders the sign-in form instead.)\<close>

definition run_effect :: "jsstr \<Rightarrow> RunPage \<Rightarrow> RunPage" where
  "run_effect ident s =
     s\<lparr> rp_id := ident, rp_detail := None, rp_error := [], rp_inflight := rp_inflight s @ [ident] \<rparr>"

definition run_mount :: "jsstr \<Rightarrow> RunPage" where
  "run_mount ident =
     run_effect ident \<lparr> rp_id = ident, rp_detail = None, rp_error = [], rp_inflight = [] \<rparr>"

definition run_reply :: "jsstr \<Rightarrow> failure + WorkflowDetail \<Rightarrow> RunPage \<Rightarrow> RunPage" where
  "run_reply engine outcome s =
     (case outcome of Inr d \<Rightarrow> s\<lparr> rp_detail := Some d \<rparr>
      | Inl f \<Rightarrow> s\<lparr> rp_error := (case f of ApiError m st \<Rightarrow> m | TypeError \<Rightarrow> engine) \<rparr>)"

fun run_step :: "jsstr \<Rightarrow> RunPage \<Rightarrow> RunEvent \<Rightarrow> RunPage" where
  "run_step engine s (RunShown ident) = (if ident = rp_id s then s else run_effect ident s)"
| "run_step engine s (RunReply ident outcome) =
     (if ident \<in> set (rp_inflight s)
      then run_reply engine outcome (s\<lparr> rp_inflight := remove1 ident (rp_inflight s) \<rparr>) else s)"

definition run_page :: "jsstr \<Rightarrow> jsstr \<Rightarrow> RunEvent list \<Rightarrow> RunPage" where
  "run_page engine ident es = foldl (run_step engine) (run_mount ident) es"

subsection \<open>What it renders\<close>

record RunView =
  rv_title :: jsstr
  rv_id :: jsstr
  rv_badge :: BadgeView
  rv_duration :: jsstr
  rv_retries :: jsstr
  rv_history_events :: jsstr
  rv_queue :: jsstr
  rv_panels :: "JsonPanel list"
  rv_tabs :: "jsstr list"

datatype RunScreen = RunLoading | RunFailed jsstr | RunReady RunView

text \<open>\<open>started?.data.args ?? []\<close>\<close>

definition run_inputs :: "WorkflowDetail \<Rightarrow> json" where
  "run_inputs d =
     (case List.find (has_kind ''WORKFLOW_STARTED'') (wd_history d) of
        None \<Rightarrow> JArr []
      | Some e \<Rightarrow> (case data_field e ''args'' of None \<Rightarrow> JArr [] | Some v \<Rightarrow> if v = JNull then JArr [] else v))"

definition run_view :: "Browser \<Rightarrow> WorkflowDetail \<Rightarrow> RunView" where
  "run_view br d =
     (let w = wd_workflow d in
      \<lparr> rv_title = w_workflow_type w, rv_id = w_workflow_id w,
        rv_badge = \<lparr> bv_status = w_status w, bv_text = title (br_lower br (w_status w)) \<rparr>,
        rv_duration = duration (w_duration_seconds w), rv_retries = num_str (w_retries w),
        rv_history_events = num_str (w_history_events w),
        rv_queue = (if w_task_queue w = [] then lit ''default'' else w_task_queue w),
        rv_panels = [json_panel br (lit ''Input'') (Some (run_inputs d)),
          json_panel br (lit ''Result'') (w_result w)],
        rv_tabs = [lit ''compact'', lit ''timeline'', lit ''full'']
          @ (if wd_trace d = None then [] else [lit ''trace'']) \<rparr>)"

definition run_screen :: "Browser \<Rightarrow> RunPage \<Rightarrow> RunScreen" where
  "run_screen br s =
     (if rp_detail s = None \<and> rp_error s = [] then RunLoading
      else if rp_error s \<noteq> [] then RunFailed (rp_error s)
      else RunReady (run_view br (the (rp_detail s))))"

subsection \<open>Which run it shows\<close>

text \<open>The server answers a request for a run with that run.\<close>

fun honest_run :: "RunEvent \<Rightarrow> bool" where
  "honest_run (RunReply ident (Inr d)) = (w_workflow_id (wd_workflow d) = ident)"
| "honest_run _ = True"

text \<open>The user goes to another run only when no request is in flight.\<close>

fun patient :: "jsstr \<Rightarrow> RunPage \<Rightarrow> RunEvent list \<Rightarrow> bool" where
  "patient engine s [] = True"
| "patient engine s (e # es) =
     ((case e of RunShown ident \<Rightarrow> ident = rp_id s \<or> rp_inflight s = [] | _ \<Rightarrow> True)
      \<and> patient engine (run_step engine s e) es)"

definition own_run :: "RunPage \<Rightarrow> bool" where
  "own_run s \<longleftrightarrow> (\<forall>i \<in> set (rp_inflight s). rp_id s = i)
     \<and> (\<forall>d. rp_detail s = Some d \<longrightarrow> w_workflow_id (wd_workflow d) = rp_id s)"

lemma own_run_step:
  assumes "own_run s" "honest_run e"
    and "case e of RunShown ident \<Rightarrow> ident = rp_id s \<or> rp_inflight s = [] | _ \<Rightarrow> True"
  shows "own_run (run_step engine s e)"
proof (cases e)
  case (RunShown ident)
  with assms show ?thesis by (auto simp: own_run_def run_effect_def)
next
  case (RunReply ident outcome)
  have own: "\<forall>i \<in> set (remove1 ident (rp_inflight s)). rp_id s = i"
    using assms(1) unfolding own_run_def by (blast dest: in_remove1)
  have shown: "\<forall>d. rp_detail s = Some d \<longrightarrow> w_workflow_id (wd_workflow d) = rp_id s"
    using assms(1) unfolding own_run_def by blast
  show ?thesis
  proof (cases "ident \<in> set (rp_inflight s)")
    case True
    then have "rp_id s = ident" using assms(1) unfolding own_run_def by blast
    with RunReply assms(2) own shown True show ?thesis
      by (cases outcome) (simp_all add: own_run_def run_reply_def)
  next
    case False
    with RunReply assms(1) show ?thesis by simp
  qed
qed

lemma own_run_fold: "own_run s \<Longrightarrow> list_all honest_run es \<Longrightarrow> patient engine s es
    \<Longrightarrow> own_run (foldl (run_step engine) s es)"
  by (induction es arbitrary: s) (simp_all add: own_run_step)

text \<open>
  C35. When the user goes from one run to another only with no reply outstanding, the page never
  shows a run other than the one in the address: what is rendered is loading, an error, or the view
  of a reply for the current identifier, over every sequence of navigations and replies.
\<close>

theorem run_page_own:
  assumes "list_all honest_run es" "patient engine (run_mount ident) es"
    and "run_screen br (run_page engine ident es) = RunReady v"
  shows "rv_id v = rp_id (run_page engine ident es)"
proof -
  have "own_run (run_page engine ident es)"
    unfolding run_page_def
    by (rule own_run_fold [OF _ assms(1,2)]) (simp add: own_run_def run_mount_def run_effect_def)
  with assms(3) show ?thesis
    by (auto simp: run_screen_def own_run_def run_view_def Let_def split: if_splits)
qed

text \<open>
  Without that patience it can: the effect is not cancelled when the identifier changes, so when
  the reply for the run that was left arrives after the one for the run that is shown, the page of
  the latter displays the former (and a late failure replaces it by an error message).
\<close>

theorem run_page_shows_stale_reply:
  assumes "left \<noteq> shown" "w_workflow_id (wd_workflow old) = left" "w_workflow_id (wd_workflow new) = shown"
    and late: "late = run_page engine left [RunShown shown, RunReply shown (Inr new), RunReply left (Inr old)]"
  shows "rp_id late = shown \<and> rp_inflight late = [] \<and>
    run_screen br late = RunReady (run_view br old) \<and> rv_id (run_view br old) \<noteq> rp_id late"
  using assms by (simp add: run_page_def run_mount_def run_effect_def run_reply_def run_screen_def
      run_view_def Let_def)

section \<open>The page of a streaming job\<close>

record ProcessPage =
  pp_process :: "Process option"
  pp_effect :: nat
  pp_detail :: "ProcessDetail option"
  pp_error :: jsstr
  pp_inflight :: "(nat \<times> jsstr) list"

text \<open>
  \<open>ProcessShown\<close> is a render whose \<open>process\<close> is another object than before (each refresh of the
  overview makes new ones): the cleanup of the old effect clears its timer and its \<open>active\<close> flag, and
  the effect runs again under the next number. \<open>ProcessTick\<close> is the timer of the active effect.
\<close>

datatype ProcessEvent =
    ProcessShown "Process option"
  | ProcessTick
  | ProcessReply nat jsstr "failure + ProcessDetail"

definition load_detail :: "ProcessPage \<Rightarrow> ProcessPage" where
  "load_detail s =
     (case pp_process s of None \<Rightarrow> s
      | Some p \<Rightarrow> s\<lparr> pp_inflight := pp_inflight s @ [(pp_effect s, p_process_id p)] \<rparr>)"

definition process_effect :: "Process option \<Rightarrow> ProcessPage \<Rightarrow> ProcessPage" where
  "process_effect p s = load_detail (s\<lparr> pp_process := p, pp_effect := Suc (pp_effect s) \<rparr>)"

definition process_mount :: "Process option \<Rightarrow> ProcessPage" where
  "process_mount p = process_effect p
     \<lparr> pp_process = p, pp_effect = 0, pp_detail = None, pp_error = [], pp_inflight = [] \<rparr>"

definition process_reply :: "jsstr \<Rightarrow> failure + ProcessDetail \<Rightarrow> ProcessPage \<Rightarrow> ProcessPage" where
  "process_reply engine outcome s =
     (case outcome of Inr d \<Rightarrow> s\<lparr> pp_detail := Some d, pp_error := [] \<rparr>
      | Inl f \<Rightarrow> s\<lparr> pp_error := (case f of ApiError m st \<Rightarrow> m | TypeError \<Rightarrow> engine) \<rparr>)"

fun process_step :: "jsstr \<Rightarrow> ProcessPage \<Rightarrow> ProcessEvent \<Rightarrow> ProcessPage" where
  "process_step engine s (ProcessShown p) = process_effect p s"
| "process_step engine s ProcessTick = load_detail s"
| "process_step engine s (ProcessReply k ident outcome) =
     (if (k, ident) \<notin> set (pp_inflight s) then s
      else (let s = s\<lparr> pp_inflight := remove1 (k, ident) (pp_inflight s) \<rparr>
            in if k = pp_effect s then process_reply engine outcome s else s))"

definition process_page :: "jsstr \<Rightarrow> Process option \<Rightarrow> ProcessEvent list \<Rightarrow> ProcessPage" where
  "process_page engine p es = foldl (process_step engine) (process_mount p) es"

subsection \<open>What it renders\<close>

record ProcessView =
  pv_id :: jsstr
  pv_type :: jsstr
  pv_badge :: BadgeView
  pv_status :: jsstr
  pv_counts :: "jsstr list"
  pv_error :: jsstr
  pv_loading :: bool
  pv_no_output :: bool
  pv_outputs :: "(jsstr \<times> jsstr) list"
  pv_events :: "(BadgeView \<times> jsstr \<times> jsstr \<times> jsstr option) list"
  pv_controls :: "(jsstr \<times> jsstr) list"

datatype ProcessScreen = JobNotFound | JobView ProcessView

definition event_view :: "Browser \<Rightarrow> SystemEvent \<Rightarrow> BadgeView \<times> jsstr \<times> jsstr \<times> jsstr option" where
  "event_view br e =
     (\<lparr> bv_status = y_level e, bv_text = title (y_type e) \<rparr>,
      relativeTime (br_distance br) (Some (y_created_at e)), y_message e,
      map_option (\<lambda>fs. br_json br (JObj fs)) (y_data e))"

text \<open>\<open>retry_concurrency\<close> and \<open>quarantined\<close> are read with a method call, which throws when an answer
  omits them.\<close>

definition job_controls :: "Browser \<Rightarrow> Process \<Rightarrow> (jsstr \<times> jsstr) list option" where
  "job_controls br p =
     (case (p_retry_concurrency p, p_quarantined p) of
        (Some slots, Some quarantined) \<Rightarrow> Some
          [(br_locale br (p_max_concurrent_keys p) @ lit '' keys'',
            br_locale br slots @ lit '' isolated retry slots''),
           (br_locale br (used_slots p) @ lit '' / '' @ br_locale br (p_mailbox_capacity p),
            br_locale br quarantined @ lit '' quarantined''),
           (num_str (p_max_attempts p) @ lit '' attempts'',
            br_locale br (or_zero (p_retrying p)) @ lit '' retrying now'')]
      | _ \<Rightarrow> None)"

definition process_screen :: "Browser \<Rightarrow> ProcessPage \<Rightarrow> ProcessScreen option" where
  "process_screen br s =
     (case pp_process s of
        None \<Rightarrow> Some JobNotFound
      | Some p \<Rightarrow> map_option (\<lambda>controls. JobView
          \<lparr> pv_id = p_process_id p, pv_type = p_workflow_type p, pv_badge = job_badge p,
            pv_status = (if p_status p = lit ''ACTIVE'' then lit ''Continuously running''
                         else title (p_status p)),
            pv_counts = map (br_locale br) [p_completed p, p_running p, p_pending p, p_failed p],
            pv_error = pp_error s, pv_loading = (pp_detail s = None \<and> pp_error s = []),
            pv_no_output = (case pp_detail s of None \<Rightarrow> False | Some d \<Rightarrow> pd_outputs d = []),
            pv_outputs = (case pp_detail s of None \<Rightarrow> []
              | Some d \<Rightarrow> map (\<lambda>(key, v). (key, br_json br v)) (pd_outputs d)),
            pv_events = (case pp_detail s of None \<Rightarrow> []
              | Some d \<Rightarrow> map (event_view br) (pd_system_events d)),
            pv_controls = controls \<rparr>) (job_controls br p))"

subsection \<open>Which job it shows\<close>

fun honest_job :: "ProcessEvent \<Rightarrow> bool" where
  "honest_job (ProcessReply k ident (Inr d)) = (pd_process_id d = ident)"
| "honest_job _ = True"

text \<open>Requests of the active effect are for the job that is shown; there are none for no job.\<close>

definition own_requests :: "ProcessPage \<Rightarrow> bool" where
  "own_requests s \<longleftrightarrow> (\<forall>(k, ident) \<in> set (pp_inflight s). k \<le> pp_effect s
     \<and> (k = pp_effect s \<longrightarrow> (\<exists>p. pp_process s = Some p \<and> p_process_id p = ident)))"

lemma own_requests_effect: "own_requests s \<Longrightarrow> own_requests (process_effect p s)"
  by (cases p) (auto simp: own_requests_def process_effect_def load_detail_def)

lemma own_requests_load: "own_requests s \<Longrightarrow> own_requests (load_detail s)"
  by (cases "pp_process s") (auto simp: own_requests_def load_detail_def)

lemma own_requests_mount: "own_requests (process_mount p)"
  unfolding process_mount_def by (rule own_requests_effect) (simp add: own_requests_def)

lemma own_requests_reply: "own_requests s \<Longrightarrow> own_requests (process_step engine s (ProcessReply k ident outcome))"
  by (cases outcome) (auto simp: own_requests_def process_reply_def Let_def dest: in_remove1)

interpretation job_page: machine "\<lambda>s. \<exists>p. s = process_mount p" "process_step engine" "\<lambda>_. True" own_requests
  for engine
proof unfold_locales
  fix s e assume "own_requests s"
  then show "own_requests (process_step engine s e)"
    by (cases e) (simp_all add: own_requests_effect own_requests_load own_requests_reply del: process_step.simps(3))
qed (auto simp: own_requests_mount)

lemma process_page_inv: "own_requests (process_page engine p es)"
  unfolding process_page_def by (rule job_page.run_inv) (auto simp: list_all_iff)

text \<open>
  C26. The cancellation of the job's page is complete: after any sequence of renders, ticks and
  replies, a reply that changes the output or the error shown belongs to the job that is shown, and
  a reply of an effect that was cleaned up changes neither.
\<close>

theorem process_reply_own:
  assumes "s = process_page engine first es" "t = process_step engine s (ProcessReply k ident outcome)"
    and "honest_job (ProcessReply k ident outcome)"
  shows "(k < pp_effect s \<longrightarrow> pp_detail t = pp_detail s \<and> pp_error t = pp_error s) \<and>
    (pp_detail t \<noteq> pp_detail s \<or> pp_error t \<noteq> pp_error s \<longrightarrow>
       (\<exists>p. pp_process t = Some p \<and> p_process_id p = ident)) \<and>
    (pp_detail t \<noteq> pp_detail s \<longrightarrow>
       (\<exists>p d. pp_process t = Some p \<and> pp_detail t = Some d \<and> pd_process_id d = p_process_id p \<and> pp_error t = []))"
proof (cases "(k, ident) \<in> set (pp_inflight s) \<and> k = pp_effect s")
  case True
  with process_page_inv [of engine first es] obtain p where p: "pp_process s = Some p" "p_process_id p = ident"
    by (auto simp: own_requests_def assms(1))
  with True assms(2,3) show ?thesis by (cases outcome) (auto simp: process_reply_def)
next
  case False
  then show ?thesis using assms(2) by auto
qed

text \<open>
  The output is not cleared when the page is given another job: until the first reply for it, it
  is shown with the output of the job before, and for as long as the requests fail.
\<close>

theorem process_page_keeps_old_output:
  assumes "pp_detail s = Some d" "pd_process_id d \<noteq> p_process_id q"
    and "process_screen br (foldl (process_step engine) s (ProcessShown (Some q) # replicate n ProcessTick)) = Some (JobView v)"
  shows "pv_id v = p_process_id q \<and> \<not> pv_loading v \<and>
    pv_outputs v = map (\<lambda>(key, x). (key, br_json br x)) (pd_outputs d)"
proof -
  have ticks: "pp_process (foldl (process_step engine) t (replicate n ProcessTick)) = pp_process t
      \<and> pp_detail (foldl (process_step engine) t (replicate n ProcessTick)) = pp_detail t" for t
    by (induction n arbitrary: t) (auto simp: load_detail_def split: option.splits)
  then show ?thesis using assms
    by (auto simp: process_screen_def process_effect_def load_detail_def)
qed

section \<open>Examples\<close>

definition detail_of :: "string \<Rightarrow> WorkflowDetail" where
  "detail_of ident = sample_run\<lparr> wd_workflow := (wd_workflow sample_run)\<lparr> w_workflow_id := lit ident \<rparr> \<rparr>"

lemma detail_of_id [simp]: "w_workflow_id (wd_workflow (detail_of ident)) = lit ident"
  by (simp add: detail_of_def)

lemma run_page_own_witness:
  "rv_id (run_view print_json (detail_of ''b'')) = rp_id (run_page [] (lit ''a'')
     [RunReply (lit ''a'') (Inr (detail_of ''a'')), RunShown (lit ''b''), RunReply (lit ''b'') (Inr (detail_of ''b''))])"
  by (rule run_page_own [where br = print_json])
     (simp_all add: run_mount_def run_effect_def run_reply_def run_page_def run_screen_def)

lemma run_page_shows_stale_reply_witness:
  "rv_id (run_view print_json (detail_of ''a'')) \<noteq> rp_id (run_page [] (lit ''a'')
     [RunShown (lit ''b''), RunReply (lit ''b'') (Inr (detail_of ''b'')), RunReply (lit ''a'') (Inr (detail_of ''a''))])"
proof -
  have "lit ''a'' \<noteq> lit ''b''" by simp
  from run_page_shows_stale_reply [OF this detail_of_id detail_of_id refl, where br = print_json and engine = "[]"]
  show ?thesis by blast
qed

definition output_of :: "string \<Rightarrow> ProcessDetail" where
  "output_of ident = \<lparr> pd_process_id = lit ident, pd_outputs = [(lit ''k'', JNum (num 7))], pd_system_events = [] \<rparr>"

definition full_job :: "string \<Rightarrow> Process" where
  "full_job ident = (sample_job ident 3)\<lparr> p_quarantined := Some (num 0), p_retry_concurrency := Some (num 2) \<rparr>"

lemma process_reply_own_witness:
  "pp_detail (process_step [] (process_page [] (Some (full_job ''a'')) [ProcessShown (Some (full_job ''b''))])
     (ProcessReply 1 (lit ''a'') (Inr (output_of ''a'')))) = None"
proof -
  let ?s = "process_page [] (Some (full_job ''a'')) [ProcessShown (Some (full_job ''b''))]"
  have "1 < pp_effect ?s" "pp_detail ?s = None"
    by (simp_all add: process_page_def process_mount_def process_effect_def load_detail_def)
  with process_reply_own [OF refl refl, of 1 "lit ''a''" "Inr (output_of ''a'')" "[]" "Some (full_job ''a'')"
      "[ProcessShown (Some (full_job ''b''))]"]
  show ?thesis by (simp add: output_of_def)
qed

lemma process_page_keeps_old_output_witness:
  "\<exists>v. process_screen print_json (process_step []
      (process_page [] (Some (full_job ''a'')) [ProcessReply 1 (lit ''a'') (Inr (output_of ''a''))])
      (ProcessShown (Some (full_job ''b'')))) = Some (JobView v)
    \<and> pv_id v = lit ''b'' \<and> pv_outputs v = [(lit ''k'', js_string (JNum (num 7)))]"
proof -
  let ?s = "process_page [] (Some (full_job ''a'')) [ProcessReply 1 (lit ''a'') (Inr (output_of ''a''))]"
  have d: "pp_detail ?s = Some (output_of ''a'')"
    by (simp add: process_page_def process_mount_def process_effect_def load_detail_def process_reply_def
        full_job_def sample_job_def)
  have job: "p_process_id (full_job ''b'') = lit ''b''" by (simp add: full_job_def sample_job_def)
  obtain v where v: "process_screen print_json (process_step [] ?s (ProcessShown (Some (full_job ''b''))))
      = Some (JobView v)"
    by (auto simp: process_screen_def process_effect_def load_detail_def job_controls_def full_job_def)
  with process_page_keeps_old_output [OF d, where q = "full_job ''b''" and n = 0 and br = print_json and v = v
      and engine = "[]"]
  show ?thesis by (auto simp: job output_of_def print_json_def)
qed

end
