(* ===== verification/ConsoleShell.thy ===== *)
theory ConsoleShell
  imports ConsoleDetail ConsoleSession
begin

text \<open>
  What holds the console's pages together, \<open>console/src/App.tsx\<close>: the frame with its navigation and
  sidebar (\<open>Shell\<close>), the choice of the page from the address (the end of \<open>App\<close>), the quickstart and
  its command boxes. It composes the navigation, the session, the pages and the detail pages.
\<close>

section \<open>The frame\<close>

record ShellView =
  sv_sidebar :: jsstr
  sv_nav :: "(Page \<times> jsstr \<times> bool) list"
  sv_quickstart :: bool
  sv_scrim :: bool
  sv_cluster :: "jsstr \<times> jsstr"

definition Shell :: "Page \<Rightarrow> bool \<Rightarrow> bool \<Rightarrow> ShellView" where
  "Shell page online sidebarOpen =
     \<lparr> sv_sidebar = (if sidebarOpen then lit ''sidebar open'' else lit ''sidebar''),
       sv_nav = map (\<lambda>(ident, lab). (ident, lab, page = ident)) nav,
       sv_quickstart = (page = PQuickstart), sv_scrim = sidebarOpen,
       sv_cluster = (if online then (lit ''online'', lit ''Console connected'')
                     else (lit ''offline'', lit ''Connection interrupted'')) \<rparr>"

text \<open>The buttons of the frame, over the history of locations and the state of the sidebar.\<close>

datatype ShellEvent = MenuButton | CloseButton | Scrim | NavButton Page | QuickstartButton | Wordmark

fun shell_step :: "parser \<Rightarrow> history \<times> bool \<Rightarrow> ShellEvent \<Rightarrow> history \<times> bool" where
  "shell_step parse (h, sidebar) MenuButton = (h, True)"
| "shell_step parse (h, sidebar) CloseButton = (h, False)"
| "shell_step parse (h, sidebar) Scrim = (h, False)"
| "shell_step parse (h, sidebar) (NavButton p) = (setPage parse p h, False)"
| "shell_step parse (h, sidebar) QuickstartButton = (setPage parse PQuickstart h, sidebar)"
| "shell_step parse (h, sidebar) Wordmark = (setPage parse POverview h, sidebar)"

section \<open>The page that is rendered\<close>

datatype Content =
    COverview
  | CRun jsstr
  | CRuns
  | CStreams
  | COperators
  | CProcess "Process option"
  | CProcesses
  | CQuickstart

definition shown :: "bool \<Rightarrow> Content \<Rightarrow> Content list" where
  "shown c x = (if c then [x] else [])"

definition content :: "Overview \<Rightarrow> Location \<Rightarrow> Content list" where
  "content data l =
     (let page = pageFromPath (l_pathname l); run = selectedRun l; process = selectedProcess l
      in shown (page = POverview) COverview
         @ (case run of Some ident \<Rightarrow> shown (page = PRuns) (CRun ident) | None \<Rightarrow> [])
         @ shown (page = PRuns \<and> run = None) CRuns
         @ shown (page = PStreams) CStreams
         @ shown (page = POperators) COperators
         @ (case process of
              Some ident \<Rightarrow> shown (page = PProcesses)
                (CProcess (List.find (\<lambda>p. p_process_id p = ident) (ov_processes data)))
            | None \<Rightarrow> [])
         @ shown (page = PProcesses \<and> process = None) CProcesses
         @ shown (page = PQuickstart) CQuickstart)"

text \<open>Above the page: the banner of the connection error, and the line that says how fresh the data is.\<close>

record Status =
  su_banner :: "jsstr option"
  su_live :: jsstr
  su_class :: jsstr
  su_refresh_disabled :: bool

definition status_line :: "Browser \<Rightarrow> App \<Rightarrow> Status option" where
  "status_line br s =
     map_option (\<lambda>data.
       \<lparr> su_banner = (if a_error s = [] then None else Some (a_error s)),
         su_live = (if a_error s \<noteq> [] then lit ''Disconnected''
                    else lit ''Live'' @ middle_dot @ lit ''updated ''
                      @ relativeTime (br_distance br) (Some (ov_generated_at data))),
         su_class = (if a_error s = [] then lit ''online'' else lit ''offline''),
         su_refresh_disabled = a_refreshing s \<rparr>) (a_data s)"

text \<open>What the buttons of the pages do: \<open>None\<close> is the error of an identifier that cannot be encoded.\<close>

fun follow :: "parser \<Rightarrow> Target \<Rightarrow> history \<Rightarrow> history option" where
  "follow parse (OpenRun ident) h = openRun parse ident h"
| "follow parse (OpenProcess ident) h = openProcess parse ident h"
| "follow parse (GoTo p) h = Some (setPage parse p h)"

section \<open>Quickstart\<close>

record CommandBox =
  cb_shown :: jsstr
  cb_copied :: jsstr
  cb_toast :: jsstr

definition command_box :: "jsstr \<Rightarrow> CommandBox" where
  "command_box command = \<lparr> cb_shown = lit ''$ '' @ command, cb_copied = command, cb_toast = lit ''Command copied'' \<rparr>"

definition commandExamples :: "(string \<times> string \<times> string) list" where
  "commandExamples =
     [(''Temporal join with retry'', ''highwater example run temporal-order'',
       ''Versioned enrichment, event-time gating, and an activity retry''),
      (''Keyed account balances'', ''highwater example run account-balance'',
       ''Per-key isolation with durable ordered processing''),
      (''Durable order'', ''highwater example run order'', ''A compact durable execution example'')]"

definition QuickstartPage :: "CommandBox list list" where
  "QuickstartPage =
     [[command_box (lit ''brew install henneberger/tap/highwater'')],
      [command_box (lit ''export HIGHWATER_ADDRESS=https://api.highwater.cloud''),
       command_box (lit ''export HIGHWATER_API_KEY=...'')],
      map (\<lambda>(lab, command, detail). command_box (lit command)) commandExamples]"

section \<open>Properties\<close>

lemma selected_page:
  "selectedRun l \<noteq> None \<Longrightarrow> pageFromPath (l_pathname l) = PRuns"
  "selectedProcess l \<noteq> None \<Longrightarrow> pageFromPath (l_pathname l) = PProcesses"
  using detail_pages by (auto simp: selectedRun_def selectedProcess_def split: if_splits)

text \<open>
  For every address exactly one page is rendered, and the navigation highlights exactly one entry
  (the quickstart's counts); a detail page is rendered exactly when the address
  selects a run or a job, and a job that is not in the overview is reported as not found.
\<close>

theorem one_page_rendered:
  "length (content data l) = 1 \<and>
   ((\<exists>ident. content data l = [CRun ident]) \<longleftrightarrow> selectedRun l \<noteq> None) \<and>
   ((\<exists>p. content data l = [CProcess p]) \<longleftrightarrow> selectedProcess l \<noteq> None) \<and>
   length (filter (snd \<circ> snd) (sv_nav (Shell (pageFromPath (l_pathname l)) online sidebar)))
     + (if sv_quickstart (Shell (pageFromPath (l_pathname l)) online sidebar) then 1 else 0) = 1"
proof (cases "selectedRun l"; cases "selectedProcess l")
  fix a b assume "selectedRun l = Some a" "selectedProcess l = Some b"
  then show ?thesis using selected_page [of l] by simp
qed (use selected_page [of l] in
  \<open>cases "pageFromPath (l_pathname l)"; simp add: content_def shown_def Let_def Shell_def nav_def\<close>)+

text \<open>The links of the pages, each with the identifier that it shows.\<close>

definition links :: "('r \<Rightarrow> jsstr) \<Rightarrow> ('r \<Rightarrow> Target) \<Rightarrow> 'r list \<Rightarrow> (jsstr \<times> Target) list" where
  "links ident to rows = map (\<lambda>r. (ident r, to r)) rows"

text \<open>A click on the link renders the page of the job, found in the overview, or of the run that it shows.\<close>

definition leads_to_job :: "parser \<Rightarrow> Overview \<Rightarrow> history \<Rightarrow> jsstr \<times> Target \<Rightarrow> bool" where
  "leads_to_job parse data h = (\<lambda>(ident, t). \<exists>l q. follow parse t h = Some (l # h) \<and> content data l = [CProcess (Some q)]
     \<and> q \<in> set (ov_processes data) \<and> p_process_id q = ident)"

definition leads_to_run :: "parser \<Rightarrow> Overview \<Rightarrow> history \<Rightarrow> jsstr \<times> Target \<Rightarrow> bool" where
  "leads_to_run parse data h = (\<lambda>(ident, t). \<exists>l. follow parse t h = Some (l # h) \<and> content data l = [CRun ident])"

definition linkable :: "jsstr \<Rightarrow> bool" where
  "linkable ident \<longleftrightarrow> ident \<noteq> [] \<and> code_points ident \<noteq> None"

lemma job_link:
  assumes "splits_query parse" "p \<in> set (ov_processes data)" "linkable (p_process_id p)"
  shows "leads_to_job parse data h (p_process_id p, OpenProcess (p_process_id p))"
proof -
  let ?job = "List.find (\<lambda>q. p_process_id q = p_process_id p) (ov_processes data)"
  obtain q where q: "?job = Some q" "q \<in> set (ov_processes data)" "p_process_id q = p_process_id p"
    using assms(2) by (cases ?job) (auto simp: find_None_iff find_Some_iff)
  show ?thesis
    using opened_process [OF assms(1), of "p_process_id p" h] assms(3) q
    by (auto simp: leads_to_job_def linkable_def content_def shown_def)
qed

lemma run_link: "splits_query parse \<Longrightarrow> linkable ident \<Longrightarrow> leads_to_run parse data h (ident, OpenRun ident)"
  using opened_run [of parse ident h] by (auto simp: leads_to_run_def linkable_def content_def shown_def)

text \<open>The rows of a table of runs: the jobs first, then the runs.\<close>

definition job_rows :: "Overview \<Rightarrow> RunsTableView \<Rightarrow> RunRow list" where
  "job_rows data t = take (length (ov_processes data)) (rt_rows t)"

definition run_rows :: "Overview \<Rightarrow> RunsTableView \<Rightarrow> RunRow list" where
  "run_rows data t = drop (length (ov_processes data)) (rt_rows t)"

lemma table_links:
  assumes "t = RunsTable br runs (ov_processes data) c"
  shows "links rr_id rr_target (job_rows data t) = map (\<lambda>p. (p_process_id p, OpenProcess (p_process_id p))) (ov_processes data)"
    and "links rr_id rr_target (run_rows data t) = map (\<lambda>w. (w_workflow_id w, OpenRun (w_workflow_id w))) runs"
  by (simp_all add: assms RunsTable_def job_rows_def run_rows_def links_def job_row_def run_row_def)

lemma job_links:
  "links j_id j_target (StreamingJobsPanel br ps) = map (\<lambda>p. (p_process_id p, OpenProcess (p_process_id p))) (by_completed ps)"
  "links pc_id pc_target (fst (ProcessesPage ps)) = map (\<lambda>p. (p_process_id p, OpenProcess (p_process_id p))) (by_completed ps)"
  by (simp_all add: links_def StreamingJobsPanel_def ProcessesPage_def process_card_def)

lemma overview_links:
  assumes "OverviewPage br data rate = Some v"
  shows "vw_jobs v = StreamingJobsPanel br (ov_processes data)"
    and "vw_recent v = RunsTable br (take 7 (ov_workflows data)) (ov_processes data) True"
    and "links rc_id rc_target (vw_attention v @ vw_recovered v) = map (\<lambda>w. (w_workflow_id w, OpenRun (w_workflow_id w)))
      (take 4 (filter failed_run (ov_workflows data)) @ take 4 (filter recovered_run (ov_workflows data)))"
  using assms by (auto simp: OverviewPage_def Let_def links_def failed_card_def recovered_card_def split: option.splits)

lemma all_job_links:
  assumes "splits_query parse" "\<forall>p \<in> set (ov_processes data). linkable (p_process_id p)" "set ps \<subseteq> set (ov_processes data)"
  shows "list_all (leads_to_job parse data h) (map (\<lambda>p. (p_process_id p, OpenProcess (p_process_id p))) ps)"
  using assms job_link by (fastforce simp: list_all_iff)

lemma all_run_links:
  assumes "splits_query parse" "\<forall>w \<in> set (ov_workflows data). linkable (w_workflow_id w)" "set ws \<subseteq> set (ov_workflows data)"
  shows "list_all (leads_to_run parse data h) (map (\<lambda>w. (w_workflow_id w, OpenRun (w_workflow_id w))) ws)"
  using assms run_link by (fastforce simp: list_all_iff)

text \<open>
  C25. Every link to a job or a run leads to it, on every page, when the identifiers are not empty and can be
  encoded. A click on a streaming job renders the page of the very job that the link names, found in the
  overview by its identifier: in the panel and the table of the overview, in the table of runs under any
  search and on the processes page, each of which shows every job. A click on a run renders the page of that run: in both tables, on the
  cards of failed and of recovered runs, and on an operator's card, whose \<open>Trace\<close> button opens the
  operator's latest execution, when it has one.
\<close>

theorem links_lead_to_details:
  assumes "splits_query parse" and "\<forall>p \<in> set (ov_processes data). linkable (p_process_id p)"
    and "\<forall>w \<in> set (ov_workflows data). linkable (w_workflow_id w)"
    and "\<forall>x \<in> set (ov_operators data). pred_option (\<lambda>i. i = [] \<or> linkable i) (o_latest_workflow_id x)"
    and "OverviewPage br data rate = Some v"
  shows "let tables = [vw_recent v, rg_table (RunsPage br query status data)];
      job_lists = [links j_id j_target (vw_jobs v), links pc_id pc_target (fst (ProcessesPage (ov_processes data)))]
        @ map (links rr_id rr_target \<circ> job_rows data) tables
    in list_all (list_all (leads_to_job parse data h)) job_lists
      \<and> list_all (\<lambda>ls. mset (map fst ls) = mset (map p_process_id (ov_processes data))) job_lists
      \<and> list_all (list_all (leads_to_run parse data h))
          (links rc_id rc_target (vw_attention v @ vw_recovered v) # map (links rr_id rr_target \<circ> run_rows data) tables)
      \<and> list_all (\<lambda>x. case (o_latest_workflow_id x, oc_trace (operator_card br x)) of
            (None, t) \<Rightarrow> t = None | (Some i, None) \<Rightarrow> i = [] | (Some i, Some t) \<Rightarrow> leads_to_run parse data h (i, t))
          (ov_operators data)"
proof -
  have tables: "vw_recent v = RunsTable br (take 7 (ov_workflows data)) (ov_processes data) True"
    "rg_table (RunsPage br query status data) = RunsTable br (matching_runs br query status (ov_workflows data)) (ov_processes data) False"
    using overview_links(2) [OF assms(5)] by (simp_all add: RunsPage_def Let_def)
  note shown = overview_links(1,3) [OF assms(5)] job_links table_links [OF tables(1)] table_links [OF tables(2)]
  have completed: "mset (by_completed ps) = mset ps" for ps by (simp add: by_completed_def)
  have runs: "set (take n (filter P (ov_workflows data))) \<subseteq> set (ov_workflows data)" for n P
    using set_take_subset [of n "filter P (ov_workflows data)"] by auto
  have "list_all (leads_to_run parse data h)
      (links rc_id rc_target (vw_attention v @ vw_recovered v) @ links rr_id rr_target (run_rows data (vw_recent v))
       @ links rr_id rr_target (run_rows data (rg_table (RunsPage br query status data))))"
    unfolding shown using runs set_take_subset [of 7 "ov_workflows data"]
    by (simp only: map_append [symmetric], intro all_run_links [OF assms(1,3)]) (auto simp: matching_runs_def dest: in_set_takeD)
  moreover have "leads_to_run parse data h (i, OpenRun i)" if "x \<in> set (ov_operators data)" "o_latest_workflow_id x = Some i" "i \<noteq> []" for x i
    using that assms(4) by (intro run_link [OF assms(1)]) fastforce
  ultimately show ?thesis
    using all_job_links [OF assms(1,2), of "by_completed (ov_processes data)" h] all_job_links [OF assms(1,2), of "ov_processes data" h]
      mset_eq_setD [OF completed [of "ov_processes data"]]
    by (simp add: Let_def shown completed o_def image_mset.compositionality)
      (auto simp: list_all_iff operator_card_def image_mset.compositionality o_def split: option.splits)
qed

text \<open>
  Navigating by an entry of the side navigation closes the mobile sidebar over the page it opens;
  the quickstart button and the word mark open their page and leave the sidebar, and the scrim over
  the page, as they are.
\<close>

theorem sidebar_after_navigation:
  "(let (h', sidebar') = shell_step parse (h, sidebar) (NavButton p) in
      h' = setPage parse p h \<and> \<not> sv_scrim (Shell p online sidebar')) \<and>
   (let (h', sidebar') = shell_step parse (h, True) QuickstartButton in
      h' = setPage parse PQuickstart h \<and> sv_scrim (Shell PQuickstart online sidebar')) \<and>
   (let (h', sidebar') = shell_step parse (h, True) Wordmark in
      h' = setPage parse POverview h \<and> sv_scrim (Shell POverview online sidebar'))"
  by (simp add: Shell_def)

section \<open>Examples\<close>

definition linked_overview :: Overview where
  "linked_overview = (fill_overview empty_overview)\<lparr> ov_processes := [sample_job ''a'' 3], ov_workflows := [wd_workflow sample_run] \<rparr>"

lemma links_lead_to_details_witness:
  "\<exists>v. OverviewPage print_json linked_overview (num 0) = Some v \<and>
     leads_to_job simple_parse linked_overview [] (j_id (hd (vw_jobs v)), j_target (hd (vw_jobs v))) \<and>
     list_all (leads_to_run simple_parse linked_overview []) [(lit ''w-1'', OpenRun (lit ''w-1''))]"
proof -
  have fields: "ov_processes linked_overview = [sample_job ''a'' 3]" "ov_workflows linked_overview = [wd_workflow sample_run]"
    "ov_operators linked_overview = []" "ov_durability linked_overview = Some default_durability"
    by (simp_all add: linked_overview_def fill_overview_def empty_overview_def)
  have ids: "p_process_id (sample_job ''a'' 3) = lit ''a''" "w_workflow_id (wd_workflow sample_run) = lit ''w-1''"
    by (simp_all add: sample_job_def sample_run_def)
  have "code_points (lit ''a'') \<noteq> None" "code_points (lit ''w-1'') \<noteq> None"
    by (simp_all add: lit_eval low_surrogate_def high_surrogate_def)
  then have linkable: "\<forall>p \<in> set (ov_processes linked_overview). linkable (p_process_id p)"
      "\<forall>w \<in> set (ov_workflows linked_overview). linkable (w_workflow_id w)"
      "\<forall>x \<in> set (ov_operators linked_overview). pred_option (\<lambda>i. i = [] \<or> linkable i) (o_latest_workflow_id x)"
    by (simp_all add: fields ids linkable_def lit_eval)
  obtain v where v: "OverviewPage print_json linked_overview (num 0) = Some v"
    by (simp add: OverviewPage_def Let_def StatusSummary_def DurabilityPanel_def fields)
  from links_lead_to_details [OF splits_query_simple linkable v, of "[]" "lit ''all''" "[]", unfolded Let_def]
  have "list_all (leads_to_job simple_parse linked_overview []) (links j_id j_target (vw_jobs v))"
    "mset (map fst (links j_id j_target (vw_jobs v))) = mset (map p_process_id (ov_processes linked_overview))"
    "list_all (leads_to_run simple_parse linked_overview []) (links rr_id rr_target (run_rows linked_overview (vw_recent v)))"
    by simp_all
  moreover have "links rr_id rr_target (run_rows linked_overview (vw_recent v)) = [(lit ''w-1'', OpenRun (lit ''w-1''))]"
    using overview_links(2) [OF v] table_links(2) [of "vw_recent v" print_json _ linked_overview True] by (simp add: fields ids)
  ultimately show ?thesis using v by (cases "vw_jobs v") (auto simp: links_def fields)
qed

end
