(* ===== verification/LandingPage.thy ===== *)
theory LandingPage
  imports JsText
begin

text \<open>
  The landing page's script, \<open>landing/app.js\<close>, and its settings, \<open>landing/config.js\<close>: the order of the
  sections, the links that the settings fill in, the mobile menu, the copy button and the header.

  The document is what the script touches of it: the identifiers of the children of \<open>main\<close> and of
  the elements elsewhere, the links, and a record for each of the widgets. A selector that finds
  nothing is \<open>None\<close>; using it throws and ends the script.
\<close>

section \<open>The order of the sections\<close>

definition sectionOrder :: "string list" where
  "sectionOrder = [''top'', ''applications'', ''sandboxing'', ''operations'', ''upgrades'',
     ''elastic-compute'', ''batching'', ''event-time'', ''evidence'', ''deployment'', ''access'']"

text \<open>\<open>main.append(section)\<close> moves the element: out of where it is, to the end of \<open>main\<close>. The pair is
  the identifiers of the children of \<open>main\<close> and those of the rest of the document.\<close>

definition append_section :: "string list \<times> string list \<Rightarrow> string \<Rightarrow> string list \<times> string list" where
  "append_section doc ident =
     (if ident \<in> set (fst doc) then (remove1 ident (fst doc) @ [ident], snd doc)
      else if ident \<in> set (snd doc) then (fst doc @ [ident], remove1 ident (snd doc))
      else doc)"

definition order_sections :: "string list \<Rightarrow> string list \<times> string list \<Rightarrow> string list \<times> string list" where
  "order_sections order doc = foldl append_section doc order"

lemma order_sections_spec:
  assumes "distinct order" "distinct (fst doc @ snd doc)"
  shows "order_sections order doc =
    ([x \<leftarrow> fst doc. x \<notin> set order] @ [x \<leftarrow> order. x \<in> set (fst doc) \<union> set (snd doc)],
     [x \<leftarrow> snd doc. x \<notin> set order])"
  using assms
proof (induction order arbitrary: doc)
  case Nil
  then show ?case by (simp add: order_sections_def)
next
  case (Cons x xs)
  let ?doc = "append_section doc x"
  have x: "x \<notin> set xs" and xs: "distinct xs" using Cons.prems(1) by auto
  have d: "distinct (fst ?doc @ snd ?doc)"
    using Cons.prems(2) by (auto simp: append_section_def distinct_remove1_removeAll distinct_removeAll)
  have members: "set (fst ?doc) \<union> set (snd ?doc) = set (fst doc) \<union> set (snd doc)"
    using Cons.prems(2) by (auto simp: append_section_def distinct_remove1_removeAll)
  have "order_sections (x # xs) doc = order_sections xs ?doc" by (simp add: order_sections_def)
  also have "\<dots> = ([y \<leftarrow> fst ?doc. y \<notin> set xs] @ [y \<leftarrow> xs. y \<in> set (fst doc) \<union> set (snd doc)],
     [y \<leftarrow> snd ?doc. y \<notin> set xs])"
    unfolding Cons.IH [OF xs d] members ..
  also have "[y \<leftarrow> fst ?doc. y \<notin> set xs] =
      [y \<leftarrow> fst doc. y \<notin> set (x # xs)] @ (if x \<in> set (fst doc) \<union> set (snd doc) then [x] else [])"
    using Cons.prems(2) x
    by (auto simp: append_section_def distinct_remove1_removeAll removeAll_filter_not_eq intro!: filter_cong)
  also have "[y \<leftarrow> snd ?doc. y \<notin> set xs] = [y \<leftarrow> snd doc. y \<notin> set (x # xs)]"
    using Cons.prems(2)
    by (auto simp: append_section_def distinct_remove1_removeAll removeAll_filter_not_eq intro!: filter_cong)
  finally show ?case by auto
qed

text \<open>
  Whatever order the markup has the sections in, and whether or not it has them all: afterwards
  the listed sections are at the end of the main element, in the listed order; the other children
  keep their order before them; no element is lost or duplicated; and doing it again changes nothing.
\<close>

theorem sections_in_order:
  assumes "distinct (fst doc @ snd doc)"
  shows "order_sections sectionOrder doc =
      ([x \<leftarrow> fst doc. x \<notin> set sectionOrder] @ [x \<leftarrow> sectionOrder. x \<in> set (fst doc) \<union> set (snd doc)],
       [x \<leftarrow> snd doc. x \<notin> set sectionOrder]) \<and>
    mset (fst (order_sections sectionOrder doc)) + mset (snd (order_sections sectionOrder doc))
      = mset (fst doc) + mset (snd doc) \<and>
    order_sections sectionOrder (order_sections sectionOrder doc) = order_sections sectionOrder doc"
proof -
  have order: "distinct sectionOrder" by (simp add: sectionOrder_def)
  define out where "out = order_sections sectionOrder doc"
  note spec = order_sections_spec [OF order assms, folded out_def]
  have d: "distinct (fst out @ snd out)" using assms order by (auto simp: spec)
  have "set (fst out) \<union> set (snd out) = set (fst doc) \<union> set (snd doc)" by (auto simp: spec)
  with assms d have "mset (fst out @ snd out) = mset (fst doc @ snd doc)"
    by (intro set_eq_iff_mset_eq_distinct [THEN iffD1]) simp_all
  then have "mset (fst out) + mset (snd out) = mset (fst doc) + mset (snd doc)"
    by (simp only: mset_append)
  moreover have "order_sections sectionOrder out = out"
    unfolding order_sections_spec [OF order d] by (simp add: spec filter_empty_conv cong: filter_cong)
  ultimately show ?thesis unfolding out_def [symmetric] using spec by blast
qed

text \<open>The children of \<open>main\<close> in \<open>landing/index.html\<close>.\<close>

definition index_main :: "string list" where
  "index_main = [''top'', ''applications'', ''event-time'', ''batching'', ''elastic-compute'',
     ''upgrades'', ''sandboxing'', ''operations'', ''evidence'', ''deployment'', ''access'']"

lemma sections_in_order_witness:
  "fst (order_sections sectionOrder (index_main, [''mobile-navigation''])) = sectionOrder"
proof -
  have "distinct (fst (index_main, [''mobile-navigation'']) @ snd (index_main, [''mobile-navigation'']))"
    by (simp add: index_main_def)
  from sections_in_order [OF this] show ?thesis by (simp add: index_main_def sectionOrder_def)
qed

section \<open>The links of the settings\<close>

text \<open>\<open>window.HIGHWATER_SITE\<close>, \<open>landing/config.js\<close>.\<close>

definition HIGHWATER_SITE :: "(string \<times> jsstr) list" where
  "HIGHWATER_SITE =
     [(''docs'', lit ''https://highwater.cloud/docs/''),
      (''quickstart'', lit ''https://highwater.cloud/docs/quickstart''),
      (''demo'', lit ''https://demo.highwater.cloud/''),
      (''earlyAccess'', lit ''https://calendly.com/henneberger-daniel/30min''),
      (''github'', lit ''https://github.com/henneberger/highwater''),
      (''pricing'', lit ''https://highwater.cloud/legal/pricing-definition''),
      (''serviceTerms'', lit ''https://highwater.cloud/legal/service-terms''),
      (''security'', lit ''https://highwater.cloud/security/threat-model''),
      (''soc2'', lit ''https://highwater.cloud/security/soc-2''),
      (''pci'', lit ''https://highwater.cloud/security/pci-responsibility'')]"

record Link =
  lk_key :: string
  lk_text :: jsstr
  lk_href :: jsstr
  lk_aria_disabled :: "jsstr option"
  lk_tabindex :: "jsstr option"
  lk_title :: "jsstr option"
  lk_prevented :: bool

text \<open>\<open>trim()\<close>: white space and line terminators of ECMAScript.\<close>

definition js_space :: "code_unit \<Rightarrow> bool" where
  "js_space u \<longleftrightarrow> (9 \<le> u \<and> u \<le> 13) \<or> u = 32 \<or> u = 0xA0 \<or> u = 0x1680 \<or> (0x2000 \<le> u \<and> u \<le> 0x200A)
     \<or> u = 0x2028 \<or> u = 0x2029 \<or> u = 0x202F \<or> u = 0x205F \<or> u = 0x3000 \<or> u = 0xFEFF"

definition js_trim :: "jsstr \<Rightarrow> jsstr" where
  "js_trim s = rev (dropWhile js_space (rev (dropWhile js_space s)))"

definition configured :: "(string \<times> jsstr) list \<Rightarrow> string \<Rightarrow> jsstr option" where
  "configured config key =
     (case map_of config key of None \<Rightarrow> None
      | Some url \<Rightarrow> if url = [] \<or> url = lit ''#'' then None else Some url)"

definition set_link :: "(string \<times> jsstr) list \<Rightarrow> Link \<Rightarrow> Link" where
  "set_link config link =
     (case configured config (lk_key link) of
        None \<Rightarrow> link\<lparr> lk_aria_disabled := Some (lit ''true''), lk_tabindex := Some (lit ''-1''),
          lk_title := Some (js_trim (lk_text link) @ lit '' link coming soon''), lk_prevented := True \<rparr>
      | Some url \<Rightarrow> link\<lparr> lk_href := url \<rparr>)"

text \<open>Where a click goes; \<open>None\<close> when its default is prevented.\<close>

definition click_link :: "Link \<Rightarrow> jsstr option" where
  "click_link link = (if lk_prevented link then None else Some (lk_href link))"

text \<open>A link as the markup has it.\<close>

definition markup_link :: "string \<Rightarrow> jsstr \<Rightarrow> Link" where
  "markup_link key txt = \<lparr> lk_key = key, lk_text = txt, lk_href = lit ''#'', lk_aria_disabled = None,
     lk_tabindex = None, lk_title = None, lk_prevented = False \<rparr>"

text \<open>
  A link of the settings is never a dead end: either a destination is configured (it is there,
  not empty and not just a hash) and the link goes to it and stays in the tab order, or it is
  announced as disabled, taken out of the tab order, titled, and a click goes nowhere.
\<close>

theorem link_goes_or_is_disabled:
  "(case configured config key of
      Some url \<Rightarrow> click_link (set_link config (markup_link key txt)) = Some url \<and> url \<noteq> [] \<and> url \<noteq> lit ''#'' \<and>
        lk_aria_disabled (set_link config (markup_link key txt)) = None \<and>
        lk_tabindex (set_link config (markup_link key txt)) = None
    | None \<Rightarrow> click_link (set_link config (markup_link key txt)) = None \<and>
        lk_aria_disabled (set_link config (markup_link key txt)) = Some (lit ''true'') \<and>
        lk_tabindex (set_link config (markup_link key txt)) = Some (lit ''-1'') \<and>
        lk_title (set_link config (markup_link key txt)) = Some (js_trim txt @ lit '' link coming soon'')) \<and>
   (configured config key = None \<longleftrightarrow> map_of config key \<in> {None, Some [], Some (lit ''#'')})"
  by (auto simp: set_link_def markup_link_def click_link_def configured_def split: option.splits if_splits)

section \<open>The mobile menu\<close>

record Menu =
  mn_expanded :: jsstr
  mn_label :: jsstr
  mn_hidden :: bool
  mn_body_open :: bool
  mn_focused :: bool

datatype MenuEvent = MenuClick | MenuLinkClick | KeyDown jsstr

text \<open>The markup the script finds.\<close>

definition menu_markup :: Menu where
  "menu_markup = \<lparr> mn_expanded = lit ''false'', mn_label = lit ''Open navigation'', mn_hidden = True,
     mn_body_open = False, mn_focused = False \<rparr>"

definition bool_text :: "bool \<Rightarrow> jsstr" where
  "bool_text b = (if b then lit ''true'' else lit ''false'')"

definition toggle_menu :: "Menu \<Rightarrow> Menu" where
  "toggle_menu m =
     (let open_now = mn_expanded m = lit ''true'' in
      m\<lparr> mn_expanded := bool_text (\<not> open_now),
         mn_label := (if open_now then lit ''Open navigation'' else lit ''Close navigation''),
         mn_hidden := open_now, mn_body_open := \<not> open_now \<rparr>)"

definition close_menu :: "Menu \<Rightarrow> Menu" where
  "close_menu m = m\<lparr> mn_expanded := lit ''false'', mn_label := lit ''Open navigation'',
     mn_hidden := True, mn_body_open := False \<rparr>"

fun menu_step :: "Menu \<Rightarrow> MenuEvent \<Rightarrow> Menu" where
  "menu_step m MenuClick = toggle_menu m"
| "menu_step m MenuLinkClick = close_menu m"
| "menu_step m (KeyDown key) =
     (if key \<noteq> lit ''Escape'' \<or> mn_hidden m then m else (close_menu m)\<lparr> mn_focused := True \<rparr>)"

text \<open>All that says whether the menu is open says the same.\<close>

definition menu_agrees :: "Menu \<Rightarrow> bool" where
  "menu_agrees m \<longleftrightarrow> mn_expanded m = bool_text (\<not> mn_hidden m) \<and> mn_body_open m = (\<not> mn_hidden m)
     \<and> mn_label m = (if mn_hidden m then lit ''Open navigation'' else lit ''Close navigation'')"

interpretation menu: machine "\<lambda>m. m = menu_markup" menu_step "\<lambda>_. True" menu_agrees
proof unfold_locales
  show "menu_agrees m" if "m = menu_markup" for m
    using that by (simp add: menu_agrees_def menu_markup_def bool_text_def)
  show "menu_agrees (menu_step m e)" if "menu_agrees m" for m e
    using that by (cases e) (auto simp: menu_agrees_def toggle_menu_def close_menu_def bool_text_def Let_def)
qed

text \<open>
  C40. After any sequence of clicks and keys, the attribute for assistive technology, the button's
  label, the visibility of the menu and the class that stops the page from scrolling agree; and from
  there the button toggles the menu, a link in it closes it, Escape closes it and returns the focus
  to the button when it is open and does nothing when it is closed, and no other key does anything.
\<close>

theorem menu_consistent:
  "let m = foldl menu_step menu_markup es in
     menu_agrees m \<and> mn_hidden (menu_step m MenuClick) = (\<not> mn_hidden m) \<and>
     mn_hidden (menu_step m MenuLinkClick) \<and>
     (if mn_hidden m then menu_step m (KeyDown (lit ''Escape'')) = m
      else mn_hidden (menu_step m (KeyDown (lit ''Escape''))) \<and> mn_focused (menu_step m (KeyDown (lit ''Escape'')))) \<and>
     (key = lit ''Escape'' \<or> menu_step m (KeyDown key) = m)"
proof -
  have "menu_agrees (foldl menu_step menu_markup es)" by (rule menu.run_inv) (auto simp: list_all_iff)
  then show ?thesis
    by (auto simp: Let_def menu_agrees_def toggle_menu_def close_menu_def bool_text_def)
qed

section \<open>The copy button\<close>

text \<open>
  A click starts writing to the clipboard; when that has settled the label is set and a timer is
  started. Timers with the same delay fire in the order they were started. The state counts the
  writes and the timers outstanding.
\<close>

record Copy =
  cp_label :: jsstr
  cp_writing :: nat
  cp_timers :: "f64 list"

datatype CopyEvent = CopyClick | WriteSettled bool f64 | TimerFires

definition copy_markup :: Copy where
  "copy_markup = \<lparr> cp_label = lit ''Copy'', cp_writing = 0, cp_timers = [] \<rparr>"

text \<open>\<open>WriteSettled ok now\<close>: the write succeeded or not, at the time \<open>now\<close> in milliseconds. A reply
  needs a write, and a timer one that is pending.\<close>

fun copy_step :: "Copy \<Rightarrow> CopyEvent \<Rightarrow> Copy" where
  "copy_step c CopyClick = c\<lparr> cp_writing := Suc (cp_writing c) \<rparr>"
| "copy_step c (WriteSettled ok now) =
     (if cp_writing c = 0 then c
      else c\<lparr> cp_writing := cp_writing c - 1, cp_label := (if ok then lit ''Copied'' else lit ''Select''),
             cp_timers := cp_timers c @ [fadd now (num 1800)] \<rparr>)"
| "copy_step c TimerFires =
     (case cp_timers c of [] \<Rightarrow> c | _ # ts \<Rightarrow> c\<lparr> cp_label := lit ''Copy'', cp_timers := ts \<rparr>)"

definition copy_ok :: "Copy \<Rightarrow> bool" where
  "copy_ok c \<longleftrightarrow> cp_label c = lit ''Copy'' \<or>
     (cp_label c \<in> {lit ''Copied'', lit ''Select''} \<and> cp_timers c \<noteq> [])"

interpretation copy: machine "\<lambda>c. c = copy_markup" copy_step "\<lambda>_. True" copy_ok
proof unfold_locales
  show "copy_ok c" if "c = copy_markup" for c using that by (simp add: copy_ok_def copy_markup_def)
  show "copy_ok (copy_step c e)" if "copy_ok c" for c e
    using that by (cases e) (auto simp: copy_ok_def split: list.splits)
qed

lemma timers_drain:
  "copy_ok c \<Longrightarrow> foldl copy_step c (replicate (length (cp_timers c)) TimerFires)
     = c\<lparr> cp_label := lit ''Copy'', cp_timers := [] \<rparr>"
proof (induction "length (cp_timers c)" arbitrary: c)
  case 0
  then show ?case by (simp add: copy_ok_def)
next
  case (Suc n)
  then obtain t ts where ts: "cp_timers c = t # ts" by (cases "cp_timers c") auto
  let ?d = "c\<lparr> cp_label := lit ''Copy'', cp_timers := ts \<rparr>"
  have "copy_ok ?d" by (simp add: copy_ok_def)
  then have "foldl copy_step ?d (replicate (length ts) TimerFires) = ?d\<lparr> cp_label := lit ''Copy'', cp_timers := [] \<rparr>"
    using Suc.hyps(1) [of ?d] Suc.hyps(2) ts by simp
  then show ?case by (simp add: ts)
qed

text \<open>
  C39. The feedback of the copy button always goes away: after any sequence of clicks, writes that
  settle (or fail) late and timers, the label is one of the three texts, it is not "Copy" only while
  a timer is pending, and once the pending timers have fired it is "Copy" again.
\<close>

theorem copy_label_returns:
  "let c = foldl copy_step copy_markup es in
     cp_label c \<in> {lit ''Copy'', lit ''Copied'', lit ''Select''} \<and>
     (cp_label c = lit ''Copy'' \<or> 0 < length (cp_timers c)) \<and>
     cp_label (foldl copy_step c (replicate (length (cp_timers c)) TimerFires)) = lit ''Copy''"
proof -
  have ok: "copy_ok (foldl copy_step copy_markup es)" by (rule copy.run_inv) (auto simp: list_all_iff)
  then show ?thesis unfolding Let_def timers_drain [OF ok] by (auto simp: copy_ok_def)
qed

section \<open>The whole script\<close>

definition header_scrolled :: "f64 \<Rightarrow> bool" where
  "header_scrolled scrollY \<longleftrightarrow> flt (num 16) scrollY"

record LandingDoc =
  ld_main :: "string list option"
  ld_elsewhere :: "string list"
  ld_links :: "Link list"
  ld_year :: "jsstr option"
  ld_menu :: "Menu option"
  ld_copy :: "Copy option"
  ld_header :: "bool option"

text \<open>
  Running the script: \<open>None\<close> when it throws, which it does for a section without a \<open>main\<close> to put it
  in, and for a missing year, menu or header; the copy button is optional. \<open>site\<close> is
  \<open>window.HIGHWATER_SITE\<close>, undefined when \<open>config.js\<close> was not loaded.
\<close>

definition run_landing :: "(string \<times> jsstr) list option \<Rightarrow> jsstr \<Rightarrow> f64 \<Rightarrow> LandingDoc \<Rightarrow> LandingDoc option" where
  "run_landing site year scrollY doc =
     (let config = (case site of None \<Rightarrow> [] | Some c \<Rightarrow> c);
          ordered = (case ld_main doc of
             Some main \<Rightarrow> Some (order_sections sectionOrder (main, ld_elsewhere doc))
           | None \<Rightarrow> if \<exists>s \<in> set sectionOrder. s \<in> set (ld_elsewhere doc) then None else Some ([], ld_elsewhere doc))
      in case (ordered, ld_year doc, ld_menu doc, ld_header doc) of
           (Some (main, elsewhere), Some _, Some _, Some _) \<Rightarrow>
             Some (doc\<lparr> ld_main := (if ld_main doc = None then None else Some main), ld_elsewhere := elsewhere,
               ld_links := map (set_link config) (ld_links doc), ld_year := Some year,
               ld_header := Some (header_scrolled scrollY) \<rparr>)
         | _ \<Rightarrow> None)"

text \<open>The keys of the links of \<open>landing/index.html\<close>, and its document.\<close>

definition index_keys :: "string list" where
  "index_keys = [''github'', ''docs'', ''earlyAccess'', ''quickstart'', ''pci'', ''security'', ''soc2'',
     ''pricing'', ''serviceTerms'', ''demo'']"

definition index_doc :: LandingDoc where
  "index_doc = \<lparr> ld_main = Some index_main, ld_elsewhere = [''mobile-navigation''],
     ld_links = map (\<lambda>k. markup_link k (lit k)) index_keys, ld_year = Some [], ld_menu = Some menu_markup,
     ld_copy = Some copy_markup, ld_header = Some False \<rparr>"

text \<open>
  On the page as it is shipped, with the settings as they are shipped, the script runs to its
  end, the sections come out in the listed order, and every link leads where its setting says, none
  of them disabled; without \<open>config.js\<close> it still runs to its end and disables them all.
\<close>

theorem landing_page_loads:
  "(\<exists>doc. run_landing (Some HIGHWATER_SITE) year scrollY index_doc = Some doc \<and>
      ld_main doc = Some sectionOrder \<and>
      map click_link (ld_links doc) = map (map_of HIGHWATER_SITE) index_keys \<and>
      list_all (\<lambda>l. click_link l \<noteq> None \<and> lk_aria_disabled l = None) (ld_links doc)) \<and>
   (\<exists>doc. run_landing None year scrollY index_doc = Some doc \<and> ld_main doc = Some sectionOrder \<and>
      list_all (\<lambda>l. click_link l = None \<and> lk_aria_disabled l = Some (lit ''true'')) (ld_links doc))"
proof -
  have main: "order_sections sectionOrder (index_main, [''mobile-navigation'']) = (sectionOrder, [''mobile-navigation''])"
    by (simp add: order_sections_spec index_main_def sectionOrder_def)
  show ?thesis
    by (simp add: run_landing_def index_doc_def main Let_def)
       (simp add: index_keys_def set_link_def configured_def HIGHWATER_SITE_def markup_link_def click_link_def)
qed

end
