(* ===== verification/Markup.thy ===== *)
theory Markup
  imports HW_Prelude
begin

text \<open>
  The trees that components of React return: texts and elements with their attributes and children.
  An element of a third-party library is named as the source names it. \<open>className={styles.x}\<close> of a CSS
  module is a parameter where it occurs.
\<close>

datatype 's Node = Txt 's | El string "(string \<times> 's) list" "'s Node list"

fun nodes :: "'s Node \<Rightarrow> 's Node list" where
  "nodes (Txt t) = [Txt t]"
| "nodes (El t props ks) = El t props ks # concat (map nodes ks)"

text \<open>\<open>condition && node\<close>\<close>

definition shown_if :: "bool \<Rightarrow> 's Node \<Rightarrow> 's Node list" where
  "shown_if c n = (if c then [n] else [])"

definition attr :: "string \<Rightarrow> 's Node \<Rightarrow> 's list" where
  "attr name n = (case n of Txt _ \<Rightarrow> [] | El _ props _ \<Rightarrow> map snd (filter (\<lambda>a. fst a = name) props))"

definition with_tag :: "string \<Rightarrow> 's Node \<Rightarrow> 's Node list" where
  "with_tag t n = filter (\<lambda>m. case m of Txt _ \<Rightarrow> False | El t' _ _ \<Rightarrow> t' = t) (nodes n)"

definition texts :: "'s Node \<Rightarrow> 's list" where
  "texts n = concat (map (\<lambda>m. case m of Txt t \<Rightarrow> [t] | El _ _ _ \<Rightarrow> []) (nodes n))"

end
