(* ===== verification/DocsSite.thy ===== *)
theory DocsSite
  imports JsText Markup
begin

text \<open>
  The documentation site: the navigation tree of \<open>website/sidebars.js\<close>, the settings of
  \<open>website/docusaurus.config.js\<close> (navigation bar and footer included) and the components of
  \<open>website/src/components\<close>, with the properties that make the site's build succeed and its reader
  find every page: the tree names each page once, and every internal link is the route of a page.

  How Docusaurus turns the identifier of a page into its route is a parameter; \<open>documented_routes\<close>
  states what its manual says.
\<close>

section \<open>The navigation tree\<close>

datatype SidebarItem =
    Doc string
  | Category (label: string) (collapsed: bool) (link: string) (items: "SidebarItem list")

definition sidebars :: "SidebarItem list" where
  "sidebars =
    [Doc ''index'',
     Doc ''quickstart'',
     Category ''Evaluate'' True ''evaluate/index''
      [Doc ''evaluate/durable-streaming'',
       Doc ''evaluate/use-cases''],
     Category ''Develop'' False ''develop/index''
      [Category ''Python SDK'' True ''develop/python/index''
        [Doc ''develop/python/setup'',
         Doc ''develop/python/processes'',
         Doc ''develop/python/ingestion'',
         Doc ''develop/python/batching'',
         Doc ''develop/python/event-time'',
         Doc ''develop/python/operators'',
         Doc ''develop/python/changelog-collections'',
         Doc ''develop/python/maintained-results'',
         Doc ''develop/python/upgrades''],
       Doc ''develop/deployments'',
       Doc ''develop/examples''],
     Category ''Operate Highwater'' True ''production/index''
      [Doc ''production/durability'',
       Doc ''production/recovery'',
       Doc ''production/performance'',
       Doc ''production/scaling'',
       Doc ''production/sandboxing''],
     Category ''Concepts'' True ''concepts/index''
      [Doc ''concepts/durable-processes'',
       Doc ''concepts/event-time-and-watermarks'',
       Doc ''concepts/temporal-joins'',
       Doc ''concepts/serverless-execution'',
       Doc ''concepts/leases-and-fencing'',
       Doc ''concepts/checkpoints''],
     Category ''References'' True ''references/index''
      [Doc ''references/python-api'',
       Doc ''references/options'',
       Doc ''references/server-options'',
       Doc ''references/guarantees''],
     Category ''Troubleshooting'' True ''troubleshooting/index''
      [Doc ''troubleshooting/backpressure'',
       Doc ''troubleshooting/recovery'',
       Doc ''troubleshooting/invocation-leases''],
     Doc ''glossary'']"

text \<open>The pages the tree names, each category's own page first.\<close>

fun item_ids :: "SidebarItem \<Rightarrow> string list" where
  "item_ids (Doc ident) = [ident]"
| "item_ids (Category l c page its) = page # concat (map item_ids its)"

definition sidebar_ids :: "SidebarItem list \<Rightarrow> string list" where
  "sidebar_ids its = concat (map item_ids its)"

text \<open>The pages there are: the files of \<open>website/docs\<close>, without their extension.\<close>

definition doc_files :: "string list" where
  "doc_files =
    [''concepts/checkpoints'', ''concepts/durable-processes'',
     ''concepts/event-time-and-watermarks'', ''concepts/index'',
     ''concepts/leases-and-fencing'', ''concepts/serverless-execution'',
     ''concepts/temporal-joins'', ''develop/deployments'', ''develop/examples'',
     ''develop/index'', ''develop/python/batching'', ''develop/python/changelog-collections'',
     ''develop/python/event-time'', ''develop/python/index'', ''develop/python/ingestion'',
     ''develop/python/maintained-results'', ''develop/python/operators'',
     ''develop/python/processes'', ''develop/python/setup'', ''develop/python/upgrades'',
     ''evaluate/durable-streaming'', ''evaluate/index'', ''evaluate/use-cases'', ''glossary'',
     ''index'', ''production/durability'', ''production/index'', ''production/performance'',
     ''production/recovery'', ''production/sandboxing'', ''production/scaling'',
     ''quickstart'', ''references/guarantees'', ''references/index'', ''references/options'',
     ''references/python-api'', ''references/server-options'',
     ''troubleshooting/backpressure'', ''troubleshooting/index'',
     ''troubleshooting/invocation-leases'', ''troubleshooting/recovery'']"

text \<open>A category's own page is \<open>index\<close> of a directory, and all its pages are in that directory.\<close>

definition starts_in :: "string \<Rightarrow> string \<Rightarrow> bool" where
  "starts_in dir ident = (take (length dir) ident = dir)"

fun nested_in :: "string \<Rightarrow> SidebarItem \<Rightarrow> bool" where
  "nested_in dir (Doc ident) = starts_in dir ident"
| "nested_in dir (Category l c page its) =
     (let sub = take (length page - 5) page
      in starts_in dir page \<and> page = sub @ ''index'' \<and> length dir < length sub \<and> list_all (nested_in sub) its)"

text \<open>
  The navigation tree of the documentation is complete and has no duplicates: it names every page
  of \<open>website/docs\<close> exactly once and no page that does not exist, and every category's page is the
  index of a directory that holds all the pages under the category, at every depth.
\<close>

theorem docs_tree_complete:
  "distinct (sidebar_ids sidebars) \<and> set (sidebar_ids sidebars) = set doc_files \<and>
   list_all (nested_in []) sidebars"
proof (intro conjI)
  show "distinct (sidebar_ids sidebars)" by code_simp
  show "set (sidebar_ids sidebars) = set doc_files" by code_simp
  show "list_all (nested_in []) sidebars" by code_simp
qed

section \<open>The settings\<close>

datatype Destination = To string | Href string

record NavItem =
  ni_label :: string
  ni_dest :: Destination
  ni_position :: string

record FooterColumn =
  fc_title :: string
  fc_items :: "(string \<times> Destination) list"

record SiteConfig =
  cf_title :: string
  cf_tagline :: string
  cf_favicon :: string
  cf_url :: string
  cf_baseUrl :: string
  cf_onBrokenLinks :: string
  cf_onBrokenAnchors :: string
  cf_organizationName :: string
  cf_projectName :: string
  cf_routeBasePath :: string
  cf_lastUpdate :: "bool \<times> bool"
  cf_blog :: bool
  cf_mermaid :: bool
  cf_themes :: "string list"
  cf_defaultMode :: string
  cf_respectPrefersColorScheme :: bool
  cf_navbar_title :: string
  cf_logo :: "string \<times> string"
  cf_navbar :: "NavItem list"
  cf_hideable :: bool
  cf_autoCollapseCategories :: bool
  cf_footer_style :: string
  cf_footer :: "FooterColumn list"
  cf_copyright :: jsstr
  cf_languages :: "string list"

definition nav_item :: "string \<Rightarrow> Destination \<Rightarrow> string \<Rightarrow> NavItem" where
  "nav_item lab dest position = \<lparr> ni_label = lab, ni_dest = dest, ni_position = position \<rparr>"

definition footer_column :: "string \<Rightarrow> (string \<times> Destination) list \<Rightarrow> FooterColumn" where
  "footer_column heading its = \<lparr> fc_title = heading, fc_items = its \<rparr>"

definition site_config :: "f64 \<Rightarrow> SiteConfig" where
  "site_config year =
     \<lparr> cf_title = ''Highwater Documentation'',
       cf_tagline = ''Durable execution for streaming applications'',
       cf_favicon = ''img/mark.svg'', cf_url = ''https://highwater.cloud'', cf_baseUrl = ''/docs/'',
       cf_onBrokenLinks = ''throw'', cf_onBrokenAnchors = ''throw'',
       cf_organizationName = ''henneberger'', cf_projectName = ''highwater'', cf_routeBasePath = ''/'', cf_lastUpdate = (False, False),
       cf_blog = False, cf_mermaid = True, cf_themes = [''@docusaurus/theme-mermaid''],
       cf_defaultMode = ''dark'', cf_respectPrefersColorScheme = True,
       cf_navbar_title = ''Highwater Docs'', cf_logo = (''Highwater mark'', ''img/mark.svg''),
       cf_navbar =
         [nav_item ''Quickstart'' (To ''/quickstart'') ''left'',
          nav_item ''Develop'' (To ''/develop'') ''left'',
          nav_item ''Operate'' (To ''/production'') ''left'',
          nav_item ''Concepts'' (To ''/concepts'') ''left'',
          nav_item ''References'' (To ''/references'') ''left'',
          nav_item ''GitHub'' (Href ''https://github.com/henneberger/highwater'') ''right''],
       cf_hideable = True, cf_autoCollapseCategories = True, cf_footer_style = ''dark'',
       cf_footer =
         [footer_column ''Build''
            [(''Quickstart'', To ''/quickstart''), (''Python SDK'', To ''/develop/python''),
             (''Examples'', To ''/develop/examples'')],
          footer_column ''Operate''
            [(''Durability'', To ''/production/durability''), (''Recovery'', To ''/production/recovery''),
             (''Scaling'', To ''/production/scaling'')],
          footer_column ''Reference''
            [(''Python API'', To ''/references/python-api''), (''CLI'', To ''/references/server-options''),
             (''Glossary'', To ''/glossary'')]],
       cf_copyright = lit ''Highwater, '' @ num_str year @ lit ''.'',
       cf_languages = [''bash'', ''toml''] \<rparr>"

section \<open>The components\<close>

text \<open>\<open>DocsLanding\<close> is the tree it returns; \<open>styles\<close> are the class names of its CSS module. Then the cards of
  \<open>FeatureGrid\<close> and the rows of \<open>GuaranteeTable\<close>.\<close>

fun code_lines :: "string list \<Rightarrow> string" where
  "code_lines [] = []"
| "code_lines [l] = l"
| "code_lines (l # ls) = l @ CHR 0x0A # code_lines ls"

definition landing_code :: string where
  "landing_code = code_lines
     [''@streaming.process(key='' @ [CHR 0x22] @ ''account_id'' @ [CHR 0x22] @ '')'',
      ''@dataclass'',
      ''class Balance:'',
      ''    total: int = 0'',
      [],
      ''    @streaming.event'',
      ''    async def apply(self, event: Deposit):'',
      ''        self.total += event.amount'']"

definition landing_link :: "string \<Rightarrow> string \<Rightarrow> string \<Rightarrow> string Node" where
  "landing_link variant target caption =
     El ''Link'' [(''className'', ''button button--'' @ variant @ '' button--lg''), (''to'', target)] [Txt caption]"

definition DocsLanding :: "(string \<Rightarrow> string) \<Rightarrow> string Node list \<Rightarrow> string Node" where
  "DocsLanding styles children =
     El ''main'' [(''className'', styles ''wrapper'')]
      ([El ''div'' [(''className'', styles ''eyebrow'')] [Txt ''Highwater Docs''],
        El ''section'' [(''className'', styles ''hero'')]
         [El ''div'' [(''className'', styles ''copy'')]
           [El ''h1'' [] [Txt ''Write streaming applications that never lose their place''],
            El ''p'' [(''className'', styles ''lead'')]
             [Txt (''Highwater turns Python functions into durable, elastic stream processors. ''
                @ ''State, event-time progress, retries, and scaling are part of the platform.'')],
            El ''div'' [(''className'', styles ''actions'')]
             [landing_link ''primary'' ''/quickstart'' ''Quickstart'',
              landing_link ''secondary'' ''/evaluate/durable-streaming'' ''Why Highwater'']],
          El ''pre'' [(''className'', styles ''code''), (''aria-label'', ''Durable process example'')]
           [El ''code'' [] [Txt landing_code]]]]
       @ children)"

text \<open>Where the links of a tree lead.\<close>

definition link_targets :: "string Node \<Rightarrow> string list" where
  "link_targets n = concat (map (attr ''to'') (with_tag ''Link'' n))"

record Feature =
  ft_kicker :: string
  ft_title :: string
  ft_children :: string
  ft_href :: string

definition FeatureGrid :: "Feature list \<Rightarrow> (Destination \<times> string list) list" where
  "FeatureGrid its = map (\<lambda>item. (To (ft_href item), [ft_kicker item, ft_title item, ft_children item])) its"

definition GuaranteeTable :: "(string \<times> string) list" where
  "GuaranteeTable =
     [(''Admission'', ''An input is acknowledged only after its durable append commits.''),
      (''Execution'', ''An invocation can repeat after failure; only a fenced, committed completion changes state.''),
      (''Completion'', ''State, output, lease removal, and the next mailbox dispatch commit atomically.''),
      (''Recovery'', ''A published checkpoint plus every later committed transition reconstructs state.''),
      (''External effects'', ''The transactional outbox is at least once; sinks deduplicate by message identifier.'')]"

section \<open>Every internal link is the route of a page\<close>

definition internal :: "Destination list \<Rightarrow> string list" where
  "internal ds = concat (map (\<lambda>d. case d of To path \<Rightarrow> [path] | Href url \<Rightarrow> []) ds)"

definition site_links :: "SiteConfig \<Rightarrow> string list" where
  "site_links cf = internal (map ni_dest (cf_navbar cf) @ concat (map (map snd \<circ> fc_items) (cf_footer cf))
) @ link_targets (DocsLanding (\<lambda>_. []) [])"

text \<open>What Docusaurus documents of routes: a page is at its identifier under the base path, and an
  \<open>index\<close> page at its directory.\<close>

definition documented_routes :: "(string \<Rightarrow> string) \<Rightarrow> bool" where
  "documented_routes route \<longleftrightarrow> route ''index'' = ''/'' \<and> (\<forall>dir. route (dir @ ''/index'') = ''/'' @ dir) \<and>
     (\<forall>ident. ident \<noteq> ''index'' \<longrightarrow> (\<forall>dir. ident \<noteq> dir @ ''/index'') \<longrightarrow> route ident = ''/'' @ ident)"

definition doc_route :: "string \<Rightarrow> string" where
  "doc_route ident =
     (if ident = ''index'' then ''/''
      else if drop (length ident - 6) ident = ''/index'' then ''/'' @ take (length ident - 6) ident
      else ''/'' @ ident)"

lemma ends_in_index: "drop (length ident - 6) ident = ''/index'' \<longleftrightarrow> (\<exists>dir. ident = dir @ ''/index'')"
proof
  define dir where "dir = take (length ident - 6) ident"
  assume "drop (length ident - 6) ident = ''/index''"
  then have "dir @ ''/index'' = ident" using append_take_drop_id [of "length ident - 6" ident] by (simp add: dir_def)
  then show "\<exists>dir. ident = dir @ ''/index''" by blast
qed auto

lemma documented_doc_route: "documented_routes doc_route"
  by (auto simp: documented_routes_def doc_route_def ends_in_index)

lemma documented_routes_unique:
  assumes "documented_routes route"
  shows "route ident = doc_route ident"
proof (cases "ident = ''index'' \<or> drop (length ident - 6) ident = ''/index''")
  case True
  then show ?thesis using assms by (auto simp: documented_routes_def doc_route_def ends_in_index)
next
  case False
  then show ?thesis using assms unfolding ends_in_index documented_routes_def doc_route_def by auto
qed

lemma routes_found: "list_all (\<lambda>l. l \<in> set (map doc_route (sidebar_ids sidebars))) (site_links (site_config y))"
proof -
  have "site_links (site_config y) =
      [''/quickstart'', ''/develop'', ''/production'', ''/concepts'', ''/references'', ''/quickstart'',
       ''/develop/python'', ''/develop/examples'', ''/production/durability'', ''/production/recovery'',
       ''/production/scaling'', ''/references/python-api'', ''/references/server-options'', ''/glossary'',
       ''/quickstart'', ''/evaluate/durable-streaming'']"
    by (simp add: site_links_def site_config_def internal_def nav_item_def footer_column_def DocsLanding_def link_targets_def with_tag_def attr_def landing_link_def)
  moreover have "list_all (\<lambda>l. l \<in> set (map doc_route (sidebar_ids sidebars))) \<dots>" by code_simp
  ultimately show ?thesis by simp
qed

text \<open>
  No internal link of the navigation bar, the footer or the landing component is broken (the
  build is set to fail on one): each is the route of a page that exists and is in the navigation
  tree, and different pages have different routes, so it leads to one page only.
\<close>

theorem site_links_resolve:
  assumes "documented_routes route"
  shows "list_all (\<lambda>l. \<exists>ident \<in> set doc_files. ident \<in> set (sidebar_ids sidebars) \<and> route ident = l)
      (site_links (site_config year)) \<and>
    distinct (map route (sidebar_ids sidebars))"
proof
  have route: "route = doc_route" using documented_routes_unique [OF assms] by blast
  have files: "set (sidebar_ids sidebars) = set doc_files" by code_simp
  show "list_all (\<lambda>l. \<exists>ident \<in> set doc_files. ident \<in> set (sidebar_ids sidebars) \<and> route ident = l)
      (site_links (site_config year))"
    using routes_found [of year] by (auto simp: list_all_iff route files)
  show "distinct (map route (sidebar_ids sidebars))" unfolding route by code_simp
qed

lemma site_links_resolve_witness:
  "list_all (\<lambda>l. \<exists>ident \<in> set doc_files. ident \<in> set (sidebar_ids sidebars) \<and> doc_route ident = l)
     (site_links (site_config (num 2026)))"
  using site_links_resolve [OF documented_doc_route] by blast

end
