(* ===== verification/EventTime.thy ===== *)
theory EventTime
  imports Binary64
begin

text \<open>
  The event-time core of the server, \<open>crates/server/src/streaming.rs\<close>, with the three requests that
  move a stream forward (\<open>stream_api.rs\<close>): appending a record, advancing the watermark of a partition
  and sealing one, and the alignment check of \<open>operators.rs\<close>. The console reads the result as the
  watermark, the lag and the time of the last change of a stream.

  A request runs in a transaction: when it fails nothing of it is stored. Times are binary64 numbers
  as everywhere; offsets are 64-bit words. Source cursors, duplicate detection by event identifier
  and the operators downstream are not part of this model.
\<close>

section \<open>Configuration and state\<close>

datatype LatePolicy = Drop | SideOutput | Accept

datatype WatermarkMode = Bounded | Monotonic | SourceManaged

record StreamConfig =
  g_partitions :: nat
  g_watermark_mode :: WatermarkMode
  g_max_out_of_orderness :: f64
  g_idle_timeout :: "f64 option"
  g_allowed_lateness :: f64
  g_alignment_max_drift :: "f64 option"
  g_late_policy :: LatePolicy

definition non_negative :: "f64 \<Rightarrow> bool" where
  "non_negative x \<longleftrightarrow> \<not> flt x (num 0) \<and> finite64 x"

definition validate_config :: "StreamConfig \<Rightarrow> bool" where
  "validate_config c \<longleftrightarrow> g_partitions c \<noteq> 0 \<and> non_negative (g_max_out_of_orderness c)
     \<and> non_negative (g_allowed_lateness c)
     \<and> (case g_idle_timeout c of None \<Rightarrow> True | Some t \<Rightarrow> \<not> fle t (num 0) \<and> finite64 t)
     \<and> (case g_alignment_max_drift c of None \<Rightarrow> True | Some d \<Rightarrow> non_negative d)"

record PartitionState =
  q_partition :: nat
  q_next_offset :: "64 word"
  q_max_event_time :: "f64 option"
  q_watermark :: "f64 option"
  q_declared_watermark :: "f64 option"
  q_last_activity_at :: f64
  q_idle :: bool
  q_sealed :: bool

record StreamState =
  z_watermark :: "f64 option"
  z_finalized :: bool
  z_max_event_time :: "f64 option"
  z_updated_at :: f64

definition new_partition :: "nat \<Rightarrow> f64 \<Rightarrow> PartitionState" where
  "new_partition part now =
     \<lparr> q_partition = part, q_next_offset = 0, q_max_event_time = None, q_watermark = None,
       q_declared_watermark = None, q_last_activity_at = now, q_idle = False, q_sealed = False \<rparr>"

definition new_stream :: "f64 \<Rightarrow> StreamState" where
  "new_stream now = \<lparr> z_watermark = None, z_finalized = False, z_max_event_time = None, z_updated_at = now \<rparr>"

datatype refusal = PartitionSealed | NotFinite | Backwards | OutsideStream | Misaligned f64

section \<open>Operations\<close>

definition raise_to :: "f64 option \<Rightarrow> f64 \<Rightarrow> f64" where
  "raise_to current x = (case current of None \<Rightarrow> x | Some c \<Rightarrow> rs_max c x)"

definition observe :: "f64 \<Rightarrow> f64 \<Rightarrow> bool \<Rightarrow> f64 \<Rightarrow> PartitionState \<Rightarrow> refusal + (64 word \<times> PartitionState)" where
  "observe event_time out_of_orderness generate now p =
     (if q_sealed p then Inl PartitionSealed
      else if \<not> finite64 event_time then Inl NotFinite
      else Inr (q_next_offset p,
        p\<lparr> q_max_event_time := Some (raise_to (q_max_event_time p) event_time),
           q_watermark := (if generate then Some (raise_to (q_watermark p) (fsub event_time out_of_orderness))
                           else q_watermark p),
           q_last_activity_at := now, q_idle := False, q_next_offset := q_next_offset p + 1 \<rparr>))"

definition advance_watermark :: "f64 \<Rightarrow> f64 \<Rightarrow> PartitionState \<Rightarrow> refusal + PartitionState" where
  "advance_watermark watermark now p =
     (if q_sealed p then Inl PartitionSealed
      else if \<not> finite64 watermark then Inl NotFinite
      else if (case q_watermark p of None \<Rightarrow> False | Some current \<Rightarrow> flt watermark current) then Inl Backwards
      else Inr (p\<lparr> q_watermark := Some watermark, q_declared_watermark := Some watermark,
                   q_last_activity_at := now, q_idle := False \<rparr>))"

definition reduce :: "('a \<Rightarrow> 'a \<Rightarrow> 'a) \<Rightarrow> 'a list \<Rightarrow> 'a option" where
  "reduce f xs = (case xs of [] \<Rightarrow> None | y # ys \<Rightarrow> Some (foldl f y ys))"

definition mark_idle :: "StreamConfig \<Rightarrow> f64 \<Rightarrow> PartitionState \<Rightarrow> PartitionState" where
  "mark_idle config now p =
     (case g_idle_timeout config of
        None \<Rightarrow> p
      | Some timeout \<Rightarrow>
          if \<not> q_sealed p \<and> \<not> q_idle p \<and> fle timeout (fsub now (q_last_activity_at p))
          then p\<lparr> q_idle := True \<rparr> else p)"

definition active_partitions :: "PartitionState list \<Rightarrow> PartitionState list" where
  "active_partitions ps = filter (\<lambda>p. \<not> q_sealed p \<and> \<not> q_idle p) ps"

text \<open>The least watermark of the active partitions, when each of them has one.\<close>

definition least_active :: "PartitionState list \<Rightarrow> f64 option" where
  "least_active ps =
     (let active = active_partitions ps in
      if active \<noteq> [] \<and> list_all (\<lambda>p. q_watermark p \<noteq> None) active
      then reduce rs_min (List.map_filter q_watermark active) else None)"

definition opt_feq :: "f64 option \<Rightarrow> f64 option \<Rightarrow> bool" where
  "opt_feq a b = (case (a, b) of (None, None) \<Rightarrow> True | (Some x, Some y) \<Rightarrow> feq x y | _ \<Rightarrow> False)"

definition refresh :: "StreamConfig \<Rightarrow> f64 \<Rightarrow> StreamState \<times> PartitionState list
    \<Rightarrow> bool \<times> StreamState \<times> PartitionState list" where
  "refresh config now = (\<lambda>(s, ps).
     let ps = map (mark_idle config now) ps;
         t = s\<lparr> z_max_event_time := reduce rs_max (List.map_filter q_max_event_time ps),
                z_finalized := list_all q_sealed ps,
                z_watermark := (case least_active ps of None \<Rightarrow> z_watermark s
                                | Some candidate \<Rightarrow> Some (raise_to (z_watermark s) candidate)),
                z_updated_at := now \<rparr>
     in (\<not> opt_feq (z_watermark t) (z_watermark s) \<or> z_finalized t \<noteq> z_finalized s
           \<or> \<not> opt_feq (z_max_event_time t) (z_max_event_time s), t, ps))"

text \<open>What \<open>refresh_stream\<close> stores: the partitions that changed, and the stream's state only when
  \<open>refresh\<close> reports a change (so not a new \<open>updated_at\<close> alone).\<close>

definition refresh_stream :: "StreamConfig \<Rightarrow> f64 \<Rightarrow> StreamState \<times> PartitionState list
    \<Rightarrow> StreamState \<times> PartitionState list" where
  "refresh_stream config now = (\<lambda>(s, ps).
     case refresh config now (s, ps) of (changed, t, ps') \<Rightarrow> (if changed then t else s, ps'))"

definition is_late :: "StreamState \<Rightarrow> f64 \<Rightarrow> bool" where
  "is_late s event_time = (case z_watermark s of None \<Rightarrow> False | Some w \<Rightarrow> fle event_time w)"

definition is_too_late :: "StreamState \<Rightarrow> f64 \<Rightarrow> f64 \<Rightarrow> bool" where
  "is_too_late s event_time lateness =
     (case z_watermark s of None \<Rightarrow> False | Some w \<Rightarrow> fle event_time (fsub w lateness))"

definition ensure_watermark_alignment :: "StreamConfig \<Rightarrow> PartitionState list \<Rightarrow> nat \<Rightarrow> f64 \<Rightarrow> refusal option" where
  "ensure_watermark_alignment config ps part candidate =
     (case g_alignment_max_drift config of
        None \<Rightarrow> None
      | Some drift \<Rightarrow>
          let others = filter (\<lambda>p. q_partition p \<noteq> part \<and> \<not> q_idle p \<and> \<not> q_sealed p) ps in
          if list_ex (\<lambda>p. q_watermark p = None) others then None
          else (case reduce rs_min (List.map_filter q_watermark others) of
                  None \<Rightarrow> None
                | Some least \<Rightarrow> if flt (fadd least drift) candidate then Some (Misaligned (fadd least drift)) else None))"

section \<open>Requests\<close>

datatype Disposition = Accepted | AcceptedLate | AcceptedTooLate | SideOutputted | Dropped

type_synonym stream = "StreamState \<times> PartitionState list"

definition watermark_delay :: "StreamConfig \<Rightarrow> f64" where
  "watermark_delay config = (case g_watermark_mode config of
     Bounded \<Rightarrow> g_max_out_of_orderness config | Monotonic \<Rightarrow> num 0
   | SourceManaged \<Rightarrow> g_max_out_of_orderness config)"

definition disposition :: "StreamConfig \<Rightarrow> StreamState \<Rightarrow> f64 \<Rightarrow> Disposition" where
  "disposition config s event_time =
     (if is_too_late s event_time (g_allowed_lateness config)
      then (case g_late_policy config of Drop \<Rightarrow> Dropped | SideOutput \<Rightarrow> SideOutputted | Accept \<Rightarrow> AcceptedTooLate)
      else if is_late s event_time then AcceptedLate else Accepted)"

definition append_record :: "StreamConfig \<Rightarrow> nat \<Rightarrow> f64 \<Rightarrow> f64 \<Rightarrow> stream \<Rightarrow> refusal + (Disposition \<times> stream)" where
  "append_record config part event_time now = (\<lambda>(s, ps).
     if g_partitions config \<le> part then Inl OutsideStream
     else
       let delay = watermark_delay config;
           generate = g_watermark_mode config \<noteq> SourceManaged;
           candidate = raise_to (q_watermark (ps ! part)) (fsub event_time delay)
       in case (if generate then ensure_watermark_alignment config ps part candidate else None) of
            Some r \<Rightarrow> Inl r
          | None \<Rightarrow>
              (case observe event_time delay generate now (ps ! part) of
                 Inl r \<Rightarrow> Inl r
               | Inr (offset, p) \<Rightarrow>
                   Inr (disposition config s event_time, refresh_stream config now (s, ps[part := p]))))"

definition advance_stream :: "StreamConfig \<Rightarrow> nat \<Rightarrow> f64 \<Rightarrow> f64 \<Rightarrow> stream \<Rightarrow> refusal + stream" where
  "advance_stream config part watermark now = (\<lambda>(s, ps).
     if g_partitions config \<le> part then Inl OutsideStream
     else case ensure_watermark_alignment config ps part watermark of
            Some r \<Rightarrow> Inl r
          | None \<Rightarrow> (case advance_watermark watermark now (ps ! part) of
                       Inl r \<Rightarrow> Inl r
                     | Inr p \<Rightarrow> Inr (refresh_stream config now (s, ps[part := p]))))"

definition seal_partition :: "StreamConfig \<Rightarrow> nat \<Rightarrow> f64 \<Rightarrow> stream \<Rightarrow> refusal + stream" where
  "seal_partition config part now = (\<lambda>(s, ps).
     if g_partitions config \<le> part then Inl OutsideStream
     else Inr (refresh_stream config now (s, ps[part := (ps ! part)
       \<lparr> q_sealed := True, q_idle := False, q_last_activity_at := now \<rparr>])))"

datatype Request = Append nat f64 f64 | Advance nat f64 f64 | Seal nat f64 | Tick f64

text \<open>A transaction that fails stores nothing. \<open>Tick\<close> is the periodic \<open>maintain_event_time\<close> of
  \<open>maintenance.rs\<close>, which only refreshes the stream.\<close>

definition committed :: "stream \<Rightarrow> refusal + stream \<Rightarrow> stream" where
  "committed before outcome = (case outcome of Inl r \<Rightarrow> before | Inr after \<Rightarrow> after)"

fun stream_step :: "StreamConfig \<Rightarrow> stream \<Rightarrow> Request \<Rightarrow> stream" where
  "stream_step config st (Append part t now) =
     committed st (map_sum (\<lambda>r. r) snd (append_record config part t now st))"
| "stream_step config st (Advance part w now) = committed st (advance_stream config part w now st)"
| "stream_step config st (Seal part now) = committed st (seal_partition config part now st)"
| "stream_step config st (Tick now) = refresh_stream config now st"

definition open_stream :: "StreamConfig \<Rightarrow> f64 \<Rightarrow> stream" where
  "open_stream config now = (new_stream now, map (\<lambda>i. new_partition i now) [0..<g_partitions config])"

section \<open>Watermarks never move back\<close>

definition opt_le :: "f64 option \<Rightarrow> f64 option \<Rightarrow> bool" where
  "opt_le a b \<longleftrightarrow> a = b \<or> a = None \<or> (case (a, b) of (Some x, Some y) \<Rightarrow> fle x y | _ \<Rightarrow> False)"

lemma opt_le_refl [simp]: "opt_le a a"
  by (simp add: opt_le_def)

lemma opt_le_None [simp]: "opt_le None a"
  by (simp add: opt_le_def)

lemma opt_le_trans: "opt_le a b \<Longrightarrow> opt_le b c \<Longrightarrow> opt_le a c"
  by (auto simp: opt_le_def split: option.splits intro: fle_trans)

definition valid_mark :: "f64 option \<Rightarrow> bool" where
  "valid_mark w \<longleftrightarrow> w \<noteq> Some NaN"

lemma raise_to_not_NaN: "valid_mark w \<Longrightarrow> x \<noteq> NaN \<Longrightarrow> raise_to w x \<noteq> NaN"
  by (auto simp: raise_to_def valid_mark_def rs_max_def split: option.splits)

lemma raise_to_ge: "valid_mark w \<Longrightarrow> x \<noteq> NaN \<Longrightarrow> opt_le w (Some (raise_to w x))"
  using rs_max_ge by (auto simp: raise_to_def opt_le_def valid_mark_def split: option.splits)

definition sane_part :: "PartitionState \<Rightarrow> bool" where
  "sane_part p \<longleftrightarrow> valid_mark (q_watermark p) \<and> valid_mark (q_max_event_time p)"

definition sane_stream :: "StreamConfig \<Rightarrow> stream \<Rightarrow> bool" where
  "sane_stream config = (\<lambda>(s, ps). valid_mark (z_watermark s) \<and> length ps = g_partitions config
     \<and> (\<forall>p \<in> set ps. sane_part p))"

definition marks :: "stream \<Rightarrow> f64 option \<times> f64 option list" where
  "marks = (\<lambda>(s, ps). (z_watermark s, map q_watermark ps))"

definition marks_le :: "f64 option \<times> f64 option list \<Rightarrow> f64 option \<times> f64 option list \<Rightarrow> bool" where
  "marks_le a b \<longleftrightarrow> opt_le (fst a) (fst b) \<and> list_all2 opt_le (snd a) (snd b)"

lemma mark_idle_frame [simp]:
  "q_watermark (mark_idle config now p) = q_watermark p" "q_max_event_time (mark_idle config now p) = q_max_event_time p"
  "q_sealed (mark_idle config now p) = q_sealed p" "q_partition (mark_idle config now p) = q_partition p"
  "sane_part (mark_idle config now p) = sane_part p"
  by (simp_all add: mark_idle_def sane_part_def split: option.splits)

lemma foldl_rs_min_least:
  "a \<noteq> NaN \<Longrightarrow> NaN \<notin> set xs
   \<Longrightarrow> foldl rs_min a xs \<in> insert a (set xs) \<and> (\<forall>x \<in> insert a (set xs). fle (foldl rs_min a xs) x)"
proof (induction xs arbitrary: a)
  case (Cons x xs)
  then have x: "rs_min a x \<noteq> NaN" "NaN \<notin> set xs" "x \<noteq> NaN" by (auto simp: rs_min_def)
  then have IH: "foldl rs_min (rs_min a x) xs \<in> insert (rs_min a x) (set xs)"
    "\<forall>y \<in> insert (rs_min a x) (set xs). fle (foldl rs_min (rs_min a x) xs) y"
    using Cons.IH by blast+
  have "fle (rs_min a x) a" "fle (rs_min a x) x" using rs_min_le Cons.prems by auto
  moreover have "rs_min a x \<in> {a, x}" using x by (auto simp: rs_min_def)
  ultimately show ?case using IH by (auto intro: fle_trans)
qed simp

lemma reduce_rs_min:
  assumes "reduce rs_min xs = Some m" "NaN \<notin> set xs"
  shows "m \<in> set xs" and "\<forall>x \<in> set xs. fle m x"
proof -
  obtain y ys where xs: "xs = y # ys" "m = foldl rs_min y ys"
    using assms(1) by (cases xs) (auto simp: reduce_def)
  with assms(2) foldl_rs_min_least [of y ys] show "m \<in> set xs" "\<forall>x \<in> set xs. fle m x" by auto
qed

lemma set_map_filter: "set (List.map_filter f xs) = {y. \<exists>x \<in> set xs. f x = Some y}"
  by (auto simp: List.map_filter_def image_iff) force

lemma least_active_not_NaN:
  assumes "least_active ps = Some m" "\<forall>p \<in> set ps. sane_part p"
  shows "m \<noteq> NaN"
proof -
  have no: "NaN \<notin> set (List.map_filter q_watermark (active_partitions ps))"
    using assms(2) by (auto simp: set_map_filter active_partitions_def sane_part_def valid_mark_def)
  have "reduce rs_min (List.map_filter q_watermark (active_partitions ps)) = Some m"
    using assms(1) by (auto simp: least_active_def Let_def split: if_splits)
  from reduce_rs_min(1) [OF this no] no show ?thesis by auto
qed

lemma refresh_stream_marks:
  assumes "sane_stream config (s, ps)"
  shows "sane_stream config (refresh_stream config now (s, ps)) \<and>
    marks_le (marks (s, ps)) (marks (refresh_stream config now (s, ps)))"
proof -
  let ?ps = "map (mark_idle config now) ps"
  have ps: "length ps = g_partitions config" "\<forall>p \<in> set ps. sane_part p" "valid_mark (z_watermark s)"
    using assms by (auto simp: sane_stream_def)
  define w where "w = (case least_active ?ps of None \<Rightarrow> z_watermark s
    | Some candidate \<Rightarrow> Some (raise_to (z_watermark s) candidate))"
  have w: "valid_mark w" "opt_le (z_watermark s) w"
    using ps least_active_not_NaN [of ?ps] raise_to_not_NaN raise_to_ge
    by (auto simp: w_def valid_mark_def split: option.splits)
  obtain t c where r: "refresh config now (s, ps) = (c, t, ?ps)" "z_watermark t = w"
    by (simp add: refresh_def Let_def w_def)
  then have out: "refresh_stream config now (s, ps) = (if c then t else s, ?ps)"
    by (simp add: refresh_stream_def)
  show ?thesis using ps w r(2)
    by (auto simp: out sane_stream_def marks_def marks_le_def o_def list_all2_same)
qed

lemma marks_le_trans: "marks_le a b \<Longrightarrow> marks_le b c \<Longrightarrow> marks_le a c"
  using list_all2_trans [of opt_le opt_le opt_le] by (auto simp: marks_le_def intro: opt_le_trans)

lemma marks_le_refl: "marks_le a a"
  by (simp add: marks_le_def list_all2_same)

text \<open>Replacing one partition by one with a watermark that is no lower, and refreshing.\<close>

lemma update_marks:
  assumes st: "sane_stream config (s, ps)" and k: "k < g_partitions config"
    and p: "sane_part p" "opt_le (q_watermark (ps ! k)) (q_watermark p)"
  shows "sane_stream config (refresh_stream config now (s, ps[k := p])) \<and>
    marks_le (marks (s, ps)) (marks (refresh_stream config now (s, ps[k := p])))"
proof -
  have "sane_stream config (s, ps[k := p])"
    using st p(1) by (auto simp: sane_stream_def dest: subsetD [OF set_update_subset_insert])
  moreover have "list_all2 opt_le (map q_watermark ps) (map q_watermark (ps[k := p]))"
    using p(2) st k by (auto simp: list_all2_conv_all_nth sane_stream_def nth_list_update)
  then have "marks_le (marks (s, ps)) (marks (s, ps[k := p]))" by (simp add: marks_def marks_le_def)
  ultimately show ?thesis using refresh_stream_marks [of config s "ps[k := p]" now] marks_le_trans by blast
qed

lemma valid_config_delay: "validate_config config \<Longrightarrow> finite64 (watermark_delay config)"
  by (cases "g_watermark_mode config") (auto simp: watermark_delay_def validate_config_def non_negative_def num_def)

lemma fsub_finite_not_NaN: "finite64 a \<Longrightarrow> finite64 b \<Longrightarrow> fsub a b \<noteq> NaN"
  by (cases a; cases b) (auto simp: fsub_def)

lemma observe_sane:
  assumes "observe t delay generate now p = Inr (k, p')" "sane_part p" "finite64 delay"
  shows "sane_part p'" and "opt_le (q_watermark p) (q_watermark p')"
proof -
  have t: "finite64 t" and p': "p' = p\<lparr> q_max_event_time := Some (raise_to (q_max_event_time p) t),
      q_watermark := (if generate then Some (raise_to (q_watermark p) (fsub t delay)) else q_watermark p),
      q_last_activity_at := now, q_idle := False, q_next_offset := q_next_offset p + 1 \<rparr>"
    using assms(1) by (auto simp: observe_def split: if_splits)
  have "t \<noteq> NaN" "fsub t delay \<noteq> NaN" using t assms(3) fsub_finite_not_NaN by auto
  with assms(2) show "sane_part p'" "opt_le (q_watermark p) (q_watermark p')"
    using raise_to_not_NaN raise_to_ge by (auto simp: p' sane_part_def valid_mark_def)
qed

lemma advance_sane:
  assumes "advance_watermark w now p = Inr p'" "sane_part p"
  shows "sane_part p'" and "opt_le (q_watermark p) (q_watermark p')"
proof -
  have w: "finite64 w" "\<not> (case q_watermark p of None \<Rightarrow> False | Some current \<Rightarrow> flt w current)"
    and p': "p' = p\<lparr> q_watermark := Some w, q_declared_watermark := Some w, q_last_activity_at := now, q_idle := False \<rparr>"
    using assms(1) by (auto simp: advance_watermark_def split: if_splits)
  have "w \<noteq> NaN" using w(1) by auto
  with w(2) assms(2) show "sane_part p'" "opt_le (q_watermark p) (q_watermark p')"
    by (auto simp: p' sane_part_def valid_mark_def opt_le_def flt_iff_not_fle split: option.splits)
qed

lemma append_record_cases:
  assumes "append_record config k t now (s, ps) = Inr (d, st')"
  obtains offset p where "k < g_partitions config"
    "observe t (watermark_delay config) (g_watermark_mode config \<noteq> SourceManaged) now (ps ! k) = Inr (offset, p)"
    "d = disposition config s t" "st' = refresh_stream config now (s, ps[k := p])"
  using assms by (auto simp: append_record_def Let_def split: if_splits option.splits sum.splits prod.splits)

lemma advance_stream_cases:
  assumes "advance_stream config k w now (s, ps) = Inr st'"
  obtains p where "k < g_partitions config" "advance_watermark w now (ps ! k) = Inr p"
    "st' = refresh_stream config now (s, ps[k := p])"
  using assms by (auto simp: advance_stream_def split: if_splits option.splits sum.splits)

lemma committed_cases:
  assumes "P before" "\<And>after. outcome = Inr after \<Longrightarrow> P after"
  shows "P (committed before outcome)"
  using assms by (cases outcome) (auto simp: committed_def)

lemma stream_step_marks:
  assumes config: "validate_config config" and st: "sane_stream config (s, ps)"
  shows "sane_stream config (stream_step config (s, ps) e) \<and>
    marks_le (marks (s, ps)) (marks (stream_step config (s, ps) e))"
proof -
  let ?P = "\<lambda>st'. sane_stream config st' \<and> marks_le (marks (s, ps)) (marks st')"
  have here: "?P (s, ps)" using st by (simp add: marks_le_refl)
  have part: "sane_part (ps ! k)" if "k < g_partitions config" for k
    using st that by (auto simp: sane_stream_def)
  show ?thesis
  proof (cases e)
    case (Append k t now)
    have "?P st'" if "append_record config k t now (s, ps) = Inr (d, st')" for d st'
      using that
    proof (rule append_record_cases)
      fix offset p
      assume "k < g_partitions config" "st' = refresh_stream config now (s, ps[k := p])"
        "observe t (watermark_delay config) (g_watermark_mode config \<noteq> SourceManaged) now (ps ! k) = Inr (offset, p)"
      then show ?thesis
        using observe_sane part valid_config_delay [OF config] update_marks [OF st] by metis
    qed
    then have "?P (committed (s, ps) (map_sum (\<lambda>r. r) snd (append_record config k t now (s, ps))))"
      by (intro committed_cases [where P = ?P, OF here]) (auto simp: map_sum_def split: sum.splits)
    with Append show ?thesis by simp
  next
    case (Advance k w now)
    have "?P st'" if "advance_stream config k w now (s, ps) = Inr st'" for st'
      using that by (rule advance_stream_cases) (use advance_sane part update_marks [OF st] in metis)
    then show ?thesis unfolding Advance stream_step.simps by (rule committed_cases [where P = ?P, OF here])
  next
    case (Seal k now)
    have "?P st'" if "seal_partition config k now (s, ps) = Inr st'" for st'
      using that part [of k] update_marks [OF st, of k "(ps ! k)\<lparr> q_sealed := True, q_idle := False, q_last_activity_at := now \<rparr>" now]
      by (auto simp: seal_partition_def sane_part_def split: if_splits)
    then show ?thesis unfolding Seal stream_step.simps by (rule committed_cases [where P = ?P, OF here])
  next
    case (Tick now)
    with refresh_stream_marks [OF st, of now] show ?thesis by simp
  qed
qed

lemma open_stream_sane: "sane_stream config (open_stream config now)"
  by (auto simp: sane_stream_def open_stream_def new_stream_def new_partition_def sane_part_def valid_mark_def)

definition stream_init :: "StreamConfig \<Rightarrow> stream \<Rightarrow> bool" where
  "stream_init config st \<longleftrightarrow> validate_config config \<and> (\<exists>now. st = open_stream config now)"

definition stream_inv :: "StreamConfig \<Rightarrow> stream \<Rightarrow> bool" where
  "stream_inv config st \<longleftrightarrow> validate_config config \<and> sane_stream config st"

interpretation durable_stream: forward_machine "stream_init config" "stream_step config" "\<lambda>_. True"
  "stream_inv config" marks marks_le
  for config
proof unfold_locales
  show "stream_inv config s" if "stream_init config s" for s
    using that open_stream_sane by (auto simp: stream_init_def stream_inv_def)
  show "stream_inv config (stream_step config s e)" if "stream_inv config s" for s e
    using that stream_step_marks [of config "fst s" "snd s"] by (simp add: stream_inv_def)
  show "marks_le (marks s) (marks (stream_step config s e))" if "stream_inv config s" for s e
    using that stream_step_marks [of config "fst s" "snd s"] by (simp add: stream_inv_def)
  show "marks_le v v" for v by (rule marks_le_refl)
  show "marks_le u w" if "marks_le u v" "marks_le v w" for u v w using that by (rule marks_le_trans)
qed

text \<open>
  C13. Over any sequence of requests, accepted or refused, in any order, with partitions falling idle,
  waking up and being sealed: the stream's watermark never moves back (and is never undefined again
  once it is set), nor does that of any partition.
\<close>

theorem watermark_monotone:
  assumes "validate_config config"
  shows "opt_le (z_watermark (fst (foldl (stream_step config) (open_stream config now) es)))
      (z_watermark (fst (foldl (stream_step config) (open_stream config now) (es @ fs)))) \<and>
    list_all2 opt_le (map q_watermark (snd (foldl (stream_step config) (open_stream config now) es)))
      (map q_watermark (snd (foldl (stream_step config) (open_stream config now) (es @ fs))))"
proof -
  have "stream_init config (open_stream config now)" using assms by (auto simp: stream_init_def)
  from durable_stream.run_forward [OF this, of es fs] show ?thesis
    by (auto simp: list_all_iff marks_le_def marks_def split: prod.splits)
qed

section \<open>The watermark is the least of the partitions\<close>

definition least_of :: "f64 option list \<Rightarrow> f64 option" where
  "least_of ws = (if ws \<noteq> [] \<and> None \<notin> set ws then reduce rs_min (map the ws) else None)"

definition all_active :: "PartitionState list \<Rightarrow> bool" where
  "all_active ps \<longleftrightarrow> list_all (\<lambda>p. \<not> q_sealed p \<and> \<not> q_idle p) ps"

lemma map_filter_all: "list_all (\<lambda>x. f x \<noteq> None) xs \<Longrightarrow> List.map_filter f xs = map (\<lambda>x. the (f x)) xs"
  by (induction xs) (auto simp: List.map_filter_simps)

lemma least_active_all: "all_active ps \<Longrightarrow> least_active ps = least_of (map q_watermark ps)"
proof -
  assume "all_active ps"
  then have a: "active_partitions ps = ps"
    by (auto simp: all_active_def active_partitions_def list_all_iff filter_id_conv)
  have "None \<notin> set (map q_watermark ps) \<longleftrightarrow> list_all (\<lambda>p. q_watermark p \<noteq> None) ps"
    by (force simp: list_all_iff)
  then show ?thesis
    using map_filter_all [of q_watermark ps] by (simp add: least_active_def a Let_def least_of_def o_def)
qed

lemma least_of_Some:
  assumes "least_of ws = Some m" "\<forall>w \<in> set ws. valid_mark w"
  shows "Some m \<in> set ws" and "\<forall>w \<in> set ws. \<exists>v. w = Some v \<and> fle m v"
proof -
  have ws: "None \<notin> set ws" "reduce rs_min (map the ws) = Some m"
    using assms(1) by (auto simp: least_of_def split: if_splits)
  have some: "\<exists>v. w = Some v \<and> v \<noteq> NaN" if "w \<in> set ws" for w
    by (cases w) (use that ws(1) assms(2) in \<open>auto simp: valid_mark_def\<close>)
  have no: "NaN \<notin> set (map the ws)" using some by force
  have "m \<in> set (map the ws)" by (rule reduce_rs_min(1) [OF ws(2) no])
  then show "Some m \<in> set ws" using some by force
  have "\<forall>x \<in> set (map the ws). fle m x" by (rule reduce_rs_min(2) [OF ws(2) no])
  then show "\<forall>w \<in> set ws. \<exists>v. w = Some v \<and> fle m v" using some by force
qed

lemma least_of_defined: "ws \<noteq> [] \<Longrightarrow> None \<notin> set ws \<Longrightarrow> \<exists>m. least_of ws = Some m"
  by (cases ws) (auto simp: least_of_def reduce_def)

text \<open>Raising marks raises the least of them.\<close>

lemma least_of_mono:
  assumes "list_all2 opt_le ws vs" "\<forall>w \<in> set ws. valid_mark w" "\<forall>v \<in> set vs. valid_mark v" "least_of ws = Some m"
  shows "\<exists>n. least_of vs = Some n \<and> fle m n"
proof -
  have len: "length ws = length vs" using assms(1) by (rule list_all2_lengthD)
  have ws: "ws \<noteq> []" "None \<notin> set ws" using assms(4) by (auto simp: least_of_def split: if_splits)
  have above: "\<exists>y. vs ! i = Some y \<and> fle m y" if i: "i < length vs" for i
  proof -
    obtain x where x: "ws ! i = Some x" "fle m x" using least_of_Some(2) [OF assms(4,2)] i len by (metis nth_mem)
    moreover have "opt_le (ws ! i) (vs ! i)" using assms(1) i by (simp add: list_all2_conv_all_nth)
    ultimately show ?thesis by (auto simp: opt_le_def split: option.splits intro: fle_trans)
  qed
  have "None \<notin> set vs"
  proof
    assume "None \<in> set vs"
    then obtain i where "i < length vs" "vs ! i = None" by (auto simp: in_set_conv_nth)
    with above [of i] show False by simp
  qed
  moreover have "vs \<noteq> []" using ws(1) len by auto
  ultimately obtain n where n: "least_of vs = Some n" using least_of_defined by blast
  have "Some n \<in> set vs" using least_of_Some(1) [OF n assms(3)] .
  then obtain i where "i < length vs" "vs ! i = Some n" by (auto simp: in_set_conv_nth)
  with above [of i] n show ?thesis by auto
qed

definition at_least :: "StreamConfig \<Rightarrow> stream \<Rightarrow> bool" where
  "at_least config = (\<lambda>(s, ps). sane_stream config (s, ps) \<and> all_active ps
     \<and> z_watermark s = least_of (map q_watermark ps))"

lemma refresh_at_least:
  assumes idle: "g_idle_timeout config = None" and active: "all_active ps"
    and valid: "valid_mark (z_watermark s)" "\<forall>p \<in> set ps. sane_part p"
    and old: "\<And>w. z_watermark s = Some w \<Longrightarrow> \<exists>n. least_of (map q_watermark ps) = Some n \<and> fle w n"
  shows "snd (refresh_stream config now (s, ps)) = ps \<and>
    z_watermark (fst (refresh_stream config now (s, ps))) = least_of (map q_watermark ps) \<or>
    snd (refresh_stream config now (s, ps)) = ps \<and> z_watermark s = None \<and> least_of (map q_watermark ps) = None \<and>
    z_watermark (fst (refresh_stream config now (s, ps))) = None"
proof -
  let ?l = "least_of (map q_watermark ps)"
  have idem: "map (mark_idle config now) ps = ps" by (simp add: mark_idle_def idle map_idI)
  obtain t c where r: "refresh config now (s, ps) = (c, t, ps)"
    and t: "z_watermark t = (case ?l of None \<Rightarrow> z_watermark s | Some x \<Rightarrow> Some (raise_to (z_watermark s) x))"
    and c: "\<not> c \<Longrightarrow> opt_feq (z_watermark t) (z_watermark s)"
    by (simp add: refresh_def idem Let_def least_active_all [OF active])
  have "z_watermark t = ?l"
  proof (cases ?l)
    case None
    then show ?thesis using t old by (cases "z_watermark s") auto
  next
    case (Some n)
    have "raise_to (z_watermark s) n = n"
      using old Some fle_not_NaN by (cases "z_watermark s") (auto simp: raise_to_def rs_max_def)
    with Some t show ?thesis by simp
  qed
  moreover have "z_watermark s = z_watermark t" if "\<not> c"
    using c [OF that] by (auto simp: opt_feq_def feq_def split: option.splits)
  ultimately show ?thesis by (auto simp: refresh_stream_def r)
qed

lemma update_at_least:
  assumes idle: "g_idle_timeout config = None" and st: "at_least config (s, ps)" and k: "k < g_partitions config"
    and p: "sane_part p" "opt_le (q_watermark (ps ! k)) (q_watermark p)" "\<not> q_sealed p" "\<not> q_idle p"
  shows "at_least config (refresh_stream config now (s, ps[k := p])) \<and>
    snd (refresh_stream config now (s, ps[k := p])) = ps[k := p]"
proof -
  have sane: "sane_stream config (s, ps)" and active: "all_active ps" and z: "z_watermark s = least_of (map q_watermark ps)"
    using st by (auto simp: at_least_def)
  have ps: "length ps = g_partitions config" "\<forall>q \<in> set ps. sane_part q" "valid_mark (z_watermark s)"
    using sane by (auto simp: sane_stream_def)
  have a: "all_active (ps[k := p])" using active p(3,4)
    by (auto simp: all_active_def list_all_iff dest!: subsetD [OF set_update_subset_insert])
  have v: "\<forall>q \<in> set (ps[k := p]). sane_part q" using ps(2) p(1) by (auto dest!: subsetD [OF set_update_subset_insert])
  have up: "list_all2 opt_le (map q_watermark ps) (map q_watermark (ps[k := p]))"
    using p(2) k ps(1) by (auto simp: list_all2_conv_all_nth nth_list_update)
  have marks: "\<forall>w \<in> set (map q_watermark ps). valid_mark w" "\<forall>w \<in> set (map q_watermark (ps[k := p])). valid_mark w"
    using ps(2) v unfolding sane_part_def by auto
  have old: "\<exists>n. least_of (map q_watermark (ps[k := p])) = Some n \<and> fle w n" if "z_watermark s = Some w" for w
    using least_of_mono [OF up marks] that z by simp
  have "sane_stream config (refresh_stream config now (s, ps[k := p]))"
    using update_marks [OF sane k p(1,2)] by blast
  with refresh_at_least [OF idle a ps(3) v old, of now] a show ?thesis
    by (cases "refresh_stream config now (s, ps[k := p])") (auto simp: at_least_def)
qed

lemma observe_active: "observe t delay generate now p = Inr (k, p') \<Longrightarrow> \<not> q_sealed p' \<and> \<not> q_idle p'"
  by (auto simp: observe_def split: if_splits)

lemma advance_active: "advance_watermark w now p = Inr p' \<Longrightarrow> \<not> q_sealed p' \<and> \<not> q_idle p'"
  by (auto simp: advance_watermark_def split: if_splits)

fun seals :: "Request \<Rightarrow> bool" where
  "seals (Seal k now) = True"
| "seals _ = False"

lemma tick_at_least:
  assumes config: "validate_config config" and idle: "g_idle_timeout config = None" and st: "at_least config (s, ps)"
  shows "at_least config (refresh_stream config now (s, ps)) \<and> snd (refresh_stream config now (s, ps)) = ps"
proof -
  have k: "0 < g_partitions config" using config by (simp add: validate_config_def)
  then have "ps ! 0 \<in> set ps" using st by (simp add: at_least_def sane_stream_def)
  then have "sane_part (ps ! 0)" "\<not> q_sealed (ps ! 0)" "\<not> q_idle (ps ! 0)"
    using st by (auto simp: at_least_def sane_stream_def all_active_def list_all_iff)
  from update_at_least [OF idle st k this(1) opt_le_refl this(2,3)] show ?thesis by simp
qed

lemma at_least_step:
  assumes config: "validate_config config" and idle: "g_idle_timeout config = None"
    and st: "at_least config (s, ps)" and e: "\<not> seals e"
  shows "at_least config (stream_step config (s, ps) e)"
proof -
  have sane: "\<And>k. k < g_partitions config \<Longrightarrow> sane_part (ps ! k)"
    using st by (auto simp: at_least_def sane_stream_def)
  show ?thesis
  proof (cases e)
    case (Append k t now)
    have "at_least config st'" if "append_record config k t now (s, ps) = Inr (d, st')" for d st'
      using that
    proof (rule append_record_cases)
      fix offset p
      assume "k < g_partitions config" "st' = refresh_stream config now (s, ps[k := p])"
        "observe t (watermark_delay config) (g_watermark_mode config \<noteq> SourceManaged) now (ps ! k) = Inr (offset, p)"
      then show ?thesis
        using observe_sane sane valid_config_delay [OF config] update_at_least [OF idle st] observe_active by metis
    qed
    then have "at_least config (committed (s, ps) (map_sum (\<lambda>r. r) snd (append_record config k t now (s, ps))))"
      by (intro committed_cases [where P = "at_least config", OF st]) (auto simp: map_sum_def split: sum.splits)
    with Append show ?thesis by simp
  next
    case (Advance k w now)
    have "at_least config st'" if "advance_stream config k w now (s, ps) = Inr st'" for st'
      using that
      by (rule advance_stream_cases) (use advance_sane sane update_at_least [OF idle st] advance_active in metis)
    then show ?thesis unfolding Advance stream_step.simps
      by (rule committed_cases [where P = "at_least config", OF st])
  next
    case (Tick now)
    with tick_at_least [OF config idle st] show ?thesis by simp
  qed (use e in simp)
qed

lemma open_at_least: "at_least config (open_stream config now)"
proof -
  let ?ps = "map (\<lambda>i. new_partition i now) [0..<g_partitions config]"
  have "least_of (map q_watermark ?ps) = None" by (auto simp: least_of_def new_partition_def image_iff)
  moreover have "all_active ?ps" by (auto simp: all_active_def list_all_iff new_partition_def)
  ultimately show ?thesis
    using open_stream_sane [of config now] by (simp add: at_least_def open_stream_def new_stream_def)
qed

lemma at_least_run:
  assumes "validate_config config" "g_idle_timeout config = None" "list_all (\<lambda>e. \<not> seals e) es" "at_least config st"
  shows "at_least config (foldl (stream_step config) st es)"
  using assms(3,4)
proof (induction es arbitrary: st)
  case (Cons e es)
  then show ?case using at_least_step [OF assms(1,2), of "fst st" "snd st" e] by simp
qed simp

text \<open>
  C20. While no partition is sealed or may fall idle, the stream's watermark is exactly the least of the
  watermarks of its partitions after any sequence of appends and advances, accepted or refused: it is
  undefined exactly when some partition has none, and otherwise every partition has reached it and
  one of them is at it. (The code only ever raises it; that this computes the minimum is the
  refinement.)
\<close>

theorem watermark_is_minimum:
  assumes "validate_config config" "g_idle_timeout config = None" "list_all (\<lambda>e. \<not> seals e) es"
  shows "let (s, ps) = foldl (stream_step config) (open_stream config now) es in
    case z_watermark s of
      None \<Rightarrow> \<exists>p \<in> set ps. q_watermark p = None
    | Some w \<Rightarrow> (\<forall>p \<in> set ps. \<exists>v. q_watermark p = Some v \<and> fle w v) \<and> (\<exists>p \<in> set ps. q_watermark p = Some w)"
proof -
  obtain s ps where st: "foldl (stream_step config) (open_stream config now) es = (s, ps)" by fastforce
  have "at_least config (s, ps)"
    using at_least_run [OF assms open_at_least, of now] by (simp add: st)
  then have z: "z_watermark s = least_of (map q_watermark ps)" and ps: "ps \<noteq> []" "\<forall>p \<in> set ps. sane_part p"
    using assms(1) by (auto simp: at_least_def sane_stream_def validate_config_def)
  show ?thesis
  proof (cases "z_watermark s")
    case None
    then show ?thesis using z ps(1) least_of_defined [of "map q_watermark ps"] by (force simp: st)
  next
    case (Some w)
    have "\<forall>w \<in> set (map q_watermark ps). valid_mark w" using ps(2) by (auto simp: sane_part_def)
    with least_of_Some [of "map q_watermark ps" w] Some z show ?thesis by (force simp: st)
  qed
qed

section \<open>Bounded disorder is never late\<close>

lemma rs_max_fsub: "finite64 a \<Longrightarrow> finite64 b \<Longrightarrow> finite64 d
   \<Longrightarrow> rs_max (fsub a d) (fsub b d) = fsub (rs_max a b) d"
proof -
  assume "finite64 a" "finite64 b" "finite64 d"
  then obtain x y z where f: "a = Fin x" "b = Fin y" "d = Fin z" by (cases a; cases b; cases d) auto
  have "fle (mk64 (x - z)) (mk64 (y - z))" if "x \<le> y" using that by (intro mk64_mono) simp
  moreover have "fle (mk64 (y - z)) (mk64 (x - z))" if "\<not> x \<le> y" using that by (intro mk64_mono) simp
  ultimately show ?thesis using fle_antisym by (auto simp: f fsub_def rs_max_def)
qed

lemma finite_raise_to: "finite64 t \<Longrightarrow> (\<And>m. w = Some m \<Longrightarrow> finite64 m) \<Longrightarrow> finite64 (raise_to w t)"
  by (auto simp: raise_to_def rs_max_def split: option.splits)

definition bounded_part :: "f64 \<Rightarrow> PartitionState \<Rightarrow> bool" where
  "bounded_part d p \<longleftrightarrow> q_watermark p = map_option (\<lambda>m. fsub m d) (q_max_event_time p)
     \<and> (\<forall>m. q_max_event_time p = Some m \<longrightarrow> finite64 m)"

lemma observe_bounded:
  assumes "observe t d True now p = Inr (k, p')" "bounded_part d p" "finite64 d"
  shows "bounded_part d p'"
proof -
  have t: "finite64 t" using assms(1) by (auto simp: observe_def split: if_splits)
  have p': "q_max_event_time p' = Some (raise_to (q_max_event_time p) t)"
    "q_watermark p' = Some (raise_to (q_watermark p) (fsub t d))"
    using assms(1) by (auto simp: observe_def split: if_splits)
  have "raise_to (q_watermark p) (fsub t d) = fsub (raise_to (q_max_event_time p) t) d"
    using assms(2,3) t rs_max_fsub by (auto simp: bounded_part_def raise_to_def split: option.splits)
  moreover have "finite64 (raise_to (q_max_event_time p) t)"
    using assms(2) t by (intro finite_raise_to) (auto simp: bounded_part_def)
  ultimately show ?thesis by (simp add: bounded_part_def p')
qed

fun appends :: "Request \<Rightarrow> bool" where
  "appends (Append k t now) = True"
| "appends (Tick now) = True"
| "appends _ = False"

definition bounded_inv :: "StreamConfig \<Rightarrow> stream \<Rightarrow> bool" where
  "bounded_inv config st \<longleftrightarrow> at_least config st \<and> list_all (bounded_part (g_max_out_of_orderness config)) (snd st)"

lemma bounded_step:
  assumes config: "validate_config config" "g_idle_timeout config = None" "g_watermark_mode config = Bounded"
    and st: "bounded_inv config (s, ps)" and e: "appends e"
  shows "bounded_inv config (stream_step config (s, ps) e)"
proof (cases "\<exists>now. e = Tick now")
  case True
  then show ?thesis using st tick_at_least [OF config(1,2)] by (auto simp: bounded_inv_def)
next
  case False
  then obtain k t now where e: "e = Append k t now" using e by (cases e) auto
  let ?d = "g_max_out_of_orderness config"
  have d: "watermark_delay config = ?d" "finite64 ?d"
    using config(3) valid_config_delay [OF config(1)] by (simp_all add: watermark_delay_def)
  have old: "at_least config (s, ps)" "list_all (bounded_part ?d) ps" using st by (auto simp: bounded_inv_def)
  have len: "length ps = g_partitions config" "\<And>k. k < g_partitions config \<Longrightarrow> sane_part (ps ! k)"
    using old(1) by (auto simp: at_least_def sane_stream_def)
  have "bounded_inv config st'" if "append_record config k t now (s, ps) = Inr (c, st')" for c st'
    using that
  proof (rule append_record_cases)
    fix offset p
    assume k: "k < g_partitions config" and st': "st' = refresh_stream config now (s, ps[k := p])"
      and "observe t (watermark_delay config) (g_watermark_mode config \<noteq> SourceManaged) now (ps ! k) = Inr (offset, p)"
    then have p: "observe t ?d True now (ps ! k) = Inr (offset, p)" by (simp add: d config(3))
    have "bounded_part ?d (ps ! k)" using old(2) k len(1) by (simp add: list_all_length)
    then have "list_all (bounded_part ?d) (ps[k := p])"
      using observe_bounded [OF p _ d(2)] old(2)
      by (auto simp: list_all_iff dest!: subsetD [OF set_update_subset_insert])
    moreover have "at_least config st' \<and> snd st' = ps[k := p]"
      unfolding st' by (rule update_at_least [OF config(2) old(1) k])
        (use observe_sane [OF p len(2) [OF k] d(2)] observe_active [OF p] in auto)
    ultimately show ?thesis by (simp add: bounded_inv_def)
  qed
  then have "bounded_inv config (committed (s, ps) (map_sum (\<lambda>r. r) snd (append_record config k t now (s, ps))))"
    by (intro committed_cases [where P = "bounded_inv config", OF st]) (auto simp: map_sum_def split: sum.splits)
  then show ?thesis by (simp add: e)
qed

lemma bounded_run:
  assumes "validate_config config" "g_idle_timeout config = None" "g_watermark_mode config = Bounded"
    and "list_all appends es" "bounded_inv config st"
  shows "bounded_inv config (foldl (stream_step config) st es)"
  using assms(4,5)
proof (induction es arbitrary: st)
  case (Cons e es)
  then show ?case using bounded_step [OF assms(1-3), of "fst st" "snd st" e] by simp
qed simp

lemma open_bounded: "bounded_inv config (open_stream config now)"
  using open_at_least [of config now]
  by (auto simp: bounded_inv_def open_stream_def list_all_iff bounded_part_def new_partition_def)

text \<open>Too late is late, for a lateness that is not negative.\<close>

lemma fsub_non_negative: "valid64 w \<Longrightarrow> w \<noteq> NaN \<Longrightarrow> non_negative l \<Longrightarrow> fle (fsub w l) w"
  using fsub_le [of w _ l] by (cases w; cases l) (auto simp: non_negative_def num_def fsub_def)

text \<open>
  C21. The promise of a bounded stream (no idleness policy) as long as its watermark comes from its records: over
  appends and ticks in any interleaving (no watermark is declared and nothing is sealed), a record with a
  finite time that trails the latest event of its own partition by less than the configured disorder is
  not late whatever the late policy, and to append it gives \<open>accepted\<close>; it is refused only where the stream has
  an alignment policy, and then only for its drift from the other partitions.
\<close>

theorem bounded_disorder_accepted:
  assumes "validate_config config" "g_idle_timeout config = None" "g_watermark_mode config = Bounded"
    and "list_all appends es" and "k < g_partitions config"
    and run: "foldl (stream_step config) (open_stream config now) es = (s, ps)"
    and fresh: "\<And>m. q_max_event_time (ps ! k) = Some m \<Longrightarrow> flt (fsub m (g_max_out_of_orderness config)) t"
    and "finite64 t"
  shows "\<not> is_late s t \<and> disposition config s t = Accepted \<and>
    (case append_record config k t arrival (s, ps) of
       Inr (d, st) \<Rightarrow> d = Accepted
     | Inl reason \<Rightarrow> g_alignment_max_drift config \<noteq> None \<and> (\<exists>bound. reason = Misaligned bound))"
proof -
  let ?d = "g_max_out_of_orderness config"
  have inv: "at_least config (s, ps)" "list_all (bounded_part ?d) ps"
    using bounded_run [OF assms(1-4) open_bounded, of now] by (simp_all add: run bounded_inv_def)
  have len: "length ps = g_partitions config" using inv(1) by (simp add: at_least_def sane_stream_def)
  have marks: "\<forall>w \<in> set (map q_watermark ps). valid_mark w"
    using inv(1) by (auto simp: at_least_def sane_stream_def sane_part_def)
  have "\<not> fle t w \<and> valid64 w \<and> w \<noteq> NaN" if w: "z_watermark s = Some w" for w
  proof -
    have l: "least_of (map q_watermark ps) = Some w" using inv(1) w by (simp add: at_least_def)
    have k: "q_watermark (ps ! k) \<in> set (map q_watermark ps)" using assms(5) len by simp
    then obtain v where v: "q_watermark (ps ! k) = Some v" "fle w v" using least_of_Some(2) [OF l marks] by blast
    have "bounded_part ?d (ps ! k)" using inv(2) assms(5) len by (simp add: list_all_length)
    with v(1) obtain m where m: "q_max_event_time (ps ! k) = Some m" "v = fsub m ?d"
      by (cases "q_max_event_time (ps ! k)") (auto simp: bounded_part_def)
    have "\<not> fle t w" using fresh [OF m(1)] v(2) m(2) fle_trans fle_flt_False by blast
    moreover have "Some w \<in> set (map q_watermark ps)" by (rule least_of_Some(1) [OF l marks])
    then obtain p where p: "p \<in> set ps" "q_watermark p = Some w" by auto
    then have "valid64 w" using inv(2) by (cases "q_max_event_time p") (auto simp: list_all_iff bounded_part_def)
    ultimately show ?thesis using v(2) fle_not_NaN by blast
  qed
  moreover have "fle (fsub w (g_allowed_lateness config)) w" if "valid64 w" "w \<noteq> NaN" for w
    using that assms(1) by (intro fsub_non_negative) (auto simp: validate_config_def)
  ultimately have "\<not> is_late s t" "\<not> is_too_late s t (g_allowed_lateness config)"
    by (auto simp: is_late_def is_too_late_def split: option.splits intro: fle_trans)
  then have d: "\<not> is_late s t" "disposition config s t = Accepted" by (simp_all add: disposition_def)
  have "\<not> q_sealed (ps ! k)" using inv(1) assms(5) len by (simp add: at_least_def all_active_def list_all_length)
  then obtain offset p where "observe t (watermark_delay config) True arrival (ps ! k) = Inr (offset, p)"
    using assms(8) by (auto simp: observe_def Let_def)
  then show ?thesis using d assms(3,5)
    by (auto simp: append_record_def ensure_watermark_alignment_def Let_def split: option.splits)
qed

section \<open>Examples\<close>

definition sample_config :: StreamConfig where
  "sample_config = \<lparr> g_partitions = 2, g_watermark_mode = Bounded, g_max_out_of_orderness = num 5,
     g_idle_timeout = None, g_allowed_lateness = num 2, g_alignment_max_drift = None, g_late_policy = SideOutput \<rparr>"

lemma num_not_NaN: "num k \<noteq> NaN" "finite64 (num k)"
  by (simp_all add: num_def)

lemma sample_config_valid: "validate_config sample_config"
  by (simp add: sample_config_def validate_config_def non_negative_def num_def)

lemma watermark_monotone_witness:
  "opt_le (z_watermark (fst (foldl (stream_step sample_config) (open_stream sample_config (num 0)) [Append 0 (num 10) (num 1)])))
     (z_watermark (fst (foldl (stream_step sample_config) (open_stream sample_config (num 0))
       ([Append 0 (num 10) (num 1)] @ [Append 1 (num 12) (num 2), Seal 0 (num 3), Append 1 (num 3) (num 4)]))))"
  using watermark_monotone [OF sample_config_valid] by blast

lemma watermark_is_minimum_witness:
  "let (s, ps) = foldl (stream_step sample_config) (open_stream sample_config (num 0))
      [Append 0 (num 10) (num 1), Append 1 (num 12) (num 2)] in
    case z_watermark s of
      None \<Rightarrow> \<exists>p \<in> set ps. q_watermark p = None
    | Some w \<Rightarrow> (\<forall>p \<in> set ps. \<exists>v. q_watermark p = Some v \<and> fle w v) \<and> (\<exists>p \<in> set ps. q_watermark p = Some w)"
  by (rule watermark_is_minimum [OF sample_config_valid]) (simp_all add: sample_config_def)

lemma sample_stream:
  "foldl (stream_step sample_config) (open_stream sample_config (num 0)) [Append 0 (num 10) (num 1), Append 1 (num 12) (num 2)]
     = (\<lparr> z_watermark = Some (num 5), z_finalized = False, z_max_event_time = Some (num 12), z_updated_at = num 2 \<rparr>,
        [\<lparr> q_partition = 0, q_next_offset = 1, q_max_event_time = Some (num 10), q_watermark = Some (num 5),
           q_declared_watermark = None, q_last_activity_at = num 1, q_idle = False, q_sealed = False \<rparr>,
         \<lparr> q_partition = 1, q_next_offset = 1, q_max_event_time = Some (num 12), q_watermark = Some (num 7),
           q_declared_watermark = None, q_last_activity_at = num 2, q_idle = False, q_sealed = False \<rparr>])"
  by (simp add: sample_config_def open_stream_def new_stream_def new_partition_def append_record_def
      watermark_delay_def ensure_watermark_alignment_def observe_def committed_def refresh_stream_def refresh_def
      mark_idle_def least_active_def active_partitions_def reduce_def raise_to_def rs_max_def rs_min_def fsub_num
      opt_feq_def feq_def List.map_filter_simps upt_rec num_not_NaN)

lemma bounded_disorder_accepted_witness:
  "\<exists>st. append_record sample_config 0 (num 6) (num 3) (foldl (stream_step sample_config) (open_stream sample_config (num 0))
     [Append 0 (num 10) (num 1), Append 1 (num 12) (num 2)]) = Inr (Accepted, st) \<and>
   disposition sample_config \<lparr> z_watermark = Some (num 5), z_finalized = False, z_max_event_time = Some (num 12),
     z_updated_at = num 2 \<rparr> (num 6) = Accepted"
proof -
  have "g_idle_timeout sample_config = None" "g_watermark_mode sample_config = Bounded"
    "list_all appends [Append 0 (num 10) (num 1), Append 1 (num 12) (num 2)]" "0 < g_partitions sample_config"
    by (simp_all add: sample_config_def)
  note rule = bounded_disorder_accepted [OF sample_config_valid this sample_stream]
  have "flt (fsub (num 10) (g_max_out_of_orderness sample_config)) (num 6)" by (simp add: sample_config_def fsub_num)
  with rule [of "num 6" "num 3"] show ?thesis unfolding sample_stream
    by (auto simp: num_not_NaN sample_config_def split: sum.splits)
qed

end
