(* ===== verification/EventFrontier.thy ===== *)
theory EventFrontier
  imports EventTime
begin

text \<open>
  The completeness frontier of a stream, \<open>completeness_frontier\<close> of \<open>crates/server/src/streaming.rs\<close>:
  the time up to which the stream is final. Temporal joins and versioned lookups release their
  results by it. It never moves back, and unless the stream's policy accepts records that are too
  late, no record at or before it is accepted later. Both rest on the monotone watermark of
  \<open>EventTime\<close>.
\<close>

section \<open>The frontier\<close>

text \<open>\<open>f64::MAX\<close>.\<close>

definition f64_max :: f64 where
  "f64_max = Fin (of_int (2 ^ 53 - 1) * pow2 971)"

lemma f64_max_self [simp]: "f64_max \<noteq> NaN" "fle f64_max f64_max"
  by (simp_all add: f64_max_def)

definition completeness_frontier :: "StreamConfig \<Rightarrow> StreamState \<Rightarrow> f64 option" where
  "completeness_frontier config s =
     (if z_finalized s then Some f64_max
      else map_option (\<lambda>w. fsub w (g_allowed_lateness config)) (z_watermark s))"

definition temporal_join_frontier :: "StreamConfig \<Rightarrow> StreamState \<Rightarrow> StreamConfig \<Rightarrow> StreamState \<Rightarrow> f64 option" where
  "temporal_join_frontier probe_config probe_state version_config version_state =
     (case (completeness_frontier probe_config probe_state, completeness_frontier version_config version_state) of
        (Some probe, Some version) \<Rightarrow> Some (rs_min probe version)
      | _ \<Rightarrow> None)"

section \<open>Times\<close>

text \<open>The greatest finite double is above every other.\<close>

lemma valid64_le_max: "valid64 (Fin q) \<Longrightarrow> fle (Fin q) f64_max"
proof (cases "0 < q")
  case True
  assume "valid64 (Fin q)"
  then have v: "rnd_pos q = q" "q < pow2 1024" using True by (auto simp: round64_pos)
  obtain m where m: "q = of_int m * pow2 (grid q)" "m \<le> 2 ^ 53"
    using rnd_pos_significand [OF True] v(1) by metis
  have g: "grid q \<le> 971" using v(2) True ilog2_less_iff [of q 1024] by (simp add: grid_def)
  have "q \<le> of_int (2 ^ 53 - 1) * pow2 971"
  proof (cases "grid q = 971")
    case top: True
    then have "of_int m * pow2 971 < pow2 53 * pow2 971" using v(2) m(1) pow2_add [of 53 971] by simp
    then have "(of_int m :: rat) < pow2 53" by (rule mult_right_less_imp_less) simp
    then have "(of_int m :: rat) < of_int (2 ^ 53)" by (simp only: pow2_int [of 53]) simp
    then have "m \<le> 2 ^ 53 - 1" by (simp only: of_int_less_iff)
    then have "(of_int m :: rat) \<le> of_int (2 ^ 53 - 1)" by (simp only: of_int_le_iff)
    then have "of_int m * pow2 971 \<le> of_int (2 ^ 53 - 1) * pow2 971" by (rule mult_right_mono) simp
    with m(1) top show ?thesis by simp
  next
    case False
    then have low: "pow2 (grid q) \<le> pow2 970" using g by simp
    have "(of_int m :: rat) \<le> of_int (2 ^ 53)" using m(2) by (simp only: of_int_le_iff)
    then have "of_int m * pow2 (grid q) \<le> of_int (2 ^ 53) * pow2 970"
      using low by (intro mult_mono) auto
    also have "of_int (2 ^ 53) * pow2 970 \<le> of_int (2 ^ 53 - 1) * pow2 971"
      using pow2_add [of 1 970] by (simp add: pow2_int [of 1])
    finally show ?thesis using m(1) by simp
  qed
  then show ?thesis by (simp add: f64_max_def)
next
  case False
  then have "q \<le> 0" by simp
  also have "0 \<le> of_int (2 ^ 53 - 1) * pow2 971" by (intro mult_nonneg_nonneg) auto
  finally show ?thesis by (simp add: f64_max_def)
qed

text \<open>What a watermark can be: a double that is not NaN and below \<open>PInf\<close>.\<close>

definition mark_time :: "f64 \<Rightarrow> bool" where
  "mark_time x \<longleftrightarrow> valid64 x \<and> x \<noteq> NaN \<and> x \<noteq> PInf"

lemma mark_time_le_max: "mark_time x \<Longrightarrow> fle x f64_max"
  using valid64_le_max by (cases x) (auto simp: mark_time_def f64_max_def)

lemma mark_time_finite: "valid64 x \<Longrightarrow> finite64 x \<Longrightarrow> mark_time x"
  by (cases x) (auto simp: mark_time_def)

lemma mark_time_max: "mark_time a \<Longrightarrow> mark_time b \<Longrightarrow> mark_time (rs_max a b)"
  by (auto simp: rs_max_def)

lemma mark_time_min: "mark_time a \<Longrightarrow> mark_time b \<Longrightarrow> mark_time (rs_min a b)"
  by (auto simp: rs_min_def)

lemma mark_time_fsub: "mark_time w \<Longrightarrow> non_negative l \<Longrightarrow> mark_time (fsub w l)"
  using fsub_non_negative [of w l]
  by (cases w; cases l) (auto simp: mark_time_def non_negative_def num_def fsub_def)

lemma NInf_least: "x \<noteq> NaN \<Longrightarrow> fle NInf x"
  by (cases x) auto

lemma fsub_mono: "fle w v \<Longrightarrow> mark_time v \<Longrightarrow> non_negative l \<Longrightarrow> fle (fsub w l) (fsub v l)"
  by (cases w; cases v; cases l)
    (auto simp: mark_time_def non_negative_def num_def fsub_def intro: mk64_mono NInf_least)

definition mark_times :: "f64 option \<Rightarrow> bool" where
  "mark_times w \<longleftrightarrow> (\<forall>x. w = Some x \<longrightarrow> mark_time x)"

lemma mark_times_simps [simp]: "mark_times None" "mark_times (Some x) \<longleftrightarrow> mark_time x"
  by (simp_all add: mark_times_def)

lemma mark_times_raise: "mark_times w \<Longrightarrow> mark_time x \<Longrightarrow> mark_time (raise_to w x)"
  by (cases w) (auto simp: raise_to_def intro: mark_time_max)

section \<open>What every request keeps\<close>

text \<open>The stream is finalized exactly when every partition is sealed, and every watermark is a time.\<close>

definition gated :: "StreamConfig \<Rightarrow> stream \<Rightarrow> bool" where
  "gated config = (\<lambda>(s, ps). sane_stream config (s, ps) \<and> z_finalized s = list_all q_sealed ps
     \<and> mark_times (z_watermark s) \<and> (\<forall>p \<in> set ps. mark_times (q_watermark p)))"

lemma foldl_closed: "\<lbrakk>P a; \<forall>x \<in> set xs. P x; \<And>x y. P x \<Longrightarrow> P y \<Longrightarrow> P (f x y)\<rbrakk> \<Longrightarrow> P (foldl f a xs)"
  by (induction xs arbitrary: a) auto

lemma least_active_mark_time:
  assumes "least_active ps = Some m" "\<forall>p \<in> set ps. mark_times (q_watermark p)"
  shows "mark_time m"
proof -
  let ?ws = "List.map_filter q_watermark (active_partitions ps)"
  have ws: "\<forall>w \<in> set ?ws. mark_time w"
    using assms(2) by (auto simp: set_map_filter active_partitions_def mark_times_def)
  have "reduce rs_min ?ws = Some m" using assms(1) by (auto simp: least_active_def Let_def split: if_splits)
  then obtain w vs where "?ws = w # vs" "m = foldl rs_min w vs" by (auto simp: reduce_def split: list.splits)
  with ws show ?thesis by (auto intro: foldl_closed [where P = mark_time] mark_time_min)
qed

lemma sealed_mark_idle [simp]: "list_all q_sealed (map (mark_idle config now) ps) = list_all q_sealed ps"
  by (simp add: list_all_iff)

lemma refresh_gated:
  assumes "sane_stream config (s, ps)" "mark_times (z_watermark s)" "\<forall>p \<in> set ps. mark_times (q_watermark p)"
  shows "gated config (refresh_stream config now (s, ps)) \<and>
    list_all q_sealed (snd (refresh_stream config now (s, ps))) = list_all q_sealed ps"
proof -
  let ?ps = "map (mark_idle config now) ps"
  obtain t c where r: "refresh config now (s, ps) = (c, t, ?ps)"
    and t: "z_finalized t = list_all q_sealed ps" "z_watermark t = (case least_active ?ps of None \<Rightarrow> z_watermark s
      | Some candidate \<Rightarrow> Some (raise_to (z_watermark s) candidate))"
    and c: "\<not> c \<Longrightarrow> z_finalized t = z_finalized s"
    by (simp add: refresh_def Let_def)
  have ps: "\<forall>p \<in> set ?ps. mark_times (q_watermark p)" using assms(3) by simp
  then have "mark_times (z_watermark t)"
    using assms(2) least_active_mark_time [of ?ps] mark_times_raise by (auto simp: t(2) split: option.splits)
  moreover have "sane_stream config (refresh_stream config now (s, ps))"
    using refresh_stream_marks [OF assms(1)] by blast
  ultimately show ?thesis using assms(2) ps c t(1) by (auto simp: gated_def refresh_stream_def r)
qed

lemma update_gated:
  assumes st: "gated config (s, ps)" and k: "k < g_partitions config"
    and p: "sane_part p" "mark_times (q_watermark p)"
  shows "gated config (refresh_stream config now (s, ps[k := p])) \<and>
    list_all q_sealed (snd (refresh_stream config now (s, ps[k := p]))) = list_all q_sealed (ps[k := p])"
  using st p by (intro refresh_gated)
    (auto simp: gated_def sane_stream_def dest!: subsetD [OF set_update_subset_insert])

text \<open>Numbers that arrive are doubles.\<close>

fun request_ok :: "Request \<Rightarrow> bool" where
  "request_ok (Append k t now) = valid64 t"
| "request_ok (Advance k w now) = valid64 w"
| "request_ok (Seal k now) = True"
| "request_ok (Tick now) = True"

lemma observe_mark_times:
  assumes "observe t delay generate now p = Inr (k, p')" "mark_times (q_watermark p)" "valid64 t" "non_negative delay"
  shows "mark_times (q_watermark p') \<and> \<not> q_sealed p"
  using assms mark_time_finite [OF assms(3)] mark_time_fsub [of t delay] mark_times_raise
  by (auto simp: observe_def split: if_splits)

lemma advance_mark_times:
  assumes "advance_watermark w now p = Inr p'" "valid64 w"
  shows "mark_times (q_watermark p') \<and> \<not> q_sealed p"
  using assms mark_time_finite by (auto simp: advance_watermark_def split: if_splits)

lemma valid_config_delay_non_negative: "validate_config config \<Longrightarrow> non_negative (watermark_delay config)"
  by (cases "g_watermark_mode config") (auto simp: watermark_delay_def validate_config_def non_negative_def num_def)

text \<open>What a request leaves is again gated, and sealed partitions stay sealed.\<close>

definition gated_after :: "StreamConfig \<Rightarrow> stream \<Rightarrow> stream \<Rightarrow> bool" where
  "gated_after config st st' \<longleftrightarrow> gated config st' \<and> (list_all q_sealed (snd st) \<longrightarrow> list_all q_sealed (snd st'))"

lemma append_gated:
  assumes config: "validate_config config" and st: "gated config (s, ps)" and t: "valid64 t"
    and run: "append_record config k t now (s, ps) = Inr (d, st')"
  shows "gated_after config (s, ps) st' \<and> \<not> z_finalized s"
  using run
proof (rule append_record_cases)
  fix offset p
  assume k: "k < g_partitions config" and st': "st' = refresh_stream config now (s, ps[k := p])"
    and p: "observe t (watermark_delay config) (g_watermark_mode config \<noteq> SourceManaged) now (ps ! k) = Inr (offset, p)"
  have part: "ps ! k \<in> set ps" "sane_part (ps ! k)" "mark_times (q_watermark (ps ! k))"
    using st k by (auto simp: gated_def sane_stream_def)
  have new: "sane_part p" "mark_times (q_watermark p)" "\<not> q_sealed (ps ! k)"
    using observe_sane [OF p part(2)] observe_mark_times [OF p part(3) t] valid_config_delay [OF config]
      valid_config_delay_non_negative [OF config] by auto
  then have "\<not> list_all q_sealed ps" using part(1) by (auto simp: list_all_iff)
  with update_gated [OF st k new(1,2), of now] st show ?thesis by (auto simp: gated_after_def st' gated_def)
qed

lemma advance_gated:
  assumes st: "gated config (s, ps)" and w: "valid64 w" and run: "advance_stream config k w now (s, ps) = Inr st'"
  shows "gated_after config (s, ps) st'"
  using run
proof (rule advance_stream_cases)
  fix p
  assume k: "k < g_partitions config" and p: "advance_watermark w now (ps ! k) = Inr p"
    and st': "st' = refresh_stream config now (s, ps[k := p])"
  have part: "ps ! k \<in> set ps" "sane_part (ps ! k)" using st k by (auto simp: gated_def sane_stream_def)
  have new: "sane_part p" "mark_times (q_watermark p)" "\<not> q_sealed (ps ! k)"
    using advance_sane [OF p part(2)] advance_mark_times [OF p w] by auto
  then have "\<not> list_all q_sealed ps" using part(1) by (auto simp: list_all_iff)
  with update_gated [OF st k new(1,2), of now] show ?thesis by (simp add: gated_after_def st')
qed

lemma seal_gated:
  assumes st: "gated config (s, ps)" and run: "seal_partition config k now (s, ps) = Inr st'"
  shows "gated_after config (s, ps) st'"
proof -
  let ?p = "(ps ! k)\<lparr> q_sealed := True, q_idle := False, q_last_activity_at := now \<rparr>"
  have k: "k < g_partitions config" and st': "st' = refresh_stream config now (s, ps[k := ?p])"
    using run by (auto simp: seal_partition_def split: if_splits)
  have "sane_part (ps ! k)" "mark_times (q_watermark (ps ! k))" using st k by (auto simp: gated_def sane_stream_def)
  then have "sane_part ?p" "mark_times (q_watermark ?p)" by (simp_all add: sane_part_def)
  moreover have "list_all q_sealed (ps[k := ?p])" if "list_all q_sealed ps"
    using that by (auto simp: list_all_iff dest!: subsetD [OF set_update_subset_insert])
  ultimately show ?thesis using update_gated [OF st k, of ?p now] by (simp add: gated_after_def st')
qed

lemma gated_refl: "gated config st \<Longrightarrow> gated_after config st st"
  by (simp add: gated_after_def)

lemma stream_step_gated:
  assumes config: "validate_config config" and st: "gated config (s, ps)" and e: "request_ok e"
  shows "gated_after config (s, ps) (stream_step config (s, ps) e)"
proof (cases e)
  case (Append k t now)
  then have "gated_after config (s, ps) (committed (s, ps) (map_sum (\<lambda>r. r) snd (append_record config k t now (s, ps))))"
    using append_gated [OF config st] e
    by (intro committed_cases [where P = "gated_after config (s, ps)", OF gated_refl [OF st]])
      (auto simp: map_sum_def split: sum.splits)
  with Append show ?thesis by simp
next
  case (Tick now)
  have "gated_after config (s, ps) (refresh_stream config now (s, ps))"
    using refresh_gated [of config s ps now] st by (simp add: gated_after_def gated_def)
  with Tick show ?thesis by simp
qed (use e advance_gated [OF st] seal_gated [OF st] gated_refl [OF st] in
      \<open>auto intro: committed_cases [where P = "gated_after config (s, ps)"]\<close>)

section \<open>The frontier never moves back\<close>

lemma frontier_mono:
  assumes config: "validate_config config" and a: "gated config a" and b: "gated_after config a b"
    and up: "opt_le (z_watermark (fst a)) (z_watermark (fst b))"
  shows "opt_le (completeness_frontier config (fst a)) (completeness_frontier config (fst b))"
proof -
  have l: "non_negative (g_allowed_lateness config)" using config by (simp add: validate_config_def)
  have marks: "mark_times (z_watermark (fst a))" "mark_times (z_watermark (fst b))"
    and fin: "z_finalized (fst a) \<Longrightarrow> z_finalized (fst b)"
    using a b by (auto simp: gated_after_def gated_def split: prod.splits)
  have "fle (fsub w (g_allowed_lateness config)) f64_max" if "z_watermark (fst a) = Some w" for w
    using marks(1) that l by (intro mark_time_le_max mark_time_fsub) simp_all
  moreover have "fle (fsub w (g_allowed_lateness config)) (fsub v (g_allowed_lateness config))"
    if "z_watermark (fst a) = Some w" "z_watermark (fst b) = Some v" "w \<noteq> v" for w v
    using up marks(2) that l by (intro fsub_mono) (auto simp: opt_le_def)
  ultimately show ?thesis
    using fin up by (auto simp: completeness_frontier_def opt_le_def split: option.splits)
qed

definition gate_inv :: "StreamConfig \<Rightarrow> stream \<Rightarrow> bool" where
  "gate_inv config st \<longleftrightarrow> validate_config config \<and> gated config st"

lemma open_gated: "validate_config config \<Longrightarrow> gated config (open_stream config now)"
  using open_stream_sane [of config now]
  by (auto simp: gated_def open_stream_def new_stream_def new_partition_def validate_config_def list_all_iff)

interpretation frontier: forward_machine "stream_init config" "stream_step config" request_ok "gate_inv config"
  "\<lambda>st. completeness_frontier config (fst st)" opt_le
  for config
proof unfold_locales
  show "gate_inv config s" if "stream_init config s" for s
    using that open_gated by (auto simp: stream_init_def gate_inv_def)
  show "gate_inv config (stream_step config s e)" if "gate_inv config s" "request_ok e" for s e
    using that stream_step_gated [of config "fst s" "snd s" e] by (simp add: gate_inv_def gated_after_def)
  show "opt_le (completeness_frontier config (fst s)) (completeness_frontier config (fst (stream_step config s e)))"
    if "gate_inv config s" "request_ok e" for s e
  proof -
    have s: "validate_config config" "gated config s" "sane_stream config (fst s, snd s)"
      using that(1) by (auto simp: gate_inv_def gated_def)
    have "opt_le (z_watermark (fst s)) (z_watermark (fst (stream_step config s e)))"
      using stream_step_marks [OF s(1,3), of e] by (auto simp: marks_le_def marks_def split: prod.splits)
    with frontier_mono [OF s(1,2)] stream_step_gated [OF s(1), of "fst s" "snd s" e] s(2) that(2)
    show ?thesis by simp
  qed
  show "opt_le v v" for v by simp
  show "opt_le u w" if "opt_le u v" "opt_le v w" for u v w using that by (rule opt_le_trans)
qed

text \<open>A record that is taken in (not dropped, not diverted) lies beyond the frontier.\<close>

definition taken :: "Disposition \<Rightarrow> bool" where
  "taken d \<longleftrightarrow> d \<in> {Accepted, AcceptedLate, AcceptedTooLate}"

lemma taken_beyond_frontier:
  assumes "validate_config config" "gated config st" "valid64 t" "g_late_policy config \<noteq> Accept"
    and run: "append_record config k t now st = Inr (d, st')" "taken d"
    and f: "completeness_frontier config (fst st) = Some f"
  shows "\<not> fle t f"
proof -
  obtain s ps where st: "st = (s, ps)" by fastforce
  have "\<not> z_finalized s" using append_gated [OF assms(1) _ assms(3)] assms(2) run(1) by (auto simp: st)
  then obtain w where "z_watermark s = Some w" "f = fsub w (g_allowed_lateness config)"
    using f by (auto simp: completeness_frontier_def st)
  moreover have "d = disposition config s t" using run(1) by (auto simp: st elim: append_record_cases)
  ultimately show ?thesis using run(2) assms(4)
    by (auto simp: taken_def disposition_def is_too_late_def split: if_splits LatePolicy.splits)
qed

text \<open>
  C12. The frontier is final. Once a stream has reported a completeness frontier \<open>f\<close>, then after any
  further requests (appends, declared watermarks, seals and idleness ticks, accepted or refused) no
  record at or before \<open>f\<close> is taken in, unless the stream's policy is to accept records that are too
  late; and the frontier is still at or beyond \<open>f\<close>.
\<close>

theorem frontier_is_final:
  assumes config: "validate_config config" "g_late_policy config \<noteq> Accept"
    and requests: "list_all request_ok (es @ fs)" "valid64 t"
    and before: "completeness_frontier config (fst (foldl (stream_step config) (open_stream config t0) es)) = Some f"
    and later: "append_record config k t now (foldl (stream_step config) (open_stream config t0) (es @ fs)) = Inr (d, st')"
  shows "(taken d \<longrightarrow> flt f t) \<and>
    (\<exists>f'. completeness_frontier config (fst st') = Some f' \<and> fle f f')"
proof -
  let ?a = "foldl (stream_step config) (open_stream config t0) es"
  let ?b = "foldl (stream_step config) (open_stream config t0) (es @ fs)"
  have init: "stream_init config (open_stream config t0)" using config(1) by (auto simp: stream_init_def)
  have inv: "gate_inv config ?a" "gate_inv config ?b"
    using frontier.run_inv [OF init requests(1)] frontier.run_inv [OF init, of es] requests(1) by simp_all
  have "opt_le (Some f) (completeness_frontier config (fst ?b))"
    using frontier.run_forward [OF init requests(1)] before by simp
  moreover have "f \<noteq> NaN"
  proof -
    have l: "non_negative (g_allowed_lateness config)" using config by (simp add: validate_config_def)
    have "mark_times (z_watermark (fst ?a))" using inv(1) by (auto simp: gate_inv_def gated_def split: prod.splits)
    with before l show ?thesis
      using mark_time_fsub by (auto simp: completeness_frontier_def f64_max_def mark_time_def split: if_splits)
  qed
  ultimately obtain g where g: "completeness_frontier config (fst ?b) = Some g" "fle f g"
    by (auto simp: opt_le_def split: option.splits)
  have b: "gated config (fst ?b, snd ?b)" using inv(2) by (simp add: gate_inv_def)
  have "\<not> fle t g" if "taken d"
    using taken_beyond_frontier [OF config(1) _ requests(2) config(2) later that g(1)] b by simp
  moreover have "t \<noteq> NaN"
    using later by (cases ?b) (auto elim!: append_record_cases simp: observe_def split: if_splits)
  ultimately have "taken d \<longrightarrow> flt f t" using g(2) \<open>f \<noteq> NaN\<close> fle_trans by (auto simp: flt_iff_not_fle)
  moreover have "opt_le (completeness_frontier config (fst ?b)) (completeness_frontier config (fst st'))"
  proof -
    have step: "stream_step config ?b (Append k t now) = st'" using later by (simp add: committed_def)
    show ?thesis using frontier.step_forward [OF inv(2), of "Append k t now"] requests(2) unfolding step by simp
  qed
  then obtain g' where "completeness_frontier config (fst st') = Some g'" "fle g g' \<or> g = g'"
    using g(1) by (auto simp: opt_le_def split: option.splits)
  with g(2) show ?thesis using fle_trans calculation by blast
qed


section \<open>An example\<close>

lemma frontier_is_final_witness:
  "\<exists>d st' f'. append_record sample_config 0 (num 4) (num 3)
      (foldl (stream_step sample_config) (open_stream sample_config (num 0))
        ([Append 0 (num 10) (num 1), Append 1 (num 12) (num 2)] @ [])) = Inr (d, st')
    \<and> taken d \<and> flt (num 3) (num 4) \<and> completeness_frontier sample_config (fst st') = Some f' \<and> fle (num 3) f'"
proof -
  let ?es = "[Append 0 (num 10) (num 1), Append 1 (num 12) (num 2)]"
  have before: "completeness_frontier sample_config
      (fst (foldl (stream_step sample_config) (open_stream sample_config (num 0)) ?es)) = Some (num 3)"
    unfolding sample_stream by (simp add: completeness_frontier_def sample_config_def fsub_num)
  have "\<exists>st'. append_record sample_config 0 (num 4) (num 3)
      (foldl (stream_step sample_config) (open_stream sample_config (num 0)) (?es @ [])) = Inr (AcceptedLate, st')"
    unfolding append_Nil2 sample_stream
    by (simp add: sample_config_def append_record_def watermark_delay_def ensure_watermark_alignment_def observe_def
        num_not_NaN disposition_def is_too_late_def is_late_def fsub_num)
  then obtain st' where run: "append_record sample_config 0 (num 4) (num 3)
      (foldl (stream_step sample_config) (open_stream sample_config (num 0)) (?es @ [])) = Inr (AcceptedLate, st')"
    by blast
  have "g_late_policy sample_config \<noteq> Accept" "list_all request_ok (?es @ [])" "valid64 (num 4)"
    by (simp_all add: sample_config_def valid64_num)
  from frontier_is_final [OF sample_config_valid this before run] run show ?thesis
    by (auto simp: taken_def)
qed

end
