(* ===== verification/StreamRecords.thy ===== *)
theory StreamRecords
  imports EventFrontier
begin

text \<open>
  The records of a stream as its operators see them (\<open>ChangeKind\<close> and \<open>StreamRecord\<close> of
  \<open>crates/server/src/streaming.rs\<close>) and the store they are kept in. The value of a record is opaque, a
  type variable. The store (RocksDB) is third-party code: a prefix of its keys is a table, a list of
  entries with distinct keys, where \<open>put\<close> replaces what its key holds; the order in which a scan returns
  the entries is a parameter.
\<close>

section \<open>Records\<close>

datatype ChangeKind = Insert | Upsert | UpdateBefore | UpdateAfter | Delete

definition weight :: "ChangeKind \<Rightarrow> int" where
  "weight kind = (case kind of Insert \<Rightarrow> 1 | Upsert \<Rightarrow> 1 | UpdateAfter \<Rightarrow> 1 | UpdateBefore \<Rightarrow> -1 | Delete \<Rightarrow> -1)"

definition is_addition :: "ChangeKind \<Rightarrow> bool" where
  "is_addition kind \<longleftrightarrow> 0 < weight kind"

record 'v StreamRecord =
  r_partition :: nat
  r_offset :: "64 word"
  r_sequence :: "64 word"
  r_event_time :: f64
  r_key :: "jsstr option"
  r_value :: 'v
  r_kind :: ChangeKind

text \<open>The identity of a record within its stream: for a temporal join that of its output and of the
  workflow it starts.\<close>

type_synonym slot = "nat \<times> 64 word"

definition slot_of :: "'v StreamRecord \<Rightarrow> slot" where
  "slot_of r = (r_partition r, r_offset r)"

definition keyed :: "'v StreamRecord \<Rightarrow> bool" where
  "keyed r \<longleftrightarrow> (case r_key r of None \<Rightarrow> False | Some k \<Rightarrow> k \<noteq> [])"

text \<open>The order of records, by event time, then by sequence number: the comparison of
  \<open>latest_version_as_of\<close> and of \<open>refresh_deduplicates\<close>.\<close>

definition version_le :: "'v StreamRecord \<Rightarrow> 'v StreamRecord \<Rightarrow> bool" where
  "version_le l r \<longleftrightarrow> (if r_event_time l = r_event_time r then r_sequence l \<le> r_sequence r
                   else total_le (r_event_time l) (r_event_time r))"

section \<open>Tables\<close>

definition scans :: "('r list \<Rightarrow> 'r list) \<Rightarrow> bool" where
  "scans scan \<longleftrightarrow> (\<forall>rs. mset (scan rs) = mset rs)"

lemma set_scans: "scans scan \<Longrightarrow> set (scan rs) = set rs"
  unfolding scans_def by (metis mset_eq_setD)

definition put_by :: "('r \<Rightarrow> 'k) \<Rightarrow> 'r \<Rightarrow> 'r list \<Rightarrow> 'r list" where
  "put_by key r rs = filter (\<lambda>x. key x \<noteq> key r) rs @ [r]"

definition delete_by :: "('r \<Rightarrow> 'k) \<Rightarrow> 'r \<Rightarrow> 'r list \<Rightarrow> 'r list" where
  "delete_by key r rs = filter (\<lambda>x. key x \<noteq> key r) rs"

definition get_by :: "('r \<Rightarrow> 'k) \<Rightarrow> 'k \<Rightarrow> 'r list \<Rightarrow> 'r option" where
  "get_by key k rs = List.find (\<lambda>x. key x = k) rs"

lemma get_put_by: "get_by key k (put_by key r rs) = (if key r = k then Some r else get_by key k rs)"
  by (induction rs) (auto simp: get_by_def put_by_def)

lemma get_delete_by: "get_by key k (delete_by key r rs) = (if key r = k then None else get_by key k rs)"
  by (induction rs) (auto simp: get_by_def delete_by_def)

lemma get_filter_by: "get_by key k (filter (\<lambda>x. P (key x)) rs) = (if P k then get_by key k rs else None)"
  by (induction rs) (auto simp: get_by_def)

lemma get_by_Some: "get_by key k rs = Some r \<Longrightarrow> r \<in> set rs \<and> key r = k"
  unfolding get_by_def by (rule find_SomeD)

lemma get_by_None: "get_by key k rs = None \<longleftrightarrow> k \<notin> key ` set rs"
  by (auto simp: get_by_def find_None_iff)

lemma get_by_in: "r \<in> set rs \<Longrightarrow> distinct (map key rs) \<Longrightarrow> get_by key (key r) rs = Some r"
  by (induction rs) (auto simp: get_by_def image_iff)

lemma distinct_keys_by:
  "distinct (map key rs) \<Longrightarrow> distinct (map key (put_by key r rs))"
  "distinct (map key rs) \<Longrightarrow> distinct (map key (delete_by key r rs))"
  by (auto simp: put_by_def delete_by_def distinct_map_filter)

end
