(* ===== verification/TemporalJoin.thy ===== *)
theory TemporalJoin
  imports StreamRecords
begin

text \<open>
  Temporal joins of the server: \<open>index_temporal_join_record\<close>, \<open>latest_temporal_join_version\<close>,
  \<open>cleanup_temporal_join_versions\<close> and \<open>refresh_temporal_joins\<close> of \<open>crates/server/src/operators.rs\<close>,
  \<open>latest_version_as_of\<close> of \<open>streaming.rs\<close>, and the requests of \<open>stream_api.rs\<close> that drive them:
  creating the join, appending a record to one of its two streams, declaring a watermark, sealing a
  partition, and the periodic \<open>maintain_event_time\<close> of \<open>maintenance.rs\<close>.

  A probe waits until both streams are complete through its time; then it is paired with the version
  of its key that was in force then, and versions that no later probe can ask for are deleted. The
  main result is that a released pair is final: it is the pair that all records of the version
  stream give, those that arrive later included.

  \<open>f64::total_cmp\<close> is \<open>total_le\<close>, for which the two zeros are one.

  The value of a record is opaque (a type variable with its equality). The store (RocksDB) is
  third-party code: \<open>scan\<close>, a parameter, is the order in which it returns the entries under a
  prefix, and \<open>scans\<close> what is relied on, that it returns each of them once. Records that other
  operators feed through an edge, which are not checked for lateness, are not part of this model.
  The proofs are in \<open>TemporalJoinFinal\<close>.
\<close>

section \<open>Versions\<close>

text \<open>\<open>Iterator::max_by\<close>: the last of the greatest elements.\<close>

definition later_version :: "'v StreamRecord \<Rightarrow> 'v StreamRecord \<Rightarrow> 'v StreamRecord" where
  "later_version a b = (if version_le a b then b else a)"

definition latest_version_as_of :: "'v StreamRecord list \<Rightarrow> f64 \<Rightarrow> 'v StreamRecord option" where
  "latest_version_as_of versions event_time =
     (case reduce later_version (filter (\<lambda>v. fle (r_event_time v) event_time) versions) of
        None \<Rightarrow> None
      | Some v \<Rightarrow> if is_addition (r_kind v) then Some v else None)"

section \<open>The join\<close>

datatype TemporalJoinType = InnerJoin | LeftJoin

record 'v TemporalJoinOutput =
  x_probe :: "'v StreamRecord"
  x_version :: "'v StreamRecord option"
  x_as_of :: f64
  x_watermark :: "f64 option"
  x_workflow :: "slot option"

record 'v TemporalJoin =
  j_type :: TemporalJoinType
  j_probes :: "'v StreamRecord list"
  j_versions :: "'v StreamRecord list"
  j_outputs :: "slot \<rightharpoonup> 'v TemporalJoinOutput"
  j_latest_output :: "'v TemporalJoinOutput option"
  j_changes :: "('v StreamRecord \<times> 'v StreamRecord option) list"
  j_probes_received :: "64 word"
  j_versions_received :: "64 word"
  j_probes_emitted :: "64 word"
  j_matches_emitted :: "64 word"

definition new_join :: "TemporalJoinType \<Rightarrow> 'v TemporalJoin" where
  "new_join type = \<lparr> j_type = type, j_probes = [], j_versions = [], j_outputs = Map.empty,
     j_latest_output = None, j_changes = [], j_probes_received = 0, j_versions_received = 0,
     j_probes_emitted = 0, j_matches_emitted = 0 \<rparr>"

text \<open>The keys under which probes and versions are stored.\<close>

definition probe_key :: "'v StreamRecord \<Rightarrow> jsstr option \<times> slot" where
  "probe_key r = (r_key r, slot_of r)"

definition version_key :: "'v StreamRecord \<Rightarrow> jsstr option \<times> f64 \<times> 64 word" where
  "version_key r = (r_key r, r_event_time r, r_sequence r)"

datatype side = ProbeStream | VersionStream

definition retracts :: "'v StreamRecord \<Rightarrow> 'v StreamRecord \<Rightarrow> bool" where
  "retracts r candidate \<longleftrightarrow> r_key candidate = r_key r \<and> feq (r_event_time candidate) (r_event_time r)
     \<and> r_value candidate = r_value r"

text \<open>Indexing a record of one of the two streams; \<open>None\<close> is the error for a missing key.\<close>

definition index_temporal_join_record :: "('v StreamRecord list \<Rightarrow> 'v StreamRecord list) \<Rightarrow> side
    \<Rightarrow> 'v StreamRecord \<Rightarrow> 'v TemporalJoin \<Rightarrow> 'v TemporalJoin option" where
  "index_temporal_join_record scan side r j =
     (if \<not> keyed r then None
      else Some (case side of
        ProbeStream \<Rightarrow>
          (if \<not> is_addition (r_kind r)
           then j\<lparr> j_probes := (case List.find (retracts r) (scan (j_probes j)) of
                                None \<Rightarrow> j_probes j | Some c \<Rightarrow> delete_by probe_key c (j_probes j)),
                   j_probes_received := j_probes_received j + 1 \<rparr>
           else j\<lparr> j_probes := put_by probe_key r (j_probes j), j_probes_received := j_probes_received j + 1 \<rparr>)
      | VersionStream \<Rightarrow>
          j\<lparr> j_versions := put_by version_key r (j_versions j), j_versions_received := j_versions_received j + 1 \<rparr>))"

definition latest_temporal_join_version :: "('v StreamRecord list \<Rightarrow> 'v StreamRecord list)
    \<Rightarrow> 'v TemporalJoin \<Rightarrow> 'v StreamRecord \<Rightarrow> 'v StreamRecord option" where
  "latest_temporal_join_version scan j probe =
     latest_version_as_of (scan (filter (\<lambda>v. r_key v = r_key probe) (j_versions j))) (r_event_time probe)"

text \<open>Releasing one probe. \<open>start_temporal_join_workflow\<close> names the workflow after the probe.\<close>

definition start_temporal_join_workflow :: "'v TemporalJoin \<Rightarrow> 'v StreamRecord \<Rightarrow> 'v StreamRecord option \<Rightarrow> slot option" where
  "start_temporal_join_workflow j probe version =
     (if j_type j = InnerJoin \<and> version = None then None else Some (slot_of probe))"

definition temporal_join_output :: "('v StreamRecord list \<Rightarrow> 'v StreamRecord list) \<Rightarrow> f64 option
    \<Rightarrow> 'v TemporalJoin \<Rightarrow> 'v StreamRecord \<Rightarrow> 'v TemporalJoinOutput" where
  "temporal_join_output scan watermark j probe =
     (let version = latest_temporal_join_version scan j probe in
      \<lparr> x_probe = probe, x_version = version, x_as_of = r_event_time probe, x_watermark = watermark,
        x_workflow = start_temporal_join_workflow j probe version \<rparr>)"

definition emit_probe :: "('v StreamRecord list \<Rightarrow> 'v StreamRecord list) \<Rightarrow> f64 option
    \<Rightarrow> 'v TemporalJoin \<Rightarrow> 'v StreamRecord \<Rightarrow> 'v TemporalJoin" where
  "emit_probe scan watermark j probe =
     (let output = temporal_join_output scan watermark j probe; version = x_version output
      in j\<lparr> j_matches_emitted := (if version \<noteq> None then j_matches_emitted j + 1 else j_matches_emitted j),
           j_probes_emitted := j_probes_emitted j + 1,
           j_outputs := (j_outputs j)(slot_of probe \<mapsto> output),
           j_latest_output := Some output,
           j_changes := (if j_type j = LeftJoin \<or> version \<noteq> None then j_changes j @ [(probe, version)] else j_changes j),
           j_probes := delete_by probe_key probe (j_probes j) \<rparr>)"

text \<open>Of the versions of a key, in order, those before the last one at or before the frontier go; at
  the end of time all of them do.\<close>

definition rposition :: "('a \<Rightarrow> bool) \<Rightarrow> 'a list \<Rightarrow> nat option" where
  "rposition P xs = (case filter (\<lambda>i. P (xs ! i)) (rev [0..<length xs]) of [] \<Rightarrow> None | i # _ \<Rightarrow> Some i)"

definition superseded :: "f64 \<Rightarrow> 'v StreamRecord list \<Rightarrow> 'v StreamRecord list" where
  "superseded frontier versions =
     (let versions = sort_by version_le versions in
      if frontier = f64_max then versions
      else case rposition (\<lambda>v. fle (r_event_time v) frontier) versions of
             None \<Rightarrow> [] | Some retain \<Rightarrow> take retain versions)"

definition cleanup_temporal_join_versions :: "f64 \<Rightarrow> 'v StreamRecord list \<Rightarrow> 'v StreamRecord list" where
  "cleanup_temporal_join_versions frontier versions =
     filter (\<lambda>v. version_key v \<notin> version_key ` set (superseded frontier (filter (\<lambda>w. r_key w = r_key v) versions))) versions"

definition release :: "('v StreamRecord list \<Rightarrow> 'v StreamRecord list) \<Rightarrow> f64 \<Rightarrow> 'v TemporalJoin \<Rightarrow> 'v TemporalJoin" where
  "release scan frontier j =
     (let watermark = (if frontier \<noteq> f64_max then Some frontier else None);
          due_probes = filter (\<lambda>p. fle (r_event_time p) frontier) (scan (j_probes j));
          j' = foldl (emit_probe scan watermark) j due_probes
      in j'\<lparr> j_versions := cleanup_temporal_join_versions frontier (j_versions j') \<rparr>)"

definition refresh_temporal_join :: "('v StreamRecord list \<Rightarrow> 'v StreamRecord list) \<Rightarrow> (side \<times> 'v StreamRecord) option
    \<Rightarrow> f64 option \<Rightarrow> 'v TemporalJoin \<Rightarrow> 'v TemporalJoin option" where
  "refresh_temporal_join scan record frontier j =
     (case (case record of None \<Rightarrow> Some j | Some (side, r) \<Rightarrow> index_temporal_join_record scan side r j) of
        None \<Rightarrow> None
      | Some j' \<Rightarrow> Some (case frontier of None \<Rightarrow> j' | Some f \<Rightarrow> release scan f j'))"

section \<open>The server around it\<close>

text \<open>A versioned lookup (\<open>resolve_versioned_lookup\<close>) reads the records of a key the same way; it is
  refused (\<open>None\<close>) until the stream is complete through the time it asks for. The checks of the
  process that asks are left out.\<close>

definition resolve_versioned_lookup :: "('v StreamRecord list \<Rightarrow> 'v StreamRecord list) \<Rightarrow> StreamConfig
    \<Rightarrow> StreamState \<Rightarrow> 'v StreamRecord list \<Rightarrow> jsstr \<Rightarrow> f64 \<Rightarrow> 'v StreamRecord option option" where
  "resolve_versioned_lookup scan config state records key as_of =
     (if case completeness_frontier config state of None \<Rightarrow> False | Some f \<Rightarrow> fle as_of f
      then Some (latest_version_as_of (scan (filter (\<lambda>r. r_key r = Some key) records)) as_of)
      else None)"

record JoinSetup =
  s_probe_config :: StreamConfig
  s_version_config :: StreamConfig
  s_join_type :: TemporalJoinType

record 'v World =
  u_probe :: stream
  u_version :: stream
  u_probe_log :: "'v StreamRecord list"
  u_version_log :: "'v StreamRecord list"
  u_sequence :: "64 word"
  u_join :: "'v TemporalJoin option"

definition config_of :: "JoinSetup \<Rightarrow> side \<Rightarrow> StreamConfig" where
  "config_of setup side = (case side of ProbeStream \<Rightarrow> s_probe_config setup | VersionStream \<Rightarrow> s_version_config setup)"

definition stream_of :: "side \<Rightarrow> 'v World \<Rightarrow> stream" where
  "stream_of side w = (case side of ProbeStream \<Rightarrow> u_probe w | VersionStream \<Rightarrow> u_version w)"

definition log_of :: "side \<Rightarrow> 'v World \<Rightarrow> 'v StreamRecord list" where
  "log_of side w = (case side of ProbeStream \<Rightarrow> u_probe_log w | VersionStream \<Rightarrow> u_version_log w)"

definition set_stream :: "side \<Rightarrow> stream \<Rightarrow> 'v World \<Rightarrow> 'v World" where
  "set_stream side st w = (case side of ProbeStream \<Rightarrow> w\<lparr> u_probe := st \<rparr> | VersionStream \<Rightarrow> w\<lparr> u_version := st \<rparr>)"

definition put_record :: "side \<Rightarrow> 'v StreamRecord \<Rightarrow> 'v World \<Rightarrow> 'v World" where
  "put_record side r w = (case side of
     ProbeStream \<Rightarrow> w\<lparr> u_probe_log := put_by slot_of r (u_probe_log w) \<rparr>
   | VersionStream \<Rightarrow> w\<lparr> u_version_log := put_by slot_of r (u_version_log w) \<rparr>)"

definition join_frontier :: "JoinSetup \<Rightarrow> 'v World \<Rightarrow> f64 option" where
  "join_frontier setup w = temporal_join_frontier (s_probe_config setup) (fst (u_probe w))
     (s_version_config setup) (fst (u_version w))"

text \<open>The last part of every transaction; an error there is an error of the whole.\<close>

definition refresh_temporal_joins :: "('v StreamRecord list \<Rightarrow> 'v StreamRecord list) \<Rightarrow> JoinSetup
    \<Rightarrow> (side \<times> 'v StreamRecord) option \<Rightarrow> 'v World \<Rightarrow> 'v World option" where
  "refresh_temporal_joins scan setup record w =
     (case u_join w of None \<Rightarrow> Some w
      | Some j \<Rightarrow> map_option (\<lambda>j'. w\<lparr> u_join := Some j' \<rparr>) (refresh_temporal_join scan record (join_frontier setup w) j))"

datatype 'v JoinRequest = Write side nat f64 "jsstr option" 'v ChangeKind f64
  | Declare side nat f64 f64 | SealPart side nat f64 | Maintain f64 | CreateJoin

definition append_stream_record :: "('v StreamRecord list \<Rightarrow> 'v StreamRecord list) \<Rightarrow> JoinSetup \<Rightarrow> side \<Rightarrow> nat \<Rightarrow> f64
    \<Rightarrow> jsstr option \<Rightarrow> 'v \<Rightarrow> ChangeKind \<Rightarrow> f64 \<Rightarrow> 'v World \<Rightarrow> 'v World option" where
  "append_stream_record scan setup side part event_time key val kind now w =
     (case append_record (config_of setup side) part event_time now (stream_of side w) of
        Inl _ \<Rightarrow> None
      | Inr (d, st) \<Rightarrow>
          let seq = u_sequence w + 1;
              r = \<lparr> r_partition = part, r_offset = q_next_offset (snd (stream_of side w) ! part), r_sequence = seq,
                    r_event_time = event_time, r_key = key, r_value = val, r_kind = kind \<rparr>;
              w' = set_stream side st (w\<lparr> u_sequence := seq \<rparr>)
          in if taken d then refresh_temporal_joins scan setup (Some (side, r)) (put_record side r w')
             else refresh_temporal_joins scan setup None w')"

fun index_all :: "('v StreamRecord list \<Rightarrow> 'v StreamRecord list) \<Rightarrow> (side \<times> 'v StreamRecord) list
    \<Rightarrow> 'v TemporalJoin \<Rightarrow> 'v TemporalJoin option" where
  "index_all scan [] j = Some j"
| "index_all scan ((side, r) # rs) j = (case index_temporal_join_record scan side r j of
     None \<Rightarrow> None | Some j' \<Rightarrow> index_all scan rs j')"

definition create_temporal_join :: "('v StreamRecord list \<Rightarrow> 'v StreamRecord list) \<Rightarrow> JoinSetup \<Rightarrow> 'v World \<Rightarrow> 'v World option" where
  "create_temporal_join scan setup w =
     (if g_late_policy (s_probe_config setup) = Accept \<or> g_late_policy (s_version_config setup) = Accept then None
      else if u_join w \<noteq> None then Some w
      else case index_all scan (map (Pair VersionStream) (scan (u_version_log w))
                                @ map (Pair ProbeStream) (scan (u_probe_log w))) (new_join (s_join_type setup)) of
             None \<Rightarrow> None
           | Some j \<Rightarrow> refresh_temporal_joins scan setup None (w\<lparr> u_join := Some j \<rparr>))"

text \<open>The transaction of a request; \<open>None\<close> when it fails.\<close>

fun transaction :: "('v StreamRecord list \<Rightarrow> 'v StreamRecord list) \<Rightarrow> JoinSetup \<Rightarrow> 'v World \<Rightarrow> 'v JoinRequest \<Rightarrow> 'v World option" where
  "transaction scan setup w (Write side part event_time key val kind now) =
     append_stream_record scan setup side part event_time key val kind now w"
| "transaction scan setup w (Declare side part watermark now) =
     (case advance_stream (config_of setup side) part watermark now (stream_of side w) of
        Inl _ \<Rightarrow> None | Inr st \<Rightarrow> refresh_temporal_joins scan setup None (set_stream side st w))"
| "transaction scan setup w (SealPart side part now) =
     (case seal_partition (config_of setup side) part now (stream_of side w) of
        Inl _ \<Rightarrow> None | Inr st \<Rightarrow> refresh_temporal_joins scan setup None (set_stream side st w))"
| "transaction scan setup w (Maintain now) =
     refresh_temporal_joins scan setup None
       (w\<lparr> u_probe := refresh_stream (s_probe_config setup) now (u_probe w),
          u_version := refresh_stream (s_version_config setup) now (u_version w) \<rparr>)"
| "transaction scan setup w CreateJoin = create_temporal_join scan setup w"

definition world_step :: "('v StreamRecord list \<Rightarrow> 'v StreamRecord list) \<Rightarrow> JoinSetup \<Rightarrow> 'v World \<Rightarrow> 'v JoinRequest \<Rightarrow> 'v World" where
  "world_step scan setup w e = (case transaction scan setup w e of None \<Rightarrow> w | Some w' \<Rightarrow> w')"

definition new_world :: "JoinSetup \<Rightarrow> f64 \<Rightarrow> 'v World" where
  "new_world setup now = \<lparr> u_probe = open_stream (s_probe_config setup) now,
     u_version = open_stream (s_version_config setup) now, u_probe_log = [], u_version_log = [],
     u_sequence = 0, u_join = None \<rparr>"

end
