(* ===== verification/StreamLog.thy ===== *)
theory StreamLog
  imports StreamRecords
begin

text \<open>
  A stream with the log of its records: the numbers that requests give to records, and the frontier that
  the records to come lie beyond. What joins and other operators prove of a server rests on these.
\<close>

section \<open>The order of records\<close>

lemma version_le_refl [simp]: "version_le a a"
  by (simp add: version_le_def)

lemma version_le_total: "version_le a b \<or> version_le b a"
  using total_le_total linear by (auto simp: version_le_def)

lemma version_le_trans: "version_le a b \<Longrightarrow> version_le b c \<Longrightarrow> version_le a c"
  using total_le_trans total_le_antisym by (auto simp: version_le_def split: if_splits)

lemma version_le_antisym: "version_le a b \<Longrightarrow> version_le b a \<Longrightarrow> r_sequence a = r_sequence b"
  using total_le_antisym by (auto simp: version_le_def split: if_splits)

lemma version_ordering: "ordering_on A version_le"
  using version_le_total version_le_trans unfolding ordering_on_def by blast

lemma reduce_None [simp]: "reduce f xs = None \<longleftrightarrow> xs = []"
  by (cases xs) (auto simp: reduce_def)

section \<open>Sets of records\<close>

lemma set_put_by: "(\<And>x. x \<in> set rs \<Longrightarrow> key x = key r \<Longrightarrow> x = r) \<Longrightarrow> set (put_by key r rs) = insert r (set rs)"
  by (auto simp: put_by_def)

lemma distinct_put_by: "distinct rs \<Longrightarrow> distinct (put_by key r rs)"
  by (simp add: put_by_def)

section \<open>Numbers\<close>

text \<open>Records are told apart by their sequence number, and within their stream by their slot; numbers
  not yet given out are greater.\<close>

definition log_ok :: "stream \<Rightarrow> 64 word \<Rightarrow> 'v StreamRecord list \<Rightarrow> bool" where
  "log_ok st n rs \<longleftrightarrow> inj_on r_sequence (set rs) \<and> inj_on slot_of (set rs)
     \<and> (\<forall>r \<in> set rs. mark_time (r_event_time r) \<and> r_sequence r \<le> n \<and> r_partition r < length (snd st)
          \<and> r_offset r < map q_next_offset (snd st) ! r_partition r)
     \<and> (\<forall>m \<in> set (map q_next_offset (snd st)). m \<le> n)"

lemma mark_idle_next_offset [simp]: "q_next_offset (mark_idle config now p) = q_next_offset p"
  by (simp add: mark_idle_def split: option.splits)

lemma refresh_next_offset [simp]:
  "map q_next_offset (snd (refresh_stream config now (s, ps))) = map q_next_offset ps"
  by (simp add: refresh_stream_def refresh_def Let_def o_def)

lemma map_update_same [simp]: "(map f xs)[k := f (xs ! k)] = map f xs"
  by (metis list_update_id map_update)

lemma advance_next_offset:
  assumes "advance_stream config k x now st = Inr st'"
  shows "map q_next_offset (snd st') = map q_next_offset (snd st)"
proof -
  obtain s ps where st: "st = (s, ps)" by fastforce
  have same: "q_next_offset p = q_next_offset q" if "advance_watermark x now q = Inr p" for p q
    using that by (auto simp: advance_watermark_def split: if_splits)
  from assms[unfolded st] show ?thesis
    by (rule advance_stream_cases) (auto simp: st map_update dest!: same)
qed

lemma seal_next_offset:
  "seal_partition config k now st = Inr st' \<Longrightarrow> map q_next_offset (snd st') = map q_next_offset (snd st)"
  by (cases st) (auto simp: seal_partition_def map_update split: if_splits)

lemma append_next_offset:
  assumes "append_record config k t now st = Inr (d, st')" "length (snd st) = g_partitions config"
  shows "map q_next_offset (snd st') = (map q_next_offset (snd st))[k := q_next_offset (snd st ! k) + 1]"
    and "k < length (snd st)" and "finite64 t"
proof -
  obtain s ps where st: "st = (s, ps)" by fastforce
  obtain offset p where p: "k < g_partitions config" "st' = refresh_stream config now (s, ps[k := p])"
      "observe t (watermark_delay config) (g_watermark_mode config \<noteq> SourceManaged) now (ps ! k) = Inr (offset, p)"
    using assms(1)[unfolded st] by (rule append_record_cases)
  moreover have "q_next_offset p = q_next_offset (ps ! k) + 1" "finite64 t"
    using p(3) by (auto simp: observe_def split: if_splits)
  ultimately show "map q_next_offset (snd st') = (map q_next_offset (snd st))[k := q_next_offset (snd st ! k) + 1]"
    "k < length (snd st)" "finite64 t"
    using assms(2) by (simp_all add: st map_update)
qed

lemma log_ok_later:
  "log_ok st n rs \<Longrightarrow> n \<le> n' \<Longrightarrow> map q_next_offset (snd st') = map q_next_offset (snd st) \<Longrightarrow> log_ok st' n' rs"
  unfolding log_ok_def by (metis length_map order_trans)

text \<open>A record with the next numbers, while the counter is below its end.\<close>

lemma log_ok_append:
  assumes old: "log_ok st n rs" and n: "unat n + 1 < 2 ^ 64" and k: "k < length (snd st)"
    and st': "map q_next_offset (snd st') = (map q_next_offset (snd st))[k := q_next_offset (snd st ! k) + 1]"
    and r: "r_partition r = k" "r_offset r = q_next_offset (snd st ! k)" "r_sequence r = n + 1" "mark_time (r_event_time r)"
  shows "log_ok st' (n + 1) rs" and "log_ok st' (n + 1) (put_by slot_of r rs)"
    and "set (put_by slot_of r rs) = insert r (set rs)" and "r \<notin> set rs"
proof -
  let ?o = "map q_next_offset (snd st)"
  have up: "n < n + 1" using n by (simp add: word_less_nat_alt unat_word_ariths(1) take_bit_nat_eq_self)
  have nk: "q_next_offset (snd st ! k) \<le> n" using old k by (auto simp: log_ok_def)
  then have "unat (q_next_offset (snd st ! k)) + 1 < 2 ^ 64" using n by (simp add: word_le_nat_alt)
  then have ko: "q_next_offset (snd st ! k) < q_next_offset (snd st ! k) + 1"
    by (simp add: word_less_nat_alt unat_word_ariths(1) take_bit_nat_eq_self)
  have le: "q_next_offset (snd st ! k) + 1 \<le> n + 1"
    using nk up ko by (simp add: word_le_nat_alt word_less_nat_alt unat_word_ariths(1) take_bit_nat_eq_self n)
  have weaken: "m \<le> n + 1" if "m \<le> n" for m using that up by (rule order_trans [OF _ less_imp_le])
  have len: "length (snd st') = length (snd st)" using st' by (metis length_list_update length_map)
  have offsets: "m \<le> n + 1" if "m \<in> set (map q_next_offset (snd st'))" for m
  proof -
    have "m \<in> insert (q_next_offset (snd st ! k) + 1) (set ?o)"
      using that set_update_subset_insert unfolding st' by (rule rev_subsetD)
    then consider "m = q_next_offset (snd st ! k) + 1" | "m \<in> set ?o" by blast
    then show ?thesis using le weaken old by cases (auto simp: log_ok_def)
  qed
  have older: "mark_time (r_event_time x) \<and> r_sequence x \<le> n + 1 \<and> r_partition x < length (snd st')
      \<and> r_offset x < map q_next_offset (snd st') ! r_partition x" if x: "x \<in> set rs" for x
  proof -
    have "mark_time (r_event_time x) \<and> r_sequence x \<le> n \<and> r_partition x < length (snd st)
        \<and> r_offset x < ?o ! r_partition x" using old x unfolding log_ok_def by blast
    then show ?thesis using ko k unfolding st' len
      by (cases "r_partition x = k") (auto intro: weaken less_trans)
  qed
  have fresh: "r_sequence x \<noteq> r_sequence r" "slot_of x \<noteq> slot_of r" if "x \<in> set rs" for x
  proof -
    have x: "r_sequence x \<le> n" "r_offset x < ?o ! r_partition x" using old that unfolding log_ok_def by blast+
    from x(1) up r(3) show "r_sequence x \<noteq> r_sequence r" by auto
    from x(2) r(1,2) k show "slot_of x \<noteq> slot_of r" by (auto simp: slot_of_def)
  qed
  show set_put: "set (put_by slot_of r rs) = insert r (set rs)" using fresh by (intro set_put_by) auto
  show "log_ok st' (n + 1) rs" using old older offsets unfolding log_ok_def by blast
  show "r \<notin> set rs" using fresh by auto
  have "inj_on r_sequence (insert r (set rs))" "inj_on slot_of (insert r (set rs))"
    using old fresh by (auto simp: log_ok_def image_iff) metis+
  moreover have "mark_time (r_event_time r) \<and> r_sequence r \<le> n + 1 \<and> r_partition r < length (snd st')
      \<and> r_offset r < map q_next_offset (snd st') ! r_partition r"
    using r k ko unfolding len st' by simp
  ultimately show "log_ok st' (n + 1) (put_by slot_of r rs)"
    using older offsets unfolding log_ok_def set_put by blast
qed


section \<open>Frontiers\<close>

lemma gate_frontier:
  assumes "gate_inv config st" "completeness_frontier config (fst st) = Some f"
  shows "f \<noteq> NaN" and "fle f f64_max"
proof -
  have l: "non_negative (g_allowed_lateness config)" and "mark_times (z_watermark (fst st))"
    using assms(1) by (auto simp: gate_inv_def gated_def validate_config_def split: prod.splits)
  then have "f = f64_max \<or> mark_time f"
    using assms(2) mark_time_fsub by (auto simp: completeness_frontier_def split: if_splits)
  then show "f \<noteq> NaN" "fle f f64_max"
    by (elim disjE; simp add: mark_time_le_max; simp add: mark_time_def)+
qed

lemma opt_le_Some: "opt_le (Some a) F \<Longrightarrow> a \<noteq> NaN \<Longrightarrow> \<exists>b. F = Some b \<and> fle a b"
  by (auto simp: opt_le_def split: option.splits)

lemma gate_step:
  assumes "gate_inv config st" "request_ok e"
  shows "gate_inv config (stream_step config st e)"
    and "opt_le (completeness_frontier config (fst st)) (completeness_frontier config (fst (stream_step config st e)))"
  using assms frontier.step_inv frontier.step_forward by auto

lemma gate_length: "gate_inv config st \<Longrightarrow> length (snd st) = g_partitions config"
  by (cases st) (simp add: gate_inv_def gated_def sane_stream_def)

definition beyond :: "f64 option \<Rightarrow> f64 \<Rightarrow> bool" where
  "beyond F t \<longleftrightarrow> (\<forall>f. F = Some f \<longrightarrow> \<not> fle t f)"

lemma beyond_mono: "beyond F' t \<Longrightarrow> opt_le F F' \<Longrightarrow> (\<And>f. F = Some f \<Longrightarrow> f \<noteq> NaN) \<Longrightarrow> beyond F t"
  using opt_le_Some fle_trans unfolding beyond_def by metis

end
