(* ===== verification/TemporalJoinFinal.thy ===== *)
theory TemporalJoinFinal
  imports TemporalJoin StreamLog
begin

text \<open>
  Temporal joins are final and complete. The invariant relates what the join keeps to the records
  of its two streams: versions that were deleted are superseded at or before the frontier, probes that
  wait lie beyond it (\<open>core\<close>), numbers are not given out twice (\<open>log_ok\<close>), and an output is what all
  versions give (\<open>final_output\<close>). Every transaction keeps it (\<open>world_step_kept\<close>); the monotone
  frontier of \<open>EventFrontier\<close> carries it over to records that arrive later.
\<close>

section \<open>The version in force\<close>

lemma foldl_later_version:
  "foldl later_version a xs \<in> insert a (set xs) \<and> (\<forall>x \<in> insert a (set xs). version_le x (foldl later_version a xs))"
proof (induction xs arbitrary: a)
  case (Cons x xs)
  have "version_le a (later_version a x)" "version_le x (later_version a x)" "later_version a x \<in> {a, x}"
    using version_le_total [of a x] by (auto simp: later_version_def)
  with Cons.IH [of "later_version a x"] show ?case using version_le_trans by auto
qed simp

lemma reduce_later_version:
  assumes "reduce later_version xs = Some m"
  shows "m \<in> set xs" and "\<forall>x \<in> set xs. version_le x m"
proof -
  obtain y ys where "xs = y # ys" "m = foldl later_version y ys"
    using assms by (cases xs) (auto simp: reduce_def)
  with foldl_later_version [of y ys] show "m \<in> set xs" "\<forall>x \<in> set xs. version_le x m" by auto
qed

text \<open>A selection of the versions answers a lookup as all of them do, when every version that was in
  force by then has one in the selection that supersedes it by then.\<close>

lemma latest_version_selection:
  assumes sub: "set xs \<subseteq> set ys" and inj: "inj_on r_sequence (set ys)"
    and cover: "\<And>y. y \<in> set ys \<Longrightarrow> fle (r_event_time y) t \<Longrightarrow> \<exists>x \<in> set xs. fle (r_event_time x) t \<and> version_le y x"
  shows "latest_version_as_of xs t = latest_version_as_of ys t"
proof -
  let ?in_force = "filter (\<lambda>v. fle (r_event_time v) t)"
  have "reduce later_version (?in_force xs) = reduce later_version (?in_force ys)"
  proof (cases "reduce later_version (?in_force ys)")
    case None
    with sub have "?in_force xs = []" by (auto simp: filter_empty_conv)
    with None show ?thesis by simp
  next
    case (Some m)
    have m: "m \<in> set ys" "fle (r_event_time m) t" "\<And>y. y \<in> set ys \<Longrightarrow> fle (r_event_time y) t \<Longrightarrow> version_le y m"
      using reduce_later_version [OF Some] by auto
    obtain x where x: "x \<in> set xs" "fle (r_event_time x) t" "version_le m x" using cover m(1,2) by blast
    then have "?in_force xs \<noteq> []" by (auto simp: filter_empty_conv)
    then obtain n where n: "reduce later_version (?in_force xs) = Some n"
      by (cases "reduce later_version (?in_force xs)") auto
    have "version_le m n" using reduce_later_version(2) [OF n] x version_le_trans by auto
    moreover have "n \<in> set ys" "version_le n m" using reduce_later_version(1) [OF n] sub m(3) by auto
    ultimately have "n = m" using version_le_antisym inj m(1) by (auto dest: inj_onD)
    with n Some show ?thesis by simp
  qed
  then show ?thesis by (simp add: latest_version_as_of_def)
qed

lemma latest_version_set:
  "set xs = set ys \<Longrightarrow> inj_on r_sequence (set ys) \<Longrightarrow> latest_version_as_of xs t = latest_version_as_of ys t"
  by (rule latest_version_selection) auto

section \<open>What the join keeps\<close>

text \<open>
  With \<open>F\<close> the frontier, \<open>P\<close> the probes and \<open>V\<close> the versions indexed so far: a version that is
  not kept is superseded at or before the frontier by one that is; a probe that waits is beyond the
  frontier; and a probe that was indexed waits, has its output, or was retracted.
\<close>

definition covered :: "f64 option \<Rightarrow> 'v StreamRecord set \<Rightarrow> 'v StreamRecord \<Rightarrow> bool" where
  "covered F kept v \<longleftrightarrow> v \<in> kept \<or> F = Some f64_max
     \<or> (\<exists>f. F = Some f \<and> (\<exists>x \<in> kept. r_key x = r_key v \<and> version_le v x \<and> fle (r_event_time x) f))"

definition versions_ok :: "f64 option \<Rightarrow> 'v StreamRecord set \<Rightarrow> 'v TemporalJoin \<Rightarrow> bool" where
  "versions_ok F V j \<longleftrightarrow> set (j_versions j) \<subseteq> V \<and> distinct (j_versions j) \<and> (\<forall>v \<in> V. covered F (set (j_versions j)) v)"

definition probes_ok :: "f64 option \<Rightarrow> 'v StreamRecord set \<Rightarrow> 'v TemporalJoin \<Rightarrow> bool" where
  "probes_ok F P j \<longleftrightarrow> set (j_probes j) \<subseteq> P \<and> (\<forall>p \<in> set (j_probes j). beyond F (r_event_time p))"

definition accounted :: "'v StreamRecord set \<Rightarrow> 'v TemporalJoin \<Rightarrow> bool" where
  "accounted P j \<longleftrightarrow> (\<forall>r \<in> P. is_addition (r_kind r) \<longrightarrow> r \<in> set (j_probes j)
     \<or> (\<exists>o'. j_outputs j (slot_of r) = Some o' \<and> x_probe o' = r)
     \<or> (\<exists>d \<in> P. \<not> is_addition (r_kind d) \<and> retracts d r))"

text \<open>An output is stored under the slot of its probe, which waits no more.\<close>

definition outputs_ok :: "'v StreamRecord set \<Rightarrow> 'v TemporalJoin \<Rightarrow> bool" where
  "outputs_ok P j \<longleftrightarrow> (\<forall>s o'. j_outputs j s = Some o' \<longrightarrow> x_probe o' \<in> P \<and> s = slot_of (x_probe o'))
     \<and> (\<forall>p \<in> set (j_probes j). j_outputs j (slot_of p) = None)"

text \<open>What was emitted: each output once, for a probe at or before the frontier.\<close>

definition emits :: "'v TemporalJoin \<Rightarrow> 'v TemporalJoinOutput \<Rightarrow> bool" where
  "emits j out \<longleftrightarrow> j_type j = LeftJoin \<or> x_version out \<noteq> None"

definition released_ok :: "f64 option \<Rightarrow> 'v TemporalJoin \<Rightarrow> bool" where
  "released_ok F j \<longleftrightarrow> distinct (j_probes j)
     \<and> (\<forall>out \<in> ran (j_outputs j). \<exists>f. F = Some f \<and> fle (r_event_time (x_probe out)) f)
     \<and> distinct (map (slot_of \<circ> fst) (j_changes j))
     \<and> set (j_changes j) = (\<lambda>out. (x_probe out, x_version out)) ` {out \<in> ran (j_outputs j). emits j out}
     \<and> finite (dom (j_outputs j)) \<and> j_probes_emitted j = of_nat (card (dom (j_outputs j)))"

lemma released_same:
  assumes "released_ok F j" "j_outputs j' = j_outputs j" "j_changes j' = j_changes j" "j_type j' = j_type j"
    "j_probes_emitted j' = j_probes_emitted j" "distinct (j_probes j')"
  shows "released_ok F j'"
  using assms by (simp add: released_ok_def emits_def)

definition core :: "f64 option \<Rightarrow> 'v StreamRecord set \<Rightarrow> 'v StreamRecord set \<Rightarrow> 'v TemporalJoin \<Rightarrow> bool" where
  "core F P V j \<longleftrightarrow> versions_ok F V j \<and> probes_ok F P j \<and> accounted P j \<and> outputs_ok P j \<and> released_ok F j"

lemma covered_mono: "covered F A v \<Longrightarrow> A \<subseteq> B \<Longrightarrow> covered F B v"
  by (auto simp: covered_def)

lemma index_version_core:
  assumes j: "core F P V j" and inj: "inj_on r_sequence (insert r V)"
    and run: "index_temporal_join_record scan VersionStream r j = Some j'"
  shows "core F P (insert r V) j' \<and> j_outputs j' = j_outputs j"
proof -
  have j': "j' = j\<lparr> j_versions := put_by version_key r (j_versions j), j_versions_received := j_versions_received j + 1 \<rparr>"
    using run by (auto simp: index_temporal_join_record_def split: if_splits)
  have sub: "set (j_versions j) \<subseteq> V" using j by (simp add: core_def versions_ok_def)
  have "set (put_by version_key r (j_versions j)) = insert r (set (j_versions j))"
    using inj sub by (intro set_put_by) (auto simp: version_key_def inj_on_def)
  then have "versions_ok F (insert r V) j'"
    using j sub by (auto simp: core_def versions_ok_def j' distinct_put_by covered_def)
  then show ?thesis using j by (simp add: core_def probes_ok_def accounted_def outputs_ok_def released_ok_def emits_def j')
qed

lemma index_probe_core:
  assumes j: "core F P V j" and inj: "inj_on slot_of (insert r P)" and scan: "scans scan"
    and far: "is_addition (r_kind r) \<Longrightarrow> beyond F (r_event_time r)"
    and new: "j_outputs j (slot_of r) = None"
    and run: "index_temporal_join_record scan ProbeStream r j = Some j'"
  shows "core F (insert r P) V j' \<and> j_outputs j' = j_outputs j"
proof -
  have sub: "set (j_probes j) \<subseteq> P" and old: "versions_ok F V j" "probes_ok F P j" "accounted P j" "outputs_ok P j" "released_ok F j"
    using j by (auto simp: core_def probes_ok_def)
  have dist: "distinct (j_probes j)" using old(5) by (simp add: released_ok_def)
  have same: "x = y" if "x \<in> insert r P" "y \<in> insert r P" "probe_key x = probe_key y" for x y
    using that by (intro inj_onD [OF inj]) (auto simp: probe_key_def)
  show ?thesis
  proof (cases "is_addition (r_kind r)")
    case True
    then have j': "j' = j\<lparr> j_probes := put_by probe_key r (j_probes j), j_probes_received := j_probes_received j + 1 \<rparr>"
      using run by (auto simp: index_temporal_join_record_def split: if_splits)
    have "set (put_by probe_key r (j_probes j)) = insert r (set (j_probes j))"
      using same sub by (intro set_put_by) auto
    moreover have "released_ok F j'" by (rule released_same [OF old(5)]) (simp_all add: j' distinct_put_by dist)
    ultimately show ?thesis using old far [OF True] new
      by (auto simp: core_def versions_ok_def probes_ok_def accounted_def outputs_ok_def j')
  next
    case False
    let ?c = "List.find (retracts r) (scan (j_probes j))"
    have j': "j' = j\<lparr> j_probes := (case ?c of None \<Rightarrow> j_probes j | Some c \<Rightarrow> delete_by probe_key c (j_probes j)),
        j_probes_received := j_probes_received j + 1 \<rparr>"
      using run False by (auto simp: index_temporal_join_record_def split: if_splits)
    have c: "c \<in> P \<and> retracts r c" if "?c = Some c" for c
      using that set_scans [OF scan, of "j_probes j"] sub by (auto simp: find_Some_iff)
    have gone: "retracts r x" if "x \<in> set (j_probes j)" "x \<notin> set (j_probes j')" for x
      using that c same [of x] sub by (auto simp: j' delete_by_def split: option.splits)
    have less: "set (j_probes j') \<subseteq> set (j_probes j)" by (auto simp: j' delete_by_def split: option.splits)
    have rest: "j_versions j' = j_versions j" "j_outputs j' = j_outputs j" by (simp_all add: j')
    have "accounted (insert r P) j'"
      using old(3) gone False unfolding accounted_def rest by blast
    moreover have "outputs_ok (insert r P) j'" using old(4) less unfolding outputs_ok_def rest by blast
    moreover have "released_ok F j'"
      by (rule released_same [OF old(5)]) (simp_all add: j' dist delete_by_def split: option.splits)
    ultimately show ?thesis using old less rest sub by (auto simp: core_def versions_ok_def probes_ok_def)
  qed
qed


section \<open>Releasing the due probes\<close>

text \<open>While the loop runs, the versions and the type of the join stay, so what a probe is paired with
  does not depend on the probes released before it.\<close>

lemma emit_probe_frame [simp]:
  "j_versions (emit_probe scan w j p) = j_versions j" "j_type (emit_probe scan w j p) = j_type j"
  "j_probes (emit_probe scan w j p) = delete_by probe_key p (j_probes j)"
  "j_outputs (emit_probe scan w j p) = (j_outputs j)(slot_of p \<mapsto> temporal_join_output scan w j p)"
  by (simp_all add: emit_probe_def Let_def)

lemma temporal_join_output_cong:
  "j_versions j' = j_versions j \<Longrightarrow> j_type j' = j_type j \<Longrightarrow> temporal_join_output scan w j' p = temporal_join_output scan w j p"
  by (simp add: temporal_join_output_def latest_temporal_join_version_def start_temporal_join_workflow_def)

lemma foldl_emit_probe:
  "j_versions (foldl (emit_probe scan w) j ps) = j_versions j"
  "j_type (foldl (emit_probe scan w) j ps) = j_type j"
  "j_probes (foldl (emit_probe scan w) j ps) = filter (\<lambda>q. probe_key q \<notin> probe_key ` set ps) (j_probes j)"
  "j_outputs (foldl (emit_probe scan w) j ps)
     = (\<lambda>s. case List.find (\<lambda>p. slot_of p = s) (rev ps) of
              None \<Rightarrow> j_outputs j s | Some p \<Rightarrow> Some (temporal_join_output scan w j p))"
  "j_changes (foldl (emit_probe scan w) j ps)
     = j_changes j @ map (\<lambda>out. (x_probe out, x_version out)) (filter (emits j) (map (temporal_join_output scan w j) ps))"
  "j_probes_emitted (foldl (emit_probe scan w) j ps) = j_probes_emitted j + of_nat (length ps)"
proof (induction ps rule: rev_induct)
  case (snoc p ps)
  { case 1 then show ?case using snoc by simp }
  { case 2 then show ?case using snoc by simp }
  { case 3 then show ?case using snoc by (auto simp: delete_by_def intro: filter_cong) }
  { case 4
    have "temporal_join_output scan w (foldl (emit_probe scan w) j ps) p = temporal_join_output scan w j p"
      by (rule temporal_join_output_cong) (use snoc in simp_all)
    then show ?case using snoc by (auto simp: fun_eq_iff) }
  { case 5
    have "temporal_join_output scan w (foldl (emit_probe scan w) j ps) p = temporal_join_output scan w j p"
      by (rule temporal_join_output_cong) (use snoc in simp_all)
    moreover have "x_probe (temporal_join_output scan w j p) = p" by (simp add: temporal_join_output_def Let_def)
    ultimately show ?case using snoc by (simp add: emit_probe_def [of _ _ "foldl (emit_probe scan w) j ps"] Let_def emits_def) }
  { case 6 then show ?case using snoc by (simp add: emit_probe_def Let_def) }
qed simp_all

lemma rposition_Some:
  assumes "rposition P xs = Some n"
  shows "n < length xs" and "P (xs ! n)"
proof -
  obtain rest where "filter (\<lambda>i. P (xs ! i)) (rev [0..<length xs]) = n # rest"
    using assms by (auto simp: rposition_def split: list.splits)
  then have "n \<in> set (filter (\<lambda>i. P (xs ! i)) (rev [0..<length xs]))" by simp
  then show "n < length xs" "P (xs ! n)" by auto
qed

lemma set_superseded: "set (superseded f vs) \<subseteq> set vs"
  using set_take_subset [of _ "sort_by version_le vs"] by (auto simp: superseded_def Let_def split: option.splits)

lemma cleanup_keeps_cover:
  assumes vs: "distinct vs" "inj_on r_sequence (set vs)" and v: "v \<in> set vs"
  shows "covered (Some f) (set (cleanup_temporal_join_versions f vs)) v"
proof (cases "v \<in> set (cleanup_temporal_join_versions f vs) \<or> f = f64_max")
  case False
  let ?group = "filter (\<lambda>w. r_key w = r_key v) vs" and ?kept = "cleanup_temporal_join_versions f vs"
  define sorted where "sorted = sort_by version_le ?group"
  have same: "u = x" if "u \<in> set vs" "x \<in> set vs" "version_key u = version_key x" for u x
    using that by (intro inj_onD [OF vs(2)]) (auto simp: version_key_def)
  obtain u where u: "u \<in> set (superseded f ?group)" "version_key u = version_key v"
    using False v by (auto simp: cleanup_temporal_join_versions_def)
  then have "u = v" using same v set_superseded by fastforce
  obtain n where n: "rposition (\<lambda>v. fle (r_event_time v) f) sorted = Some n" "v \<in> set (take n sorted)"
    using u(1) False \<open>u = v\<close>
    by (cases "rposition (\<lambda>v. fle (r_event_time v) f) sorted") (auto simp: superseded_def sorted_def Let_def)
  let ?x = "sorted ! n"
  note x = rposition_Some [OF n(1)]
  obtain i where i: "i < n" "v = sorted ! i" using n(2) x(1) by (auto simp: in_set_conv_nth)
  have "sorted_wrt version_le sorted" using version_ordering [of UNIV] unfolding sorted_def by (rule sorted_sort_by) simp
  then have le: "version_le v ?x" using sorted_wrt_nth_less i x(1) by simp
  have "?x \<in> set sorted" using x(1) by simp
  then have in_vs: "?x \<in> set vs" "r_key ?x = r_key v" by (simp_all add: sorted_def)
  have dist: "distinct sorted"
    using vs(1) unfolding sorted_def by (metis distinct_filter mset_sort_by mset_eq_imp_distinct_iff)
  have "?x \<notin> set (take n sorted)"
  proof
    assume "?x \<in> set (take n sorted)"
    then obtain k where "k < n" "sorted ! k = ?x" using x(1) by (auto simp: in_set_conv_nth)
    then show False using dist x(1) nth_eq_iff_index_eq [of sorted k n] by simp
  qed
  moreover have "superseded f ?group = take n sorted"
    using False n(1) by (simp add: superseded_def sorted_def)
  ultimately have stays: "?x \<notin> set (superseded f ?group)" by simp
  have "version_key ?x \<notin> version_key ` set (superseded f ?group)"
  proof
    assume "version_key ?x \<in> version_key ` set (superseded f ?group)"
    then obtain y where y: "y \<in> set (superseded f ?group)" "version_key y = version_key ?x" by auto
    then have "y \<in> set vs" using set_superseded [of f ?group] by auto
    from same [OF this in_vs(1) y(2)] y(1) stays show False by simp
  qed
  then have "?x \<in> set ?kept" using in_vs by (simp add: cleanup_temporal_join_versions_def)
  then show ?thesis using in_vs(2) le x(2) unfolding covered_def by blast
qed (auto simp: covered_def)

lemma cleanup_subset: "set (cleanup_temporal_join_versions f vs) \<subseteq> set vs" "distinct vs \<Longrightarrow> distinct (cleanup_temporal_join_versions f vs)"
  by (auto simp: cleanup_temporal_join_versions_def)

lemma covered_trans:
  assumes v: "covered F kept v" and F: "opt_le F (Some f)" "fle f f64_max"
    and kept: "\<And>x. x \<in> kept \<Longrightarrow> covered (Some f) left x"
  shows "covered (Some f) left v"
proof (cases "v \<in> kept \<or> f = f64_max")
  case False
  have "F \<noteq> Some f64_max"
    using F False fle_antisym by (auto simp: opt_le_def)
  with v False obtain g x where x: "F = Some g" "x \<in> kept" "r_key x = r_key v" "version_le v x" "fle (r_event_time x) g"
    by (auto simp: covered_def)
  have "fle (r_event_time x) f" using F(1) x(1,5) fle_trans by (auto simp: opt_le_def)
  with kept [OF x(2)] False x(3,4) version_le_trans [OF x(4)] show ?thesis by (auto simp: covered_def)
qed (use kept in \<open>auto simp: covered_def\<close>)

text \<open>A probe that waits is paired with the version that all versions of its key give.\<close>

lemma waiting_probe_final:
  assumes j: "core F P V j" and p: "p \<in> set (j_probes j)" "mark_time (r_event_time p)"
    and F: "\<And>f. F = Some f \<Longrightarrow> f \<noteq> NaN" and recs: "set recs = V" "inj_on r_sequence V" and scan: "scans scan"
  shows "latest_temporal_join_version scan j p
    = latest_version_as_of (filter (\<lambda>v. r_key v = r_key p) recs) (r_event_time p)"
  unfolding latest_temporal_join_version_def
proof (rule latest_version_selection)
  let ?xs = "scan (filter (\<lambda>v. r_key v = r_key p) (j_versions j))"
  have xs: "set ?xs = {v \<in> set (j_versions j). r_key v = r_key p}" using set_scans [OF scan] by auto
  show "set ?xs \<subseteq> set (filter (\<lambda>v. r_key v = r_key p) recs)"
    using j recs(1) unfolding xs by (auto simp: core_def versions_ok_def)
  show "inj_on r_sequence (set (filter (\<lambda>v. r_key v = r_key p) recs))"
    using recs by (auto intro: inj_on_subset)
  fix y
  assume y: "y \<in> set (filter (\<lambda>v. r_key v = r_key p) recs)" "fle (r_event_time y) (r_event_time p)"
  have far: "beyond F (r_event_time p)" using j p(1) by (auto simp: core_def probes_ok_def)
  have "F \<noteq> Some f64_max" using far mark_time_le_max [OF p(2)] by (auto simp: beyond_def)
  moreover have "covered F (set (j_versions j)) y" using j y(1) recs(1) by (auto simp: core_def versions_ok_def)
  ultimately consider "y \<in> set (j_versions j)"
    | f x where "F = Some f" "x \<in> set (j_versions j)" "r_key x = r_key y" "version_le y x" "fle (r_event_time x) f"
    by (auto simp: covered_def)
  then show "\<exists>x \<in> set ?xs. fle (r_event_time x) (r_event_time p) \<and> version_le y x"
  proof cases
    case 1
    then show ?thesis using y unfolding xs by auto
  next
    case (2 f x)
    have "fle f (r_event_time p)"
      using far F [OF 2(1)] 2(1) p(2) fle_total by (auto simp: beyond_def mark_time_def)
    then show ?thesis using 2 y fle_trans unfolding xs by auto
  qed
qed


lemma release_core:
  fixes recs :: "'v StreamRecord list"
  assumes j: "core F P V j" and F: "opt_le F (Some f)" "fle f f64_max" "\<And>g. F = Some g \<Longrightarrow> g \<noteq> NaN"
    and P: "\<And>p. p \<in> P \<Longrightarrow> mark_time (r_event_time p)" "inj_on slot_of P"
    and V: "set recs = V" "inj_on r_sequence V" and scan: "scans scan"
  shows "core (Some f) P V (release scan f j)"
    and "j_outputs j \<subseteq>\<^sub>m j_outputs (release scan f j)"
    and "\<And>o'. o' \<in> ran (j_outputs (release scan f j)) \<Longrightarrow> o' \<in> ran (j_outputs j)
      \<or> (x_probe o' \<in> P \<and> x_as_of o' = r_event_time (x_probe o') \<and> fle (x_as_of o') f
         \<and> x_version o' = latest_version_as_of (filter (\<lambda>v. r_key v = r_key (x_probe o')) recs) (x_as_of o'))"
proof -
  define due where "due = filter (\<lambda>p. fle (r_event_time p) f) (scan (j_probes j))"
  define w where "w = (if f \<noteq> f64_max then Some f else None)"
  have r: "release scan f j = (foldl (emit_probe scan w) j due)
      \<lparr> j_versions := cleanup_temporal_join_versions f (j_versions j) \<rparr>"
    by (simp add: release_def Let_def due_def w_def foldl_emit_probe)
  have due: "set due = {p \<in> set (j_probes j). fle (r_event_time p) f}"
    using set_scans [OF scan] by (auto simp: due_def)
  have sub: "set (j_probes j) \<subseteq> P" and old: "versions_ok F V j" "probes_ok F P j" "accounted P j" "outputs_ok P j" "released_ok F j"
    using j by (auto simp: core_def probes_ok_def)
  have same: "x = y" if "x \<in> P" "y \<in> P" "slot_of x = slot_of y" for x y
    by (rule inj_onD [OF P(2) that(3) that(1,2)])
  have outs: "j_outputs (release scan f j) (slot_of p) = Some (temporal_join_output scan w j p)" if "p \<in> set due" for p
  proof -
    have "List.find (\<lambda>q. slot_of q = slot_of p) (rev due) \<noteq> None" using that by (auto simp: find_None_iff)
    then obtain q where q: "List.find (\<lambda>q. slot_of q = slot_of p) (rev due) = Some q" by blast
    then have "q \<in> set due" "slot_of q = slot_of p" using find_SomeD [OF q] by auto
    then have "q = p" using same that sub due by auto
    with q show ?thesis by (simp add: r foldl_emit_probe)
  qed
  have probes: "set (j_probes (release scan f j)) = {p \<in> set (j_probes j). \<not> fle (r_event_time p) f}"
    using same sub due by (auto simp: r foldl_emit_probe probe_key_def)
  have kept: "j_outputs (release scan f j) s = j_outputs j s" if "s \<notin> slot_of ` set due" for s
  proof -
    have "List.find (\<lambda>q. slot_of q = s) (rev due) = None" using that by (auto simp: find_None_iff)
    then show ?thesis by (simp add: r foldl_emit_probe)
  qed
  have waited: "j_outputs j s = None" if "s \<in> slot_of ` set due" for s
    using that due old(4) by (auto simp: outputs_ok_def)
  show "j_outputs j \<subseteq>\<^sub>m j_outputs (release scan f j)"
  proof (unfold map_le_def, intro ballI)
    fix s
    assume "s \<in> dom (j_outputs j)"
    with waited have "s \<notin> slot_of ` set due" by fastforce
    with kept show "j_outputs j s = j_outputs (release scan f j) s" by simp
  qed
  have "outputs_ok P (release scan f j)"
    unfolding outputs_ok_def
  proof (intro conjI allI impI ballI)
    fix s o'
    assume s: "j_outputs (release scan f j) s = Some o'"
    have "x_probe o' \<in> P \<and> s = slot_of (x_probe o')"
    proof (cases "s \<in> slot_of ` set due")
      case True
      then obtain p where "p \<in> set due" "s = slot_of p" by auto
      then show ?thesis using s outs due sub by (auto simp: temporal_join_output_def Let_def)
    next
      case False
      then have "j_outputs j s = Some o'" using s kept by simp
      then show ?thesis using old(4) unfolding outputs_ok_def by blast
    qed
    then show "x_probe o' \<in> P" "s = slot_of (x_probe o')" by simp_all
  next
    fix p
    assume "p \<in> set (j_probes (release scan f j))"
    then have p: "p \<in> set (j_probes j)" "p \<notin> set due" using probes due by auto
    then have "slot_of p \<notin> slot_of ` set due" using same sub due by auto
    with p(1) old(4) kept show "j_outputs (release scan f j) (slot_of p) = None" by (simp add: outputs_ok_def)
  qed
  moreover have "versions_ok (Some f) V (release scan f j)"
  proof -
    have v: "set (j_versions j) \<subseteq> V" "distinct (j_versions j)" "\<And>v. v \<in> V \<Longrightarrow> covered F (set (j_versions j)) v"
      using old(1) by (auto simp: versions_ok_def)
    have "inj_on r_sequence (set (j_versions j))" using V(2) v(1) by (rule inj_on_subset)
    then have "covered (Some f) (set (cleanup_temporal_join_versions f (j_versions j))) v" if "v \<in> V" for v
      using covered_trans [OF v(3) [OF that] F(1,2)] cleanup_keeps_cover [OF v(2)] by blast
    then show ?thesis using v(2) subset_trans [OF cleanup_subset(1) v(1)] cleanup_subset(2) [OF v(2)] by (auto simp: versions_ok_def r)
  qed
  moreover have "probes_ok (Some f) P (release scan f j)"
    using sub probes by (auto simp: probes_ok_def beyond_def)
  moreover have "accounted P (release scan f j)"
    unfolding accounted_def
  proof (intro ballI impI)
    fix p
    assume p: "p \<in> P" "is_addition (r_kind p)"
    have done_now: "x_probe (temporal_join_output scan w j p) = p" by (simp add: temporal_join_output_def Let_def)
    consider "p \<in> set due" | "p \<in> set (j_probes j)" "p \<notin> set due" | "p \<notin> set (j_probes j)" by blast
    then show "p \<in> set (j_probes (release scan f j)) \<or>
        (\<exists>o'. j_outputs (release scan f j) (slot_of p) = Some o' \<and> x_probe o' = p) \<or>
        (\<exists>d \<in> P. \<not> is_addition (r_kind d) \<and> retracts d p)"
    proof cases
      case 1
      then show ?thesis using outs done_now by auto
    next
      case 2
      then show ?thesis using probes due by auto
    next
      case 3
      then have "slot_of p \<notin> slot_of ` set due" using same p(1) sub due by auto
      moreover have "(\<exists>o'. j_outputs j (slot_of p) = Some o' \<and> x_probe o' = p) \<or>
          (\<exists>d \<in> P. \<not> is_addition (r_kind d) \<and> retracts d p)"
        using 3 p old(3) unfolding accounted_def by blast
      ultimately show ?thesis using kept by simp
    qed
  qed
  moreover have "released_ok (Some f) (release scan f j)"
  proof -
    let ?j = "release scan f j" and ?out = "temporal_join_output scan w j"
    have emitted: "emits ?j = emits j" by (simp add: fun_eq_iff emits_def r foldl_emit_probe)
    have "mset due = mset (filter (\<lambda>p. fle (r_event_time p) f) (j_probes j))" using scan by (simp add: due_def scans_def)
    from mset_eq_imp_distinct_iff [OF this] have dist: "distinct due" using old(5) by (simp add: released_ok_def)
    have inj: "inj_on slot_of (set due)" using P(2) sub due by (auto intro: inj_on_subset)
    have probe: "x_probe (?out p) = p" for p by (simp add: temporal_join_output_def Let_def)
    have dom: "dom (j_outputs ?j) = dom (j_outputs j) \<union> slot_of ` set due"
    proof (rule set_eqI)
      fix s
      show "s \<in> dom (j_outputs ?j) \<longleftrightarrow> s \<in> dom (j_outputs j) \<union> slot_of ` set due"
        using outs kept [of s] by (cases "s \<in> slot_of ` set due") auto
    qed
    have disjoint: "dom (j_outputs j) \<inter> slot_of ` set due = {}" using waited unfolding disjoint_iff by (metis domD option.distinct(1))
    have ran: "ran (j_outputs ?j) = ran (j_outputs j) \<union> ?out ` set due"
    proof (intro set_eqI iffI)
      fix out assume "out \<in> ran (j_outputs ?j)"
      then obtain s where s: "j_outputs ?j s = Some out" by (auto simp: ran_def)
      show "out \<in> ran (j_outputs j) \<union> ?out ` set due"
      proof (cases "s \<in> slot_of ` set due")
        case True
        then show ?thesis using s outs by auto
      next
        case False
        then have "j_outputs j s = Some out" using s kept by simp
        then show ?thesis by (simp add: ranI)
      qed
    next
      fix out assume "out \<in> ran (j_outputs j) \<union> ?out ` set due"
      then show "out \<in> ran (j_outputs ?j)"
      proof
        assume "out \<in> ran (j_outputs j)"
        then obtain s where s: "j_outputs j s = Some out" by (auto simp: ran_def)
        then have "s \<notin> slot_of ` set due" using waited by fastforce
        with s kept show ?thesis by (metis ranI)
      qed (use outs in \<open>auto intro: ranI\<close>)
    qed
    have times: "\<exists>g. Some f = Some g \<and> fle (r_event_time (x_probe out)) g" if "out \<in> ran (j_outputs ?j)" for out
    proof (cases "out \<in> ran (j_outputs j)")
      case True
      then obtain g where g: "F = Some g" "fle (r_event_time (x_probe out)) g" using old(5) by (auto simp: released_ok_def)
      then have "fle g f" using F(1,3) opt_le_Some by fastforce
      with g(2) fle_trans show ?thesis by blast
    next
      case False
      then show ?thesis using that ran due probe by auto
    qed
    have changes: "j_changes ?j = j_changes j @ map (\<lambda>out. (x_probe out, x_version out)) (filter (emits j) (map ?out due))"
      by (simp add: r foldl_emit_probe)
    have slots: "slot_of p \<in> dom (j_outputs j)" if "(p, v) \<in> set (j_changes j)" for p v
    proof -
      obtain out where "out \<in> ran (j_outputs j)" "p = x_probe out" using old(5) \<open>(p, v) \<in> set (j_changes j)\<close> by (auto simp: released_ok_def)
      then show ?thesis using old(4) by (auto simp: ran_def outputs_ok_def)
    qed
    have new: "map (slot_of \<circ> fst) (map (\<lambda>out. (x_probe out, x_version out)) (filter (emits j) (map ?out due)))
        = map slot_of (filter (\<lambda>p. emits j (?out p)) due)"
      by (simp add: filter_map o_def probe)
    have "distinct (map slot_of (filter (\<lambda>p. emits j (?out p)) due))"
      using dist inj by (auto simp: distinct_map intro: inj_on_subset)
    moreover have "distinct (map (slot_of \<circ> fst) (j_changes j))" using old(5) by (simp add: released_ok_def)
    moreover have "set (map (slot_of \<circ> fst) (j_changes j)) \<inter> set (map slot_of (filter (\<lambda>p. emits j (?out p)) due)) = {}"
    proof -
      have "set (map (slot_of \<circ> fst) (j_changes j)) \<subseteq> dom (j_outputs j)"
      proof
        fix s assume "s \<in> set (map (slot_of \<circ> fst) (j_changes j))"
        then obtain p v where "(p, v) \<in> set (j_changes j)" "s = slot_of p" by auto
        then show "s \<in> dom (j_outputs j)" using slots by blast
      qed
      moreover have "set (map slot_of (filter (\<lambda>p. emits j (?out p)) due)) \<subseteq> slot_of ` set due" by auto
      ultimately show ?thesis using disjoint by blast
    qed
    ultimately have "distinct (map (slot_of \<circ> fst) (j_changes ?j))"
      unfolding changes map_append new distinct_append by blast
    moreover have "set (j_changes ?j) = (\<lambda>out. (x_probe out, x_version out)) ` {out \<in> ran (j_outputs ?j). emits ?j out}"
      using old(5) unfolding changes ran emitted released_ok_def by auto
    moreover have "card (dom (j_outputs ?j)) = card (dom (j_outputs j)) + length due"
      using old(5) disjoint inj dist by (simp add: dom released_ok_def card_Un_disjoint card_image distinct_card)
    moreover have "j_probes_emitted ?j = j_probes_emitted j + of_nat (length due)" by (simp add: r foldl_emit_probe)
    moreover have "distinct (j_probes ?j)" using old(5) by (simp add: r foldl_emit_probe released_ok_def)
    ultimately show ?thesis using old(5) times unfolding released_ok_def by (simp add: dom)
  qed
  ultimately show "core (Some f) P V (release scan f j)" by (simp add: core_def)
  fix o'
  assume "o' \<in> ran (j_outputs (release scan f j))"
  then obtain s where s: "j_outputs (release scan f j) s = Some o'" by (auto simp: ran_def)
  show "o' \<in> ran (j_outputs j)
      \<or> (x_probe o' \<in> P \<and> x_as_of o' = r_event_time (x_probe o') \<and> fle (x_as_of o') f
         \<and> x_version o' = latest_version_as_of (filter (\<lambda>v. r_key v = r_key (x_probe o')) recs) (x_as_of o'))"
  proof (cases "s \<in> slot_of ` set due")
    case True
    then obtain p where p: "p \<in> set due" "o' = temporal_join_output scan w j p" using s outs by auto
    have "latest_temporal_join_version scan j p
        = latest_version_as_of (filter (\<lambda>v. r_key v = r_key p) recs) (r_event_time p)"
      using p(1) due sub P(1) F(3) by (intro waiting_probe_final [OF j _ _ _ V scan]) auto
    then show ?thesis using p due sub by (auto simp: temporal_join_output_def Let_def)
  next
    case False
    then have "j_outputs j s = Some o'" using s kept by simp
    then have "o' \<in> ran (j_outputs j)" by (rule ranI)
    then show ?thesis by blast
  qed
qed


section \<open>What the server keeps\<close>

definition streams_ok :: "JoinSetup \<Rightarrow> 'v World \<Rightarrow> bool" where
  "streams_ok setup w \<longleftrightarrow> gate_inv (s_probe_config setup) (u_probe w) \<and> gate_inv (s_version_config setup) (u_version w)
     \<and> log_ok (u_probe w) (u_sequence w) (u_probe_log w) \<and> log_ok (u_version w) (u_sequence w) (u_version_log w)"

definition probe_frontier :: "JoinSetup \<Rightarrow> 'v World \<Rightarrow> f64 option" where
  "probe_frontier setup w = completeness_frontier (s_probe_config setup) (fst (u_probe w))"

definition version_frontier :: "JoinSetup \<Rightarrow> 'v World \<Rightarrow> f64 option" where
  "version_frontier setup w = completeness_frontier (s_version_config setup) (fst (u_version w))"

lemma join_frontier_Some:
  assumes "streams_ok setup w" "join_frontier setup w = Some f"
  obtains p v where "probe_frontier setup w = Some p" "version_frontier setup w = Some v"
    "fle f p" "fle f v" "fle f f64_max" "f = rs_min p v"
proof -
  obtain p v where pv: "probe_frontier setup w = Some p" "version_frontier setup w = Some v" "f = rs_min p v"
    using assms(2) by (auto simp: join_frontier_def temporal_join_frontier_def probe_frontier_def version_frontier_def
        split: option.splits)
  have gates: "gate_inv (s_probe_config setup) (u_probe w)" "gate_inv (s_version_config setup) (u_version w)"
    using assms(1) by (simp_all add: streams_ok_def)
  have "p \<noteq> NaN" "v \<noteq> NaN" "fle p f64_max"
    using gate_frontier [OF gates(1), of p] gate_frontier [OF gates(2), of v] pv(1,2)
    by (simp_all add: probe_frontier_def version_frontier_def)
  with pv rs_min_le [of p v] fle_trans that show thesis by blast
qed

lemma join_frontier_not_NaN: "streams_ok setup w \<Longrightarrow> join_frontier setup w = Some f \<Longrightarrow> f \<noteq> NaN"
  by (rule join_frontier_Some) (auto dest: fle_not_NaN)

text \<open>Both streams move forward from one state of the server to another.\<close>

definition forward :: "JoinSetup \<Rightarrow> 'v World \<Rightarrow> 'v World \<Rightarrow> bool" where
  "forward setup w w' \<longleftrightarrow> opt_le (probe_frontier setup w) (probe_frontier setup w')
     \<and> opt_le (version_frontier setup w) (version_frontier setup w')"

lemma forward_join_frontier:
  assumes "streams_ok setup w" "streams_ok setup w'" "forward setup w w'"
  shows "opt_le (join_frontier setup w) (join_frontier setup w')"
proof (cases "join_frontier setup w")
  case (Some f)
  obtain p v where pv: "probe_frontier setup w = Some p" "version_frontier setup w = Some v" "fle f p" "fle f v"
    using assms(1) Some by (rule join_frontier_Some)
  obtain p' v' where "probe_frontier setup w' = Some p'" "fle p p'" "version_frontier setup w' = Some v'" "fle v v'"
    using assms(3) pv fle_not_NaN opt_le_Some unfolding forward_def by metis
  moreover from this have "join_frontier setup w' = Some (rs_min p' v')"
    by (simp add: join_frontier_def temporal_join_frontier_def probe_frontier_def version_frontier_def)
  moreover have "fle f (rs_min p' v')"
    using pv calculation fle_trans [of f] by (auto simp: rs_min_def)
  ultimately show ?thesis using Some by (simp add: opt_le_def)
qed simp

definition final_output :: "'v World \<Rightarrow> f64 option \<Rightarrow> 'v TemporalJoinOutput \<Rightarrow> bool" where
  "final_output w F o' \<longleftrightarrow> x_probe o' \<in> set (u_probe_log w) \<and> x_as_of o' = r_event_time (x_probe o')
     \<and> (\<exists>f. F = Some f \<and> fle (x_as_of o') f)
     \<and> x_version o' = latest_version_as_of (filter (\<lambda>v. r_key v = r_key (x_probe o')) (u_version_log w)) (x_as_of o')"

definition join_ok :: "JoinSetup \<Rightarrow> 'v World \<Rightarrow> 'v TemporalJoin \<Rightarrow> bool" where
  "join_ok setup w j \<longleftrightarrow> core (join_frontier setup w) (set (u_probe_log w)) (set (u_version_log w)) j
     \<and> (\<forall>o' \<in> ran (j_outputs j). final_output w (version_frontier setup w) o')
     \<and> g_late_policy (s_probe_config setup) \<noteq> Accept \<and> g_late_policy (s_version_config setup) \<noteq> Accept"

definition world_ok :: "JoinSetup \<Rightarrow> 'v World \<Rightarrow> bool" where
  "world_ok setup w \<longleftrightarrow> streams_ok setup w \<and> (\<forall>j. u_join w = Some j \<longrightarrow> join_ok setup w j)"

text \<open>A released pair stays final when a version beyond the frontier is recorded.\<close>

lemma final_output_later:
  assumes o': "final_output w F o'" and F: "opt_le F F'" "\<And>f. F = Some f \<Longrightarrow> f \<noteq> NaN"
    and probes: "set (u_probe_log w) \<subseteq> set (u_probe_log w')"
    and versions: "set (u_version_log w) \<subseteq> set (u_version_log w')" "inj_on r_sequence (set (u_version_log w'))"
      "\<And>r. r \<in> set (u_version_log w') \<Longrightarrow> r \<notin> set (u_version_log w) \<Longrightarrow> beyond F (r_event_time r)"
  shows "final_output w' F' o'"
proof -
  obtain f where f: "F = Some f" "fle (x_as_of o') f" using o' by (auto simp: final_output_def)
  obtain f' where f': "F' = Some f'" "fle f f'" using opt_le_Some F f(1) by blast
  let ?of_key = "filter (\<lambda>v. r_key v = r_key (x_probe o'))"
  have "latest_version_as_of (?of_key (u_version_log w)) (x_as_of o')
      = latest_version_as_of (?of_key (u_version_log w')) (x_as_of o')"
  proof (rule latest_version_selection)
    show "inj_on r_sequence (set (?of_key (u_version_log w')))"
      using versions(2) by (rule inj_on_subset) auto
    fix y
    assume y: "y \<in> set (?of_key (u_version_log w'))" "fle (r_event_time y) (x_as_of o')"
    then have "\<not> beyond F (r_event_time y)" using f fle_trans by (auto simp: beyond_def)
    with y(1) versions(3) have "y \<in> set (u_version_log w)" by auto
    with y show "\<exists>x \<in> set (?of_key (u_version_log w)). fle (r_event_time x) (x_as_of o') \<and> version_le y x" by auto
  qed (use versions(1) in auto)
  then show ?thesis using o' f(2) f' probes fle_trans by (auto simp: final_output_def)
qed


section \<open>Every transaction keeps it\<close>

lemma beyond_join_frontier:
  assumes "streams_ok setup w" "beyond (probe_frontier setup w) t"
  shows "beyond (join_frontier setup w) t"
  unfolding beyond_def
proof (intro allI impI)
  fix f
  assume "join_frontier setup w = Some f"
  with assms(1) obtain p where "probe_frontier setup w = Some p" "fle f p" by (rule join_frontier_Some)
  with assms(2) fle_trans [of t f p] show "\<not> fle t f" by (auto simp: beyond_def)
qed

text \<open>What a transaction recorded before it refreshes the join: nothing, or one record beyond the
  frontier of its stream.\<close>

definition recorded :: "JoinSetup \<Rightarrow> 'v World \<Rightarrow> 'v World \<Rightarrow> (side \<times> 'v StreamRecord) option \<Rightarrow> bool" where
  "recorded setup w w' entry \<longleftrightarrow> (case entry of
     None \<Rightarrow> set (u_probe_log w') = set (u_probe_log w) \<and> set (u_version_log w') = set (u_version_log w)
   | Some (ProbeStream, r) \<Rightarrow> r \<notin> set (u_probe_log w) \<and> set (u_probe_log w') = insert r (set (u_probe_log w))
       \<and> set (u_version_log w') = set (u_version_log w)
       \<and> (g_late_policy (s_probe_config setup) \<noteq> Accept \<longrightarrow> beyond (probe_frontier setup w) (r_event_time r))
   | Some (VersionStream, r) \<Rightarrow> set (u_probe_log w') = set (u_probe_log w)
       \<and> set (u_version_log w') = insert r (set (u_version_log w))
       \<and> (g_late_policy (s_version_config setup) \<noteq> Accept \<longrightarrow> beyond (version_frontier setup w) (r_event_time r)))"

lemma index_core:
  assumes w: "streams_ok setup w" "join_ok setup w j" and w': "streams_ok setup w'"
    and rec: "recorded setup w w' entry" and scan: "scans scan"
    and run: "(case entry of None \<Rightarrow> Some j | Some (side, r) \<Rightarrow> index_temporal_join_record scan side r j) = Some j'"
  shows "core (join_frontier setup w) (set (u_probe_log w')) (set (u_version_log w')) j' \<and> j_outputs j' = j_outputs j"
proof (cases entry)
  case None
  then show ?thesis using w(2) rec run by (simp add: join_ok_def recorded_def)
next
  case (Some e)
  obtain side r where e: "e = (side, r)" by fastforce
  have core: "core (join_frontier setup w) (set (u_probe_log w)) (set (u_version_log w)) j"
    and policy: "g_late_policy (s_probe_config setup) \<noteq> Accept"
    using w(2) by (auto simp: join_ok_def)
  have inj: "inj_on slot_of (set (u_probe_log w'))" "inj_on r_sequence (set (u_version_log w'))"
    using w' by (auto simp: streams_ok_def log_ok_def)
  show ?thesis
  proof (cases side)
    case ProbeStream
    then have logs: "set (u_probe_log w') = insert r (set (u_probe_log w))" "set (u_version_log w') = set (u_version_log w)"
      and far: "beyond (join_frontier setup w) (r_event_time r)"
      and fresh: "r \<notin> set (u_probe_log w)"
      using rec policy beyond_join_frontier [OF w(1)] by (auto simp: recorded_def Some e)
    have "j_outputs j (slot_of r) = None"
    proof (rule ccontr)
      assume "j_outputs j (slot_of r) \<noteq> None"
      then obtain o' where o': "j_outputs j (slot_of r) = Some o'" by blast
      have "outputs_ok (set (u_probe_log w)) j" using core by (simp add: core_def)
      with o' have "x_probe o' \<in> set (u_probe_log w)" "slot_of r = slot_of (x_probe o')"
        unfolding outputs_ok_def by blast+
      then show False using fresh inj(1) by (auto simp: logs dest: inj_onD)
    qed
    then show ?thesis unfolding logs
      by (intro index_probe_core [OF core _ scan far]) (use inj run in \<open>simp_all add: Some e logs ProbeStream\<close>)
  next
    case VersionStream
    then have logs: "set (u_probe_log w') = set (u_probe_log w)" "set (u_version_log w') = insert r (set (u_version_log w))"
      using rec by (auto simp: recorded_def Some e)
    show ?thesis unfolding logs
      by (rule index_version_core [OF core]) (use inj run in \<open>simp_all add: Some e logs VersionStream\<close>)
  qed
qed

lemma recorded_logs:
  assumes "recorded setup w w' entry" "g_late_policy (s_version_config setup) \<noteq> Accept"
  shows "set (u_probe_log w) \<subseteq> set (u_probe_log w')" "set (u_version_log w) \<subseteq> set (u_version_log w')"
    and "\<And>r. r \<in> set (u_version_log w') \<Longrightarrow> r \<notin> set (u_version_log w) \<Longrightarrow> beyond (version_frontier setup w) (r_event_time r)"
  using assms by (auto simp: recorded_def split: option.splits prod.splits side.splits)

lemma refreshed_core:
  assumes w': "streams_ok setup w'" and scan: "scans scan"
    and F: "opt_le F (join_frontier setup w')" "\<And>f. F = Some f \<Longrightarrow> f \<noteq> NaN"
    and j: "core F (set (u_probe_log w')) (set (u_version_log w')) j"
    and outputs: "\<forall>o' \<in> ran (j_outputs j). final_output w' (version_frontier setup w') o'"
    and policy: "g_late_policy (s_probe_config setup) \<noteq> Accept" "g_late_policy (s_version_config setup) \<noteq> Accept"
    and j': "j' = (case join_frontier setup w' of None \<Rightarrow> j | Some f \<Rightarrow> release scan f j)"
  shows "join_ok setup w' j' \<and> j_outputs j \<subseteq>\<^sub>m j_outputs j'"
proof (cases "join_frontier setup w'")
  case None
  then have "F = None" using F(1) by (auto simp: opt_le_def split: option.splits)
  then show ?thesis using j outputs policy None by (simp add: join_ok_def j')
next
  case (Some f)
  obtain v where v: "version_frontier setup w' = Some v" "fle f v" "fle f f64_max"
    using w' Some by (rule join_frontier_Some) blast
  have P: "\<And>p. p \<in> set (u_probe_log w') \<Longrightarrow> mark_time (r_event_time p)" "inj_on slot_of (set (u_probe_log w'))"
    and V: "inj_on r_sequence (set (u_version_log w'))"
    using w' by (auto simp: streams_ok_def log_ok_def)
  note rule = release_core [OF j F(1)[unfolded Some] v(3) F(2) P refl V scan]
  have "final_output w' (version_frontier setup w') o'" if "o' \<in> ran (j_outputs (release scan f j))" for o'
    using rule(3) [OF _ _ that] outputs v(1,2) fle_trans by (auto simp: final_output_def)
  with rule(1,2) policy Some show ?thesis by (simp add: join_ok_def j')
qed

text \<open>The common end of all transactions: the state is in order again and no output is lost or changed.\<close>

definition outputs_of :: "'v World \<Rightarrow> slot \<rightharpoonup> 'v TemporalJoinOutput" where
  "outputs_of w = (case u_join w of None \<Rightarrow> Map.empty | Some j \<Rightarrow> j_outputs j)"

text \<open>The streams move forward, and what is recorded as a version lies beyond the frontier.\<close>

definition grown :: "JoinSetup \<Rightarrow> 'v World \<Rightarrow> 'v World \<Rightarrow> bool" where
  "grown setup w w' \<longleftrightarrow> forward setup w w' \<and> set (u_version_log w) \<subseteq> set (u_version_log w')
     \<and> (g_late_policy (s_version_config setup) \<noteq> Accept \<longrightarrow>
          (\<forall>r \<in> set (u_version_log w') - set (u_version_log w). beyond (version_frontier setup w) (r_event_time r)))"

lemma grown_refl: "grown setup w w"
  by (simp add: grown_def forward_def)

lemma version_frontier_not_NaN: "streams_ok setup w \<Longrightarrow> version_frontier setup w = Some f \<Longrightarrow> f \<noteq> NaN"
  using gate_frontier [of "s_version_config setup" "u_version w" f] by (simp add: streams_ok_def version_frontier_def)

lemma grown_trans:
  assumes "streams_ok setup u" "grown setup u v" "grown setup v w"
  shows "grown setup u w"
proof -
  have "beyond (version_frontier setup u) t" if "beyond (version_frontier setup v) t" for t
    using beyond_mono [OF that] version_frontier_not_NaN [OF assms(1)] assms(2)
    by (auto simp: grown_def forward_def)
  with assms(2,3) show ?thesis unfolding grown_def forward_def by (blast intro: opt_le_trans)
qed

lemma commit_grown:
  assumes "forward setup w w'" "recorded setup w w' entry" "refresh_temporal_joins scan setup entry w' = Some w''"
  shows "grown setup w w''"
proof -
  have same: "u_probe w'' = u_probe w'" "u_version w'' = u_version w'" "u_version_log w'' = u_version_log w'"
    using assms(3) by (auto simp: refresh_temporal_joins_def split: option.splits)
  have "set (u_version_log w) \<subseteq> set (u_version_log w')"
    using assms(2) by (auto simp: recorded_def split: option.splits prod.splits side.splits)
  then show ?thesis using assms(1) recorded_logs(3) [OF assms(2)]
    by (simp add: grown_def forward_def probe_frontier_def version_frontier_def same)
qed

definition kept_after :: "JoinSetup \<Rightarrow> 'v World \<Rightarrow> 'v World \<Rightarrow> bool" where
  "kept_after setup w w' \<longleftrightarrow> world_ok setup w' \<and> outputs_of w \<subseteq>\<^sub>m outputs_of w' \<and> grown setup w w'"

lemma kept_refl: "world_ok setup w \<Longrightarrow> kept_after setup w w"
  by (simp add: kept_after_def grown_refl)

lemma kept_trans: "world_ok setup u \<Longrightarrow> kept_after setup u v \<Longrightarrow> kept_after setup v w \<Longrightarrow> kept_after setup u w"
  using grown_trans map_le_trans unfolding kept_after_def world_ok_def by blast

lemma commit_ok:
  assumes w: "world_ok setup w" and w': "streams_ok setup w'" "u_join w' = u_join w"
    and fwd: "forward setup w w'" and rec: "recorded setup w w' entry" and scan: "scans scan"
    and run: "refresh_temporal_joins scan setup entry w' = Some w''"
  shows "kept_after setup w w''"
proof (cases "u_join w")
  case None
  then show ?thesis using w' run commit_grown [OF fwd rec run] by (simp add: refresh_temporal_joins_def world_ok_def kept_after_def outputs_of_def)
next
  case (Some j)
  have ok: "streams_ok setup w" "join_ok setup w j" using w Some by (simp_all add: world_ok_def)
  then have policy: "g_late_policy (s_probe_config setup) \<noteq> Accept" "g_late_policy (s_version_config setup) \<noteq> Accept"
    by (simp_all add: join_ok_def)
  obtain i where i: "(case entry of None \<Rightarrow> Some j | Some (side, r) \<Rightarrow> index_temporal_join_record scan side r j) = Some i"
    and w'': "w'' = w'\<lparr> u_join := Some (case join_frontier setup w' of None \<Rightarrow> i | Some f \<Rightarrow> release scan f i) \<rparr>"
    using run w'(2) Some by (auto simp: refresh_temporal_joins_def refresh_temporal_join_def split: option.splits)
  have core: "core (join_frontier setup w) (set (u_probe_log w')) (set (u_version_log w')) i" "j_outputs i = j_outputs j"
    using index_core [OF ok w'(1) rec scan i] by auto
  have vf: "f \<noteq> NaN" if "version_frontier setup w = Some f" for f
    using ok(1) that gate_frontier [of "s_version_config setup" "u_version w" f]
    by (simp add: streams_ok_def version_frontier_def)
  have inj: "inj_on r_sequence (set (u_version_log w'))" using w'(1) by (simp add: streams_ok_def log_ok_def)
  have "final_output w' (version_frontier setup w') o'" if "o' \<in> ran (j_outputs i)" for o'
  proof (rule final_output_later)
    show "final_output w (version_frontier setup w) o'" using that core(2) ok(2) by (simp add: join_ok_def)
    show "opt_le (version_frontier setup w) (version_frontier setup w')" using fwd by (simp add: forward_def)
  qed (use recorded_logs [OF rec policy(2)] vf inj in auto)
  then have "join_ok setup w' (case join_frontier setup w' of None \<Rightarrow> i | Some f \<Rightarrow> release scan f i)
      \<and> j_outputs j \<subseteq>\<^sub>m j_outputs (case join_frontier setup w' of None \<Rightarrow> i | Some f \<Rightarrow> release scan f i)"
    using refreshed_core [OF w'(1) scan forward_join_frontier [OF ok(1) w'(1) fwd] _ core(1) _ policy refl]
      join_frontier_not_NaN [OF ok(1)] unfolding core(2) by blast
  moreover have "join_ok setup w'' = join_ok setup w'"
    by (simp add: fun_eq_iff w'' join_ok_def join_frontier_def version_frontier_def final_output_def)
  moreover have "streams_ok setup w''" using w'(1) by (simp add: w'' streams_ok_def)
  ultimately show ?thesis using Some commit_grown [OF fwd rec run]
    by (simp add: w'' world_ok_def kept_after_def outputs_of_def)
qed


text \<open>The requests.\<close>

fun join_request_ok :: "'v JoinRequest \<Rightarrow> bool" where
  "join_request_ok (Write side part t key val kind now) = valid64 t"
| "join_request_ok (Declare side part w now) = valid64 w"
| "join_request_ok _ = True"

lemma streams_ok_gate: "streams_ok setup w \<Longrightarrow> gate_inv (config_of setup side) (stream_of side w)"
  by (cases side) (simp_all add: streams_ok_def config_of_def stream_of_def)

text \<open>One stream moves, nothing is recorded.\<close>

lemma set_stream_ok:
  assumes w: "streams_ok setup w" and st: "gate_inv (config_of setup side) st"
    and fwd: "opt_le (completeness_frontier (config_of setup side) (fst (stream_of side w)))
      (completeness_frontier (config_of setup side) (fst st))"
    and offsets: "map q_next_offset (snd st) = map q_next_offset (snd (stream_of side w))"
  shows "streams_ok setup (set_stream side st w) \<and> u_join (set_stream side st w) = u_join w
    \<and> forward setup w (set_stream side st w) \<and> recorded setup w (set_stream side st w) None"
  using w st fwd log_ok_later [OF _ order_refl offsets]
  by (cases side) (auto simp: streams_ok_def set_stream_def config_of_def stream_of_def forward_def
      probe_frontier_def version_frontier_def recorded_def)

lemma declare_ok:
  assumes w: "world_ok setup w" and x: "valid64 x" and scan: "scans scan"
    and run: "transaction scan setup w (Declare side part x now) = Some w'"
  shows "kept_after setup w w'"
proof -
  let ?config = "config_of setup side" and ?st = "stream_of side w"
  obtain st where st: "advance_stream ?config part x now ?st = Inr st"
    and w': "refresh_temporal_joins scan setup None (set_stream side st w) = Some w'"
    using run by (auto split: sum.splits)
  have ok: "streams_ok setup w" using w by (simp add: world_ok_def)
  have step: "stream_step ?config ?st (Advance part x now) = st" by (simp add: st committed_def)
  have "gate_inv ?config st" "opt_le (completeness_frontier ?config (fst ?st)) (completeness_frontier ?config (fst st))"
    using gate_step [OF streams_ok_gate [OF ok, of side], of "Advance part x now"] x by (simp_all only: step request_ok.simps)
  from set_stream_ok [OF ok this advance_next_offset [OF st]] show ?thesis
    using commit_ok [OF w _ _ _ _ scan w'] by blast
qed

lemma seal_ok:
  assumes w: "world_ok setup w" and scan: "scans scan"
    and run: "transaction scan setup w (SealPart side part now) = Some w'"
  shows "kept_after setup w w'"
proof -
  let ?config = "config_of setup side" and ?st = "stream_of side w"
  obtain st where st: "seal_partition ?config part now ?st = Inr st"
    and w': "refresh_temporal_joins scan setup None (set_stream side st w) = Some w'"
    using run by (auto split: sum.splits)
  have ok: "streams_ok setup w" using w by (simp add: world_ok_def)
  have step: "stream_step ?config ?st (Seal part now) = st" by (simp add: st committed_def)
  have "gate_inv ?config st" "opt_le (completeness_frontier ?config (fst ?st)) (completeness_frontier ?config (fst st))"
    using gate_step [OF streams_ok_gate [OF ok, of side], of "Seal part now"] by (simp_all only: step request_ok.simps)
  from set_stream_ok [OF ok this seal_next_offset [OF st]] show ?thesis
    using commit_ok [OF w _ _ _ _ scan w'] by blast
qed

lemma maintain_ok:
  assumes w: "world_ok setup w" and scan: "scans scan"
    and run: "transaction scan setup w (Maintain now) = Some w'"
  shows "kept_after setup w w'"
proof -
  let ?w = "w\<lparr> u_probe := refresh_stream (s_probe_config setup) now (u_probe w),
    u_version := refresh_stream (s_version_config setup) now (u_version w) \<rparr>"
  have ok: "streams_ok setup w" using w by (simp add: world_ok_def)
  then have gates: "gate_inv (s_probe_config setup) (u_probe w)" "gate_inv (s_version_config setup) (u_version w)"
    by (simp_all add: streams_ok_def)
  have offsets: "map q_next_offset (snd (refresh_stream config now st)) = map q_next_offset (snd st)" for config st
    by (cases st) simp
  have logs: "log_ok (refresh_stream config now st) n rs" if "log_ok st n rs" for config st n and rs :: "'a StreamRecord list"
    using that order_refl offsets by (rule log_ok_later)
  have "streams_ok setup ?w \<and> u_join ?w = u_join w \<and> forward setup w ?w \<and> recorded setup w ?w None"
    using ok gate_step [OF gates(1), of "Tick now"] gate_step [OF gates(2), of "Tick now"]
    by (auto simp: logs streams_ok_def forward_def probe_frontier_def version_frontier_def recorded_def)
  then show ?thesis using commit_ok [OF w _ _ _ _ scan, of ?w None w'] run by simp
qed

lemma append_ok:
  assumes w: "world_ok setup w" and t: "valid64 t" and n: "unat (u_sequence w) + 1 < 2 ^ 64" and scan: "scans scan"
    and run: "transaction scan setup w (Write side part t key val kind now) = Some w'"
  shows "kept_after setup w w' \<and> u_sequence w' = u_sequence w + 1"
proof -
  let ?config = "config_of setup side" and ?st = "stream_of side w" and ?n = "u_sequence w + 1"
  obtain d st where st: "append_record ?config part t now ?st = Inr (d, st)"
    using run by (auto simp: append_stream_record_def split: sum.splits)
  define r where "r = \<lparr> r_partition = part, r_offset = q_next_offset (snd ?st ! part), r_sequence = ?n,
      r_event_time = t, r_key = key, r_value = val, r_kind = kind \<rparr>"
  define v where "v = set_stream side st (w\<lparr> u_sequence := ?n \<rparr>)"
  define v' where "v' = (if taken d then put_record side r v else v)"
  define entry where "entry = (if taken d then Some (side, r) else None)"
  have w': "refresh_temporal_joins scan setup entry v' = Some w'"
    using run unfolding transaction.simps append_stream_record_def st entry_def v'_def v_def r_def
    by (simp add: Let_def split: if_splits)
  have ok: "streams_ok setup w" using w by (simp add: world_ok_def)
  note gate = streams_ok_gate [OF ok, of side]
  have step: "stream_step ?config ?st (Append part t now) = st" by (simp add: st committed_def)
  have new: "gate_inv ?config st" "opt_le (completeness_frontier ?config (fst ?st)) (completeness_frontier ?config (fst st))"
    using gate_step [OF gate, of "Append part t now"] t by (simp_all only: step request_ok.simps)
  note next_offset = append_next_offset [OF st gate_length [OF gate]]
  have time: "mark_time t" using t next_offset(3) by (rule mark_time_finite)
  have up: "u_sequence w \<le> ?n" using n by (simp add: word_le_nat_alt unat_word_ariths(1) take_bit_nat_eq_self)
  have far: "beyond (completeness_frontier ?config (fst ?st)) t" if "taken d" "g_late_policy ?config \<noteq> Accept"
    using taken_beyond_frontier [OF _ _ t that(2) st that(1)] gate by (simp add: beyond_def gate_inv_def)
  have log: "log_ok ?st (u_sequence w) (log_of side w)"
    using ok by (cases side) (simp_all add: streams_ok_def stream_of_def log_of_def)
  note log' = log_ok_append [OF log n next_offset(2,1), of r, simplified r_def StreamRecord.simps, OF refl refl refl time,
      folded r_def]
  have other: "log_ok st' ?n rs" if "log_ok st' (u_sequence w) rs" for st' and rs :: "'a StreamRecord list"
    using that up refl by (rule log_ok_later)
  have "streams_ok setup v' \<and> u_join v' = u_join w \<and> forward setup w v' \<and> recorded setup w v' entry"
    using ok new log' other far
    by (cases side; cases "taken d")
      (auto simp: streams_ok_def set_stream_def put_record_def config_of_def stream_of_def log_of_def forward_def
        probe_frontier_def version_frontier_def recorded_def v'_def v_def entry_def r_def)
  then have "kept_after setup w w'" using commit_ok [OF w _ _ _ _ scan w'] by blast
  moreover have "u_sequence w' = ?n"
    using w' by (cases side) (auto simp: refresh_temporal_joins_def v'_def v_def put_record_def set_stream_def
        split: option.splits if_splits)
  ultimately show ?thesis by simp
qed


lemma index_all_core:
  assumes "index_all scan es j = Some j'" "core None P V j" "j_outputs j = Map.empty" "scans scan"
    and "inj_on slot_of (P \<union> {r. (ProbeStream, r) \<in> set es})" "inj_on r_sequence (V \<union> {r. (VersionStream, r) \<in> set es})"
  shows "core None (P \<union> {r. (ProbeStream, r) \<in> set es}) (V \<union> {r. (VersionStream, r) \<in> set es}) j'
    \<and> j_outputs j' = Map.empty"
  using assms
proof (induction es arbitrary: j P V)
  case (Cons e es)
  obtain side r where e: "e = (side, r)" by fastforce
  obtain i where i: "index_temporal_join_record scan side r j = Some i" "index_all scan es i = Some j'"
    using Cons.prems(1) by (auto simp: e split: option.splits)
  show ?case
  proof (cases side)
    case ProbeStream
    have all: "P \<union> {r. (ProbeStream, r) \<in> set (e # es)} = insert r P \<union> {r. (ProbeStream, r) \<in> set es}"
      "{r. (VersionStream, r) \<in> set (e # es)} = {r. (VersionStream, r) \<in> set es}"
      by (auto simp: e ProbeStream)
    have "inj_on slot_of (insert r P)" using Cons.prems(5) unfolding all by (rule inj_on_subset) auto
    then have "core None (insert r P) V i \<and> j_outputs i = j_outputs j"
      using i(1) Cons.prems(3) unfolding ProbeStream
      by (intro index_probe_core [OF Cons.prems(2) _ Cons.prems(4)]) (simp_all add: beyond_def)
    with Cons.IH [OF i(2) _ _ Cons.prems(4) Cons.prems(5,6)[unfolded all]] Cons.prems(3) show ?thesis
      unfolding all by simp
  next
    case VersionStream
    have all: "V \<union> {r. (VersionStream, r) \<in> set (e # es)} = insert r V \<union> {r. (VersionStream, r) \<in> set es}"
      "{r. (ProbeStream, r) \<in> set (e # es)} = {r. (ProbeStream, r) \<in> set es}"
      by (auto simp: e VersionStream)
    have "inj_on r_sequence (insert r V)" using Cons.prems(6) unfolding all by (rule inj_on_subset) auto
    then have "core None P (insert r V) i \<and> j_outputs i = j_outputs j"
      using i(1) unfolding VersionStream by (intro index_version_core [OF Cons.prems(2)])
    with Cons.IH [OF i(2) _ _ Cons.prems(4) Cons.prems(5,6)[unfolded all]] Cons.prems(3) show ?thesis
      unfolding all by simp
  qed
qed simp

lemma new_join_core: "core None {} {} (new_join type) \<and> j_outputs (new_join type) = Map.empty"
  by (simp add: core_def versions_ok_def probes_ok_def accounted_def outputs_ok_def released_ok_def new_join_def)

lemma create_ok:
  assumes w: "world_ok setup w" and scan: "scans scan"
    and run: "transaction scan setup w CreateJoin = Some w'"
  shows "kept_after setup w w'"
proof (cases "u_join w")
  case None
  have ok: "streams_ok setup w" using w by (simp add: world_ok_def)
  let ?es = "map (Pair VersionStream) (scan (u_version_log w)) @ map (Pair ProbeStream) (scan (u_probe_log w))"
  have policy: "g_late_policy (s_probe_config setup) \<noteq> Accept" "g_late_policy (s_version_config setup) \<noteq> Accept"
    using run by (auto simp: create_temporal_join_def split: if_splits)
  with run None obtain j where j: "index_all scan ?es (new_join (s_join_type setup)) = Some j"
      "refresh_temporal_joins scan setup None (w\<lparr> u_join := Some j \<rparr>) = Some w'"
    by (auto simp: create_temporal_join_def split: option.splits)
  have sets: "{r. (ProbeStream, r) \<in> set ?es} = set (u_probe_log w)" "{r. (VersionStream, r) \<in> set ?es} = set (u_version_log w)"
    using set_scans [OF scan] by auto
  have inj: "inj_on slot_of (set (u_probe_log w))" "inj_on r_sequence (set (u_version_log w))"
    using ok by (auto simp: streams_ok_def log_ok_def)
  have core: "core None (set (u_probe_log w)) (set (u_version_log w)) j" "j_outputs j = Map.empty"
    using index_all_core [OF j(1) _ _ scan, of "{}" "{}"] new_join_core inj unfolding sets by auto
  define j' where "j' = (case join_frontier setup w of None \<Rightarrow> j | Some f \<Rightarrow> release scan f j)"
  have "w' = w\<lparr> u_join := Some j' \<rparr>"
    using j(2) by (auto simp: refresh_temporal_joins_def refresh_temporal_join_def join_frontier_def j'_def)
  moreover have "join_ok setup w j'"
    using refreshed_core [OF ok scan _ _ core(1) _ policy j'_def] core(2) by simp
  moreover have "join_ok setup (w\<lparr> u_join := Some j' \<rparr>) = join_ok setup w"
    by (simp add: fun_eq_iff join_ok_def join_frontier_def version_frontier_def final_output_def)
  moreover have "grown setup w (w\<lparr> u_join := Some j' \<rparr>)"
    by (simp add: grown_def forward_def probe_frontier_def version_frontier_def)
  ultimately show ?thesis using ok None by (simp add: kept_after_def world_ok_def streams_ok_def outputs_of_def)
next
  case (Some j)
  then have "w' = w" using run by (auto simp: create_temporal_join_def split: if_splits)
  with kept_refl [OF w] show ?thesis by simp
qed

lemma refresh_sequence: "refresh_temporal_joins scan setup entry w = Some w' \<Longrightarrow> u_sequence w' = u_sequence w"
  by (auto simp: refresh_temporal_joins_def split: option.splits)

lemma set_stream_sequence [simp]: "u_sequence (set_stream side st w) = u_sequence w"
  by (cases side) (simp_all add: set_stream_def)

lemma world_step_kept:
  assumes w: "world_ok setup w" and e: "join_request_ok e" and n: "unat (u_sequence w) + 1 < 2 ^ 64" and scan: "scans scan"
  shows "kept_after setup w (world_step scan setup w e) \<and> unat (u_sequence (world_step scan setup w e)) \<le> unat (u_sequence w) + 1"
proof (cases "transaction scan setup w e")
  case None
  with kept_refl [OF w] show ?thesis by (simp add: world_step_def)
next
  case (Some w')
  show ?thesis
  proof (cases e)
    case (Write side part t key val kind now)
    then show ?thesis using append_ok [OF w _ n scan] Some e n
      by (simp add: world_step_def unat_word_ariths(1) take_bit_nat_eq_self)
  next
    case (Declare side part x now)
    then show ?thesis using declare_ok [OF w _ scan] Some e refresh_sequence
      by (fastforce simp: world_step_def split: sum.splits)
  next
    case (SealPart side part now)
    then show ?thesis using seal_ok [OF w scan] Some refresh_sequence
      by (fastforce simp: world_step_def split: sum.splits)
  next
    case (Maintain now)
    then show ?thesis using maintain_ok [OF w scan] Some refresh_sequence
      by (fastforce simp: world_step_def)
  next
    case CreateJoin
    then show ?thesis using create_ok [OF w scan] Some refresh_sequence
      by (fastforce simp: world_step_def create_temporal_join_def split: if_splits option.splits)
  qed
qed

lemma world_run_kept:
  assumes "scans scan" "list_all join_request_ok es" "world_ok setup w" "unat (u_sequence w) + length es < 2 ^ 64"
  shows "kept_after setup w (foldl (world_step scan setup) w es)
    \<and> unat (u_sequence (foldl (world_step scan setup) w es)) \<le> unat (u_sequence w) + length es"
  using assms(2-4)
proof (induction es arbitrary: w)
  case Nil
  then show ?case using kept_refl by simp
next
  case (Cons e es)
  let ?w = "world_step scan setup w e"
  have step: "kept_after setup w ?w" "unat (u_sequence ?w) \<le> unat (u_sequence w) + 1"
    using world_step_kept [OF Cons.prems(2) _ _ assms(1), of e] Cons.prems by auto
  with Cons.IH [of ?w] Cons.prems have "kept_after setup ?w (foldl (world_step scan setup) ?w es)"
    "unat (u_sequence (foldl (world_step scan setup) ?w es)) \<le> unat (u_sequence ?w) + length es"
    by (auto simp: kept_after_def)
  with step show ?case using kept_trans [OF Cons.prems(2)] by simp
qed

lemma new_world_sequence [simp]: "u_sequence (new_world setup now) = 0"
  by (simp add: new_world_def)

lemma new_world_ok:
  "validate_config (s_probe_config setup) \<Longrightarrow> validate_config (s_version_config setup) \<Longrightarrow> world_ok setup (new_world setup now)"
  using open_gated [of "s_probe_config setup" now] open_gated [of "s_version_config setup" now]
  by (auto simp: world_ok_def streams_ok_def new_world_def gate_inv_def log_ok_def open_stream_def new_partition_def)

section \<open>The promises\<close>

text \<open>
  C4. A released pair is final. After any requests \<open>es\<close> on the two streams (records in any order,
  on time or late, retractions, declared watermarks, seals, idleness ticks, the creation of the
  join among them) an output of the join says which version of its key the probe is paired with.
  Whatever further requests \<open>fs\<close> follow, the output is still there, unchanged, and its version is the
  one that all versions recorded by then, the deleted ones and those that arrived after the release
  included, give for the time of the probe.
\<close>

theorem temporal_join_final:
  assumes "validate_config (s_probe_config setup)" "validate_config (s_version_config setup)" "scans scan"
    and "list_all join_request_ok (es @ fs)" "length (es @ fs) < 2 ^ 64"
    and "outputs_of (foldl (world_step scan setup) (new_world setup now) es) s = Some out"
  shows "let w = foldl (world_step scan setup) (new_world setup now) (es @ fs) in
    outputs_of w s = Some out \<and> x_probe out \<in> set (u_probe_log w) \<and> slot_of (x_probe out) = s \<and>
    x_version out = latest_version_as_of (filter (\<lambda>v. r_key v = r_key (x_probe out)) (u_version_log w))
      (r_event_time (x_probe out))"
proof -
  let ?a = "foldl (world_step scan setup) (new_world setup now) es"
  let ?b = "foldl (world_step scan setup) ?a fs"
  have a: "world_ok setup ?a" "unat (u_sequence ?a) \<le> length es"
    using world_run_kept [OF assms(3) _ new_world_ok [OF assms(1,2)], of es now] assms(4,5)
    by (simp_all add: kept_after_def)
  have b: "world_ok setup ?b" "outputs_of ?a \<subseteq>\<^sub>m outputs_of ?b"
    using world_run_kept [OF assms(3) _ a(1), of fs] a(2) assms(4,5) by (simp_all add: kept_after_def)
  have out: "outputs_of ?b s = Some out" using b(2) assms(6) domI unfolding map_le_def by metis
  then obtain j where j: "u_join ?b = Some j" "j_outputs j s = Some out"
    by (auto simp: outputs_of_def split: option.splits)
  have ok: "join_ok setup ?b j" using b(1) j(1) by (simp add: world_ok_def)
  have "out \<in> ran (j_outputs j)" using j(2) by (rule ranI)
  then have "final_output ?b (version_frontier setup ?b) out" using ok unfolding join_ok_def by blast
  moreover have "s = slot_of (x_probe out)"
    using ok j(2) unfolding join_ok_def core_def outputs_ok_def by blast
  ultimately show ?thesis using out by (simp add: final_output_def)
qed

text \<open>
  C22. No probe is forgotten and none is released twice or early. In every reachable state of the
  server, a probe that waits lies beyond the frontier of the join and has no output; a probe that has an output
  was recorded and lies at or before the frontier; every probe that was recorded waits, has its output, or was
  retracted by a change; and the outputs that the join's type passes on were reported as changes, each
  once, and all of them counted.
\<close>

theorem temporal_join_complete:
  assumes "validate_config (s_probe_config setup)" "validate_config (s_version_config setup)" "scans scan"
    and "list_all join_request_ok es" "length es < 2 ^ 64"
    and "foldl (world_step scan setup) (new_world setup now) es = w" "u_join w = Some j"
  shows "(\<forall>p \<in> set (j_probes j). p \<in> set (u_probe_log w) \<and> j_outputs j (slot_of p) = None \<and>
      beyond (join_frontier setup w) (r_event_time p)) \<and>
    (\<forall>r \<in> set (u_probe_log w). is_addition (r_kind r) \<longrightarrow> r \<in> set (j_probes j) \<or>
      (\<exists>out. j_outputs j (slot_of r) = Some out \<and> x_probe out = r) \<or>
      (\<exists>d \<in> set (u_probe_log w). \<not> is_addition (r_kind d) \<and> retracts d r)) \<and>
    (\<forall>s out. j_outputs j s = Some out \<longrightarrow> s = slot_of (x_probe out) \<and> x_probe out \<in> set (u_probe_log w) \<and>
      \<not> beyond (join_frontier setup w) (r_event_time (x_probe out))) \<and>
    distinct (map (slot_of \<circ> fst) (j_changes j)) \<and>
    set (j_changes j) = {(x_probe out, x_version out) | s out. j_outputs j s = Some out \<and> (j_type j = LeftJoin \<or> x_version out \<noteq> None)} \<and>
    j_probes_emitted j = of_nat (card (dom (j_outputs j)))"
proof -
  have "world_ok setup w"
    using world_run_kept [OF assms(3,4) new_world_ok [OF assms(1,2)], of now] assms(5,6)
    by (simp add: kept_after_def)
  then have "core (join_frontier setup w) (set (u_probe_log w)) (set (u_version_log w)) j"
    using assms(7) by (simp add: world_ok_def join_ok_def)
  then have "probes_ok (join_frontier setup w) (set (u_probe_log w)) j" "accounted (set (u_probe_log w)) j"
    "outputs_ok (set (u_probe_log w)) j" and rel: "released_ok (join_frontier setup w) j"
    by (simp_all add: core_def)
  moreover have "\<not> beyond (join_frontier setup w) (r_event_time (x_probe out))" if "j_outputs j s = Some out" for s out
  proof -
    have "out \<in> ran (j_outputs j)" using that by (rule ranI)
    then show ?thesis using rel by (auto simp: released_ok_def beyond_def)
  qed
  moreover have "set (j_changes j) = {(x_probe out, x_version out) | s out. j_outputs j s = Some out \<and> (j_type j = LeftJoin \<or> x_version out \<noteq> None)}"
    using rel by (auto simp: released_ok_def ran_def emits_def)
  moreover have "distinct (map (slot_of \<circ> fst) (j_changes j))" "j_probes_emitted j = of_nat (card (dom (j_outputs j)))"
    using rel by (simp_all add: released_ok_def)
  ultimately show ?thesis unfolding probes_ok_def outputs_ok_def accounted_def by blast
qed

text \<open>
  C23. A versioned lookup answers the same for ever: once a stream answers a lookup of a key at a time
  (instead of refusing it as incomplete), it gives the same answer after any further requests, unless
  its policy is to accept records that are too late.
\<close>

theorem versioned_lookup_stable:
  assumes "validate_config (s_probe_config setup)" "validate_config (s_version_config setup)" "scans scan"
    and "list_all join_request_ok (es @ fs)" "length (es @ fs) < 2 ^ 64"
    and "g_late_policy (s_version_config setup) \<noteq> Accept"
    and "foldl (world_step scan setup) (new_world setup now) es = a"
    and "foldl (world_step scan setup) (new_world setup now) (es @ fs) = b"
    and "resolve_versioned_lookup scan (s_version_config setup) (fst (u_version a)) (u_version_log a) key as_of = Some answer"
  shows "resolve_versioned_lookup scan (s_version_config setup) (fst (u_version b)) (u_version_log b) key as_of = Some answer"
proof -
  have a: "world_ok setup a" "unat (u_sequence a) \<le> length es"
    using world_run_kept [OF assms(3) _ new_world_ok [OF assms(1,2)], of es now] assms(4,5,7)
    by (simp_all add: kept_after_def)
  have b: "world_ok setup b" "grown setup a b"
    using world_run_kept [OF assms(3) _ a(1), of fs] a(2) assms(4,5,7,8) by (simp_all add: kept_after_def)
  obtain f where f: "version_frontier setup a = Some f" "fle as_of f"
      "answer = latest_version_as_of (scan (filter (\<lambda>r. r_key r = Some key) (u_version_log a))) as_of"
    using assms(9) by (auto simp: resolve_versioned_lookup_def version_frontier_def split: option.splits if_splits)
  obtain g where g: "version_frontier setup b = Some g" "fle f g"
    using b(2) f(1,2) fle_not_NaN opt_le_Some unfolding grown_def forward_def by metis
  have sets: "set (scan (filter (\<lambda>r. r_key r = Some key) rs)) = {r \<in> set rs. r_key r = Some key}" for rs
    using set_scans [OF assms(3)] by auto
  have inj: "inj_on r_sequence (set (u_version_log b))" using b(1) by (simp add: world_ok_def streams_ok_def log_ok_def)
  have "answer = latest_version_as_of (scan (filter (\<lambda>r. r_key r = Some key) (u_version_log b))) as_of"
    unfolding f(3)
  proof (rule latest_version_selection)
    show "inj_on r_sequence (set (scan (filter (\<lambda>r. r_key r = Some key) (u_version_log b))))"
      unfolding sets using inj by (rule inj_on_subset) auto
    show "set (scan (filter (\<lambda>r. r_key r = Some key) (u_version_log a)))
        \<subseteq> set (scan (filter (\<lambda>r. r_key r = Some key) (u_version_log b)))"
      using b(2) unfolding sets grown_def by auto
    fix y
    assume y: "y \<in> set (scan (filter (\<lambda>r. r_key r = Some key) (u_version_log b)))" "fle (r_event_time y) as_of"
    have "\<not> beyond (version_frontier setup a) (r_event_time y)"
      using y(2) f(1,2) fle_trans by (auto simp: beyond_def)
    then have "y \<in> set (u_version_log a)" using b(2) assms(6) y(1) unfolding sets grown_def by blast
    then show "\<exists>x \<in> set (scan (filter (\<lambda>r. r_key r = Some key) (u_version_log a))).
        fle (r_event_time x) as_of \<and> version_le y x"
      using y unfolding sets by auto
  qed
  then show ?thesis
    using g f(2) fle_trans by (auto simp: resolve_versioned_lookup_def version_frontier_def)
qed


section \<open>Examples\<close>

definition sample_side :: StreamConfig where
  "sample_side = \<lparr> g_partitions = 1, g_watermark_mode = Monotonic, g_max_out_of_orderness = num 0,
     g_idle_timeout = None, g_allowed_lateness = num 0, g_alignment_max_drift = None, g_late_policy = SideOutput \<rparr>"

definition sample_join :: JoinSetup where
  "sample_join = \<lparr> s_probe_config = sample_side, s_version_config = sample_side, s_join_type = LeftJoin \<rparr>"

definition sample_key :: jsstr where
  "sample_key = [unit_of (CHR ''k'')]"

definition sample_requests :: "nat JoinRequest list" where
  "sample_requests = [CreateJoin, Write VersionStream 0 (num 1) (Some sample_key) 7 Upsert (num 1),
     Write ProbeStream 0 (num 2) (Some sample_key) 8 Insert (num 2),
     Write VersionStream 0 (num 3) (Some sample_key) 9 Upsert (num 3)]"

definition sample_more :: "nat JoinRequest list" where
  "sample_more = [Write ProbeStream 0 (num 9) (Some sample_key) 6 Insert (num 4),
     Write VersionStream 0 (num 4) (Some sample_key) 0 Delete (num 5)]"

definition sample_version :: "nat StreamRecord" where
  "sample_version = \<lparr> r_partition = 0, r_offset = 0, r_sequence = 1, r_event_time = num 1, r_key = Some sample_key,
     r_value = 7, r_kind = Upsert \<rparr>"

definition sample_waiting :: "nat StreamRecord" where
  "sample_waiting = \<lparr> r_partition = 0, r_offset = 1, r_sequence = 4, r_event_time = num 9, r_key = Some sample_key,
     r_value = 6, r_kind = Insert \<rparr>"

definition sample_output :: "nat TemporalJoinOutput" where
  "sample_output = \<lparr> x_probe = \<lparr> r_partition = 0, r_offset = 0, r_sequence = 2, r_event_time = num 2,
       r_key = Some sample_key, r_value = 8, r_kind = Insert \<rparr>,
     x_version = Some sample_version, x_as_of = num 2, x_watermark = Some (num 2), x_workflow = Some (0, 0) \<rparr>"

lemma num_not_max: "num 1 \<noteq> f64_max" "num 2 \<noteq> f64_max" "num 3 \<noteq> f64_max" "num 4 \<noteq> f64_max"
  by (simp_all add: num_def f64_max_def pow2_def)

lemmas sample_defs = sample_join_def sample_side_def sample_requests_def sample_more_def sample_version_def
  sample_waiting_def sample_output_def sample_key_def

lemmas stream_defs = open_stream_def new_stream_def new_partition_def append_record_def watermark_delay_def
  ensure_watermark_alignment_def observe_def refresh_stream_def refresh_def mark_idle_def least_active_def
  active_partitions_def EventTime.reduce_def raise_to_def rs_max_def rs_min_def fsub_num opt_feq_def feq_def
  disposition_def is_late_def is_too_late_def taken_def num_not_NaN num_not_max

lemmas join_defs = new_world_def world_step_def append_stream_record_def config_of_def stream_of_def
  set_stream_def put_record_def put_by_def delete_by_def refresh_temporal_joins_def refresh_temporal_join_def
  index_temporal_join_record_def keyed_def join_frontier_def temporal_join_frontier_def completeness_frontier_def
  create_temporal_join_def new_join_def release_def emit_probe_def temporal_join_output_def
  latest_temporal_join_version_def latest_version_as_of_def start_temporal_join_workflow_def slot_of_def
  is_addition_def weight_def later_version_def cleanup_temporal_join_versions_def superseded_def rposition_def
  version_key_def probe_key_def version_le_def total_le_def outputs_of_def resolve_versioned_lookup_def

lemma sample_admissible:
  "validate_config (s_probe_config sample_join)" "validate_config (s_version_config sample_join)" "scans id"
  "list_all join_request_ok (sample_requests @ sample_more)" "length (sample_requests @ sample_more) < 2 ^ 64"
  "g_late_policy (s_version_config sample_join) \<noteq> Accept"
  by (simp_all add: sample_defs validate_config_def non_negative_def scans_def valid64_num) (simp_all add: num_def)

lemma sample_released:
  "outputs_of (foldl (world_step id sample_join) (new_world sample_join (num 0)) sample_requests) (0, 0) = Some sample_output"
  by (simp add: sample_defs stream_defs join_defs Let_def)

lemma sample_waits:
  "\<exists>j. u_join (foldl (world_step id sample_join) (new_world sample_join (num 0)) (sample_requests @ sample_more)) = Some j
    \<and> j_probes j = [sample_waiting]"
  by (simp add: sample_defs stream_defs join_defs Let_def)

lemma sample_answer:
  "resolve_versioned_lookup id (s_version_config sample_join)
    (fst (u_version (foldl (world_step id sample_join) (new_world sample_join (num 0)) sample_requests)))
    (u_version_log (foldl (world_step id sample_join) (new_world sample_join (num 0)) sample_requests))
    sample_key (num 2) = Some (Some sample_version)"
  by (simp add: sample_defs stream_defs join_defs Let_def)

lemma temporal_join_final_witness:
  "outputs_of (foldl (world_step id sample_join) (new_world sample_join (num 0)) (sample_requests @ sample_more)) (0, 0)
    = Some sample_output"
  using temporal_join_final [OF sample_admissible(1-5) sample_released] by (simp add: Let_def)

lemma temporal_join_complete_witness:
  "\<exists>j :: nat TemporalJoin. j_outputs j (slot_of sample_waiting) = None \<and> sample_waiting \<in> set (j_probes j) \<and>
    beyond (join_frontier sample_join
      (foldl (world_step id sample_join) (new_world sample_join (num 0)) (sample_requests @ sample_more))) (num 9)"
proof -
  obtain j where j: "u_join (foldl (world_step id sample_join) (new_world sample_join (num 0)) (sample_requests @ sample_more)) = Some j"
    "j_probes j = [sample_waiting]"
    using sample_waits by blast
  have "sample_waiting \<in> set (j_probes j)" "r_event_time sample_waiting = num 9"
    using j(2) by (simp_all add: sample_waiting_def)
  with bspec [OF conjunct1 [OF temporal_join_complete [OF sample_admissible(1-5) refl j(1)]], of sample_waiting]
  show ?thesis by (intro exI [of _ j]) simp
qed

lemma versioned_lookup_stable_witness:
  "resolve_versioned_lookup id (s_version_config sample_join)
    (fst (u_version (foldl (world_step id sample_join) (new_world sample_join (num 0)) (sample_requests @ sample_more))))
    (u_version_log (foldl (world_step id sample_join) (new_world sample_join (num 0)) (sample_requests @ sample_more)))
    sample_key (num 2) = Some (Some sample_version)"
  by (rule versioned_lookup_stable [OF sample_admissible refl refl sample_answer])

end
