(* ===== verification/Windows.thy ===== *)
theory Windows
  imports StreamRecords
begin

text \<open>
  Window aggregation of the server: \<open>index_window_aggregate\<close> and \<open>fire_due_stream_schedules\<close> of
  \<open>crates/server/src/stream_engine.rs\<close>, \<open>WindowSchedule\<close> and \<open>WindowAccumulator\<close> of \<open>streaming.rs\<close>,
  \<open>start_window_workflow\<close> of \<open>operators.rs\<close>, and the requests of \<open>stream_api.rs\<close> that drive them on one
  stream. One of the stream's schedules is followed; of the others only what they do to it is modelled: their
  creation fires it.

  A record is counted, with the weight of its kind, in an accumulator per window and key; when the
  stream is complete past a window its accumulators are handed to workflows and deleted. \<open>numeric\<close> is
  the number that the schedule reads off a value (\<open>field_value\<close> and \<open>as_f64\<close> of the JSON library).
  Counters are \<open>int\<close> where the code has \<open>i64\<close>: a count is at most the number of records. Identifiers of
  workflows print the bounds of a window with six decimals; here they are the bounds. The proofs are
  in \<open>WindowsCorrect\<close> and \<open>WindowsFinal\<close>.
\<close>

section \<open>Schedules\<close>

datatype WindowAggregation = Count | Sum | Max

record WindowSchedule =
  y_window_size :: f64
  y_slide :: f64
  y_start_at :: f64
  y_next_window_start :: f64
  y_emit_empty_windows :: bool
  y_aggregation :: WindowAggregation
  y_windows_fired :: "64 word"

definition effective_slide :: "WindowSchedule \<Rightarrow> f64" where
  "effective_slide s = (if feq (y_slide s) (num 0) then y_window_size s else y_slide s)"

definition validate_schedule :: "WindowSchedule \<Rightarrow> bool" where
  "validate_schedule s \<longleftrightarrow> \<not> fle (y_window_size s) (num 0) \<and> finite64 (y_window_size s)
     \<and> finite64 (y_next_window_start s)
     \<and> \<not> fle (effective_slide s) (num 0) \<and> finite64 (effective_slide s)
     \<and> \<not> flt (y_window_size s) (effective_slide s)"

text \<open>The starts of the windows a time falls into, from the last back to the first: the loop of
  \<open>index_window_aggregate\<close>. \<open>None\<close> is a loop that does not end.\<close>

partial_function (option) starts_from :: "WindowSchedule \<Rightarrow> f64 \<Rightarrow> f64 \<Rightarrow> f64 list option" where
  "starts_from s t window_start =
     (if fle (y_start_at s) window_start \<and> flt t (fadd window_start (y_window_size s))
      then (if flt window_start (fadd (y_start_at s) (effective_slide s)) then Some [window_start]
            else Option.bind (starts_from s t (fsub window_start (effective_slide s)))
                   (\<lambda>rest. Some (window_start # rest)))
      else Some [])"

definition window_starts :: "WindowSchedule \<Rightarrow> f64 \<Rightarrow> f64 list option" where
  "window_starts s t =
     (if flt t (y_start_at s) then Some []
      else starts_from s t (fadd (y_start_at s)
             (fmul (js_floor (fdiv (fsub t (y_start_at s)) (effective_slide s))) (effective_slide s))))"

section \<open>Accumulators\<close>

record WindowAccumulator =
  e_key :: "jsstr option"
  e_window_start :: f64
  e_window_end :: f64
  e_count :: int
  e_sum :: f64
  e_max :: "f64 option"

text \<open>What an accumulator is stored under: the start of its window and its key, where no key and the
  empty key are one.\<close>

type_synonym pane = "f64 \<times> jsstr"

definition key_text :: "jsstr option \<Rightarrow> jsstr" where
  "key_text key = (case key of None \<Rightarrow> [] | Some k \<Rightarrow> k)"

definition pane_of :: "WindowAccumulator \<Rightarrow> pane" where
  "pane_of a = (e_window_start a, key_text (e_key a))"

record WindowValueCount =
  c_pane :: pane
  c_value :: f64
  c_count :: int

definition value_key :: "WindowValueCount \<Rightarrow> pane \<times> f64" where
  "value_key c = (c_pane c, c_value c)"

text \<open>A change of the operator: its kind, the time of the record behind it, and the row.\<close>

type_synonym change = "ChangeKind \<times> f64 \<times> WindowAccumulator"

record WindowState =
  a_accumulators :: "WindowAccumulator list"
  a_values :: "WindowValueCount list"
  a_changes :: "change list"

datatype WindowError = NotNumeric | RetractionWithoutState | ValueWithoutState

definition fresh_accumulator :: "WindowSchedule \<Rightarrow> f64 \<Rightarrow> jsstr option \<Rightarrow> WindowAccumulator" where
  "fresh_accumulator s window_start key =
     \<lparr> e_key = key, e_window_start = window_start, e_window_end = fadd window_start (y_window_size s),
       e_count = 0, e_sum = num 0, e_max = None \<rparr>"

text \<open>\<open>Iterator::max_by(f64::total_cmp)\<close> over the values that are still counted.\<close>

definition greater_value :: "f64 \<Rightarrow> f64 \<Rightarrow> f64" where
  "greater_value a b = (if total_le a b then b else a)"

definition greatest_value :: "pane \<Rightarrow> WindowValueCount list \<Rightarrow> f64 option" where
  "greatest_value p cs = reduce greater_value (map c_value (filter (\<lambda>c. c_pane c = p \<and> 0 < c_count c) cs))"

definition count_value :: "pane \<Rightarrow> f64 \<Rightarrow> int \<Rightarrow> WindowValueCount list \<Rightarrow> WindowError + WindowValueCount list" where
  "count_value p x w cs =
     (let c = (case get_by value_key (p, x) cs of None \<Rightarrow> \<lparr> c_pane = p, c_value = x, c_count = 0 \<rparr> | Some c \<Rightarrow> c);
          c = c\<lparr> c_count := c_count c + w \<rparr>
      in if c_count c < 0 then Inl ValueWithoutState
         else Inr (if c_count c = 0 then delete_by value_key c cs else put_by value_key c cs))"

text \<open>One round of the loop: the record \<open>r\<close> with the number \<open>x\<close> in the window that starts at \<open>window_start\<close>.\<close>

definition aggregate :: "WindowSchedule \<Rightarrow> f64 \<Rightarrow> int \<Rightarrow> WindowAccumulator \<Rightarrow> WindowValueCount list
    \<Rightarrow> WindowError + (WindowAccumulator \<times> WindowValueCount list)" where
  "aggregate s x w a cs = (case y_aggregation s of
     Count \<Rightarrow> Inr (a, cs)
   | Sum \<Rightarrow> Inr (a\<lparr> e_sum := fadd (e_sum a) (fmul x (num w)) \<rparr>, cs)
   | Max \<Rightarrow> (case count_value (pane_of a) x w cs of
               Inl e \<Rightarrow> Inl e
             | Inr cs' \<Rightarrow> Inr (a\<lparr> e_max := greatest_value (pane_of a) cs' \<rparr>, cs')))"

definition index_window :: "WindowSchedule \<Rightarrow> 'v StreamRecord \<Rightarrow> f64 \<Rightarrow> f64 \<Rightarrow> WindowState \<Rightarrow> WindowError + WindowState" where
  "index_window s r x window_start st =
     (let w = weight (r_kind r);
          previous = get_by pane_of (window_start, key_text (r_key r)) (a_accumulators st);
          a = (case previous of None \<Rightarrow> fresh_accumulator s window_start (r_key r) | Some a \<Rightarrow> a);
          a = a\<lparr> e_count := e_count a + w \<rparr>
      in if e_count a < 0 then Inl RetractionWithoutState
         else case aggregate s x w a (a_values st) of
                Inl e \<Rightarrow> Inl e
              | Inr (a, cs) \<Rightarrow>
                  if e_count a = 0
                  then Inr \<lparr> a_accumulators = delete_by pane_of a (a_accumulators st), a_values = cs,
                    a_changes = a_changes st @ (case previous of None \<Rightarrow> [] | Some b \<Rightarrow> [(Delete, r_event_time r, b)]) \<rparr>
                  else Inr \<lparr> a_accumulators = put_by pane_of a (a_accumulators st), a_values = cs,
                    a_changes = a_changes st @ (case previous of
                        None \<Rightarrow> [(Insert, r_event_time r, a)]
                      | Some b \<Rightarrow> [(UpdateBefore, r_event_time r, b), (UpdateAfter, r_event_time r, a)]) \<rparr>)"

fun index_windows :: "WindowSchedule \<Rightarrow> 'v StreamRecord \<Rightarrow> f64 \<Rightarrow> f64 list \<Rightarrow> WindowState \<Rightarrow> WindowError + WindowState" where
  "index_windows s r x [] st = Inr st"
| "index_windows s r x (w # ws) st = (case index_window s r x w st of Inl e \<Rightarrow> Inl e | Inr st' \<Rightarrow> index_windows s r x ws st')"

text \<open>The outer \<open>None\<close> is a loop that does not end.\<close>

definition index_window_aggregate :: "('v \<Rightarrow> f64 option) \<Rightarrow> WindowSchedule \<Rightarrow> 'v StreamRecord \<Rightarrow> WindowState
    \<Rightarrow> (WindowError + WindowState) option" where
  "index_window_aggregate numeric s r st =
     (if flt (r_event_time r) (y_start_at s) then Some (Inr st)
      else if y_aggregation s \<noteq> Count \<and> numeric (r_value r) = None then Some (Inl NotNumeric)
      else map_option (\<lambda>ws. index_windows s r (case numeric (r_value r) of None \<Rightarrow> num 0 | Some x \<Rightarrow> x) ws st)
             (window_starts s (r_event_time r)))"

fun index_records :: "('v \<Rightarrow> f64 option) \<Rightarrow> WindowSchedule \<Rightarrow> 'v StreamRecord list \<Rightarrow> WindowState
    \<Rightarrow> (WindowError + WindowState) option" where
  "index_records numeric s [] st = Some (Inr st)"
| "index_records numeric s (r # rs) st = (case index_window_aggregate numeric s r st of
     None \<Rightarrow> None | Some (Inl e) \<Rightarrow> Some (Inl e) | Some (Inr st') \<Rightarrow> index_records numeric s rs st')"

section \<open>Firing\<close>

record FiredWindow =
  f_window :: WindowAccumulator
  f_watermark :: "f64 option"
  f_finalized :: bool

text \<open>A window's workflow is started once.\<close>

definition workflow_id :: "WindowAccumulator \<Rightarrow> jsstr option \<times> f64 \<times> f64" where
  "workflow_id a = (e_key a, e_window_start a, e_window_end a)"

definition start_window_workflow :: "StreamState \<Rightarrow> WindowAccumulator \<Rightarrow> FiredWindow list \<Rightarrow> FiredWindow list" where
  "start_window_workflow state a fired =
     (if workflow_id a \<in> workflow_id ` f_window ` set fired then fired
      else fired @ [\<lparr> f_window = a, f_watermark = z_watermark state, f_finalized = z_finalized state \<rparr>])"

record Windowing =
  o_schedule :: WindowSchedule
  o_state :: WindowState
  o_fired :: "FiredWindow list"

definition window_due :: "StreamConfig \<Rightarrow> StreamState \<Rightarrow> WindowSchedule \<Rightarrow> bool" where
  "window_due config state s =
     (if z_finalized state
      then (case z_max_event_time state of None \<Rightarrow> False | Some maximum \<Rightarrow> fle (y_next_window_start s) maximum)
      else (case z_watermark state of None \<Rightarrow> False
            | Some watermark \<Rightarrow> fle (fadd (fadd (y_next_window_start s) (y_window_size s)) (g_allowed_lateness config)) watermark))"

definition fire_accumulator :: "StreamState \<Rightarrow> Windowing \<Rightarrow> WindowAccumulator \<Rightarrow> Windowing" where
  "fire_accumulator state g a = g
     \<lparr> o_fired := start_window_workflow state a (o_fired g),
       o_state := (o_state g)\<lparr> a_values := filter (\<lambda>c. c_pane c \<noteq> pane_of a) (a_values (o_state g)),
                               a_accumulators := delete_by pane_of a (a_accumulators (o_state g)) \<rparr>,
       o_schedule := (o_schedule g)\<lparr> y_windows_fired := y_windows_fired (o_schedule g) + 1 \<rparr> \<rparr>"

definition fire_window :: "(WindowAccumulator list \<Rightarrow> WindowAccumulator list) \<Rightarrow> StreamState \<Rightarrow> Windowing \<Rightarrow> Windowing" where
  "fire_window scan state g =
     (let s = o_schedule g; start = y_next_window_start s;
          accumulators = scan (filter (\<lambda>a. e_window_start a = start) (a_accumulators (o_state g)));
          g = (if accumulators = [] \<and> y_emit_empty_windows s
               then g\<lparr> o_fired := start_window_workflow state (fresh_accumulator s start None) (o_fired g),
                       o_schedule := s\<lparr> y_windows_fired := y_windows_fired s + 1 \<rparr> \<rparr> else g);
          g = foldl (fire_accumulator state) g accumulators
      in g\<lparr> o_schedule := (o_schedule g)\<lparr> y_next_window_start := fadd start (effective_slide s) \<rparr> \<rparr>)"

fun fire_windows :: "(WindowAccumulator list \<Rightarrow> WindowAccumulator list) \<Rightarrow> StreamConfig \<Rightarrow> StreamState \<Rightarrow> nat
    \<Rightarrow> Windowing \<Rightarrow> Windowing" where
  "fire_windows scan config state 0 g = g"
| "fire_windows scan config state (Suc n) g =
     (if window_due config state (o_schedule g) then fire_windows scan config state n (fire_window scan state g) else g)"

text \<open>At most 100 windows at a time.\<close>

definition fire_due_stream_schedules :: "(WindowAccumulator list \<Rightarrow> WindowAccumulator list) \<Rightarrow> StreamConfig \<Rightarrow> StreamState
    \<Rightarrow> Windowing \<Rightarrow> Windowing" where
  "fire_due_stream_schedules scan config state g = fire_windows scan config state 100 g"

section \<open>The server around it\<close>

record 'v WindowServer =
  v_stream :: stream
  v_log :: "'v StreamRecord list"
  v_sequence :: "64 word"
  v_windowing :: "Windowing option"

text \<open>What a request is given: the scans of accumulators and of records, the number of a value, the
  stream's configuration, and the schedule that a request asks for (whose \<open>next_window_start\<close> and
  \<open>windows_fired\<close> the handler sets).\<close>

record 'v WindowSetup =
  h_scan :: "WindowAccumulator list \<Rightarrow> WindowAccumulator list"
  h_scan_records :: "'v StreamRecord list \<Rightarrow> 'v StreamRecord list"
  h_numeric :: "'v \<Rightarrow> f64 option"
  h_config :: StreamConfig
  h_schedule :: WindowSchedule

text \<open>\<open>refresh_stream\<close> fires windows exactly when \<open>refresh\<close> reports a change, which is a difference of
  what is stored before and after.\<close>

definition stream_changed :: "StreamState \<Rightarrow> StreamState \<Rightarrow> bool" where
  "stream_changed s t \<longleftrightarrow> \<not> opt_feq (z_watermark t) (z_watermark s) \<or> z_finalized t \<noteq> z_finalized s
     \<or> \<not> opt_feq (z_max_event_time t) (z_max_event_time s)"

definition refreshed :: "'v WindowSetup \<Rightarrow> stream \<Rightarrow> 'v WindowServer \<Rightarrow> 'v WindowServer" where
  "refreshed setup st w = w\<lparr> v_stream := st,
     v_windowing := (if stream_changed (fst (v_stream w)) (fst st)
                     then map_option (fire_due_stream_schedules (h_scan setup) (h_config setup) (fst st)) (v_windowing w)
                     else v_windowing w) \<rparr>"

datatype 'v WindowRequest = AppendRecord nat f64 "jsstr option" 'v ChangeKind f64
  | AdvanceMark nat f64 f64 | SealPartition nat f64 | MaintainTick f64 | CreateSchedule
  | CreateOther bool

definition record_indexed :: "'v WindowSetup \<Rightarrow> 'v StreamRecord \<Rightarrow> Windowing option \<Rightarrow> Windowing option option" where
  "record_indexed setup r g = (case g of None \<Rightarrow> Some None
   | Some g \<Rightarrow> (case index_window_aggregate (h_numeric setup) (o_schedule g) r (o_state g) of
       Some (Inr st) \<Rightarrow> Some (Some (g\<lparr> o_state := st \<rparr>)) | _ \<Rightarrow> None))"

definition append_window_record :: "'v WindowSetup \<Rightarrow> nat \<Rightarrow> f64 \<Rightarrow> jsstr option \<Rightarrow> 'v \<Rightarrow> ChangeKind \<Rightarrow> f64
    \<Rightarrow> 'v WindowServer \<Rightarrow> 'v WindowServer option" where
  "append_window_record setup part event_time key val kind now w =
     (case append_record (h_config setup) part event_time now (v_stream w) of
        Inl _ \<Rightarrow> None
      | Inr (d, st) \<Rightarrow>
          let seq = v_sequence w + 1;
              r = \<lparr> r_partition = part, r_offset = q_next_offset (snd (v_stream w) ! part), r_sequence = seq,
                    r_event_time = event_time, r_key = key, r_value = val, r_kind = kind \<rparr>
          in if taken d
             then map_option (\<lambda>g. refreshed setup st (w\<lparr> v_sequence := seq, v_log := v_log w @ [r], v_windowing := g \<rparr>))
                    (record_indexed setup r (v_windowing w))
             else Some (refreshed setup st (w\<lparr> v_sequence := seq \<rparr>)))"

definition no_windows :: WindowState where
  "no_windows = \<lparr> a_accumulators = [], a_values = [], a_changes = [] \<rparr>"

definition create_window_schedule :: "'v WindowSetup \<Rightarrow> 'v WindowServer \<Rightarrow> 'v WindowServer option" where
  "create_window_schedule setup w =
     (let s = (h_schedule setup)\<lparr> y_next_window_start := y_start_at (h_schedule setup), y_windows_fired := 0 \<rparr>
      in if \<not> validate_schedule s \<or> g_late_policy (h_config setup) = Accept then None
         else if v_windowing w \<noteq> None then Some w
         else (case index_records (h_numeric setup) s (h_scan_records setup (v_log w)) no_windows of
                 Some (Inr st) \<Rightarrow> Some (w\<lparr> v_windowing := Some (fire_due_stream_schedules (h_scan setup) (h_config setup)
                   (fst (v_stream w)) \<lparr> o_schedule = s, o_state = st, o_fired = [] \<rparr>) \<rparr>)
               | _ \<Rightarrow> None))"

text \<open>The creation of another schedule of the stream fires what is due of every schedule of the stream. Whether
  that other schedule is valid and can count the records that are there is an input.\<close>

definition other_schedule_created :: "'v WindowSetup \<Rightarrow> 'v WindowServer \<Rightarrow> 'v WindowServer" where
  "other_schedule_created setup w = w\<lparr> v_windowing :=
     map_option (fire_due_stream_schedules (h_scan setup) (h_config setup) (fst (v_stream w))) (v_windowing w) \<rparr>"

text \<open>The transaction of a request; \<open>None\<close> when it fails (or does not return).\<close>

fun window_transaction :: "'v WindowSetup \<Rightarrow> 'v WindowServer \<Rightarrow> 'v WindowRequest \<Rightarrow> 'v WindowServer option" where
  "window_transaction setup w (AppendRecord part event_time key val kind now) =
     append_window_record setup part event_time key val kind now w"
| "window_transaction setup w (AdvanceMark part watermark now) =
     (case advance_stream (h_config setup) part watermark now (v_stream w) of
        Inl _ \<Rightarrow> None | Inr st \<Rightarrow> Some (refreshed setup st w))"
| "window_transaction setup w (SealPartition part now) =
     (case seal_partition (h_config setup) part now (v_stream w) of
        Inl _ \<Rightarrow> None | Inr st \<Rightarrow> Some (refreshed setup st w))"
| "window_transaction setup w (MaintainTick now) = Some (refreshed setup (refresh_stream (h_config setup) now (v_stream w)) w)"
| "window_transaction setup w CreateSchedule = create_window_schedule setup w"
| "window_transaction setup w (CreateOther ok) =
     (if ok \<and> g_late_policy (h_config setup) \<noteq> Accept then Some (other_schedule_created setup w) else None)"

definition window_step :: "'v WindowSetup \<Rightarrow> 'v WindowServer \<Rightarrow> 'v WindowRequest \<Rightarrow> 'v WindowServer" where
  "window_step setup w e = (case window_transaction setup w e of None \<Rightarrow> w | Some w' \<Rightarrow> w')"

definition new_window_server :: "StreamConfig \<Rightarrow> f64 \<Rightarrow> 'v WindowServer" where
  "new_window_server config now = \<lparr> v_stream = open_stream config now, v_log = [], v_sequence = 0, v_windowing = None \<rparr>"

end
