(* ===== verification/WindowsCorrect.thy ===== *)
theory WindowsCorrect
  imports Windows
begin

text \<open>
  What window aggregation computes, for schedules in whole numbers: the windows of a time are found
  exactly, the accumulators that are kept record by record are those that counting all records at
  once gives, and the changes that are reported replay to them. \<open>WindowsFinal\<close> adds the stream.
\<close>

section \<open>The windows of a time\<close>

definition whole_schedule :: "int \<Rightarrow> int \<Rightarrow> int \<Rightarrow> WindowSchedule \<Rightarrow> bool" where
  "whole_schedule A W D s \<longleftrightarrow> y_start_at s = num A \<and> y_window_size s = num W \<and> effective_slide s = num D
     \<and> \<bar>A\<bar> \<le> 2 ^ 50 \<and> 0 < D \<and> D \<le> W \<and> W \<le> 2 ^ 50"

lemma pow53_pow50: "(2 :: int) ^ 53 = 8 * 2 ^ 50" "(0 :: int) < 2 ^ 50"
  by simp_all

lemma fmul_num: "\<bar>a * b\<bar> \<le> 2 ^ 53 \<Longrightarrow> fmul (num a) (num b) = num (a * b)"
  using mk64_int [of "a * b"] by (simp add: num_def)

text \<open>A quotient of whole numbers is below the next whole number by at least \<open>pow2 (- e)\<close>, where
  \<open>pow2 e\<close> is the power of two at or above the divisor, and that bound is a number of the format.\<close>

lemma quotient_below:
  assumes a: "0 \<le> a" and b: "1 \<le> b" and ab: "a + b \<le> 2 ^ 52"
  shows "round64 (of_int a / of_int b) < of_int (a div b + 1)"
proof -
  define e where "e = nat (ilog2 (of_int b)) + 1"
  let ?M = "a div b + 1"
  have b0: "(0 :: rat) < of_int b" using b by simp
  have ilog0: "0 \<le> ilog2 (of_int b)" using b0 b by (simp add: ilog2_ge_iff pow2_def)
  have "of_int b < pow2 (int e)" using b0 ilog0 ilog2_less_iff [of "of_int b" "int e"] by (simp add: e_def)
  then have be: "(of_int b :: rat) < of_int (2 ^ e)" by (simp only: pow2_int [of "int e"] of_nat_0_le_iff nat_int)
  then have be': "b < 2 ^ e" by (simp only: of_int_less_iff)
  have "pow2 (int e - 1) \<le> of_int b" using b0 ilog0 ilog2_ge_iff [of "of_int b" "int e - 1"] by (simp add: e_def)
  then have "(of_int (2 ^ nat (int e - 1)) :: rat) \<le> of_int b" by (subst (asm) pow2_int) (simp_all add: e_def)
  then have eb: "2 ^ (e - 1) \<le> b" using ilog0 by (simp only: of_int_le_iff) (simp add: e_def)
  then have e2: "2 ^ e \<le> 2 * b" by (simp add: e_def)
  have M: "1 \<le> ?M" using a b by (simp add: pos_imp_zdiv_nonneg_iff)
  have "?M * 2 ^ e \<le> ?M * (2 * b)" using e2 M by (intro mult_left_mono) auto
  also have "\<dots> = 2 * (b * (a div b) + b)" by (simp add: algebra_simps)
  also have "\<dots> \<le> 2 * (a + b)"
  proof -
    have "b * (a div b) \<le> a" using a b by (simp add: minus_mod_eq_mult_div [symmetric])
    then show ?thesis by simp
  qed
  also have "\<dots> \<le> 2 ^ 53" using ab by simp
  finally have Me: "?M * 2 ^ e \<le> 2 ^ 53" .
  have pos: "2 \<le> (2 :: int) ^ e" by (simp add: e_def)
  have "2 * 1 \<le> 2 ^ e * ?M" using pos M by (intro mult_mono) auto
  then have Mp: "0 < ?M * 2 ^ e - 1" by (simp add: mult.commute)
  have esmall: "e \<le> 53"
  proof (rule ccontr)
    assume "\<not> e \<le> 53"
    then have "(2 :: int) ^ 54 \<le> 2 ^ e" by (intro power_increasing) auto
    moreover have "1 * (2 :: int) ^ e \<le> ?M * 2 ^ e" using M by (intro mult_right_mono) auto
    ultimately have "(2 :: int) ^ 54 \<le> 2 ^ 53" using Me by linarith
    then show False by simp
  qed
  define u where "u = of_int (?M * 2 ^ e - 1) * pow2 (- int e)"
  have u: "round64 u = u"
    unfolding u_def using Mp Me esmall by (intro round64_dyadic) auto
  have pe: "pow2 (- int e) = 1 / of_int (2 ^ e)"
    using pow2_diff [of 0 "int e"] pow2_int [of "int e"] pow2_int [of 0] by simp
  have uM: "u = of_int ?M - 1 / of_int (2 ^ e)"
    by (simp add: u_def pe field_simps)
  have "a + 1 \<le> ?M * b"
  proof -
    have "a div b * b + a mod b = a" by (rule div_mult_mod_eq)
    moreover have "a mod b < b" using b by simp
    moreover have "?M * b = a div b * b + b" by (simp add: distrib_right)
    ultimately show ?thesis by linarith
  qed
  then have "(of_int (a + 1) :: rat) \<le> of_int (?M * b)" by (simp only: of_int_le_iff)
  then have "of_int a / of_int b \<le> of_int ?M - 1 / (of_int b :: rat)"
    using b0 by (simp add: field_simps)
  also have "1 / of_int (2 ^ e) \<le> 1 / (of_int b :: rat)"
    using be b0 by (intro divide_left_mono) auto
  then have "of_int ?M - 1 / (of_int b :: rat) \<le> u" by (simp add: uM)
  finally have "round64 (of_int a / of_int b) \<le> u" by (rule r64.le_exact [OF u])
  also have "u < of_int ?M" by (simp add: uM)
  finally show ?thesis .
qed

lemma floor_quotient:
  assumes a: "0 \<le> a" and b: "1 \<le> b" and ab: "a + b \<le> 2 ^ 52"
  shows "js_floor (fdiv (num a) (num b)) = num (a div b)"
proof -
  let ?q = "of_int a / of_int b :: rat"
  have b0: "(0 :: rat) < of_int b" using b by simp
  have "b * (a div b) \<le> a" using a b by (simp add: minus_mod_eq_mult_div [symmetric])
  then have "(of_int (a div b * b) :: rat) \<le> of_int a" by (simp only: of_int_le_iff mult.commute)
  then have lo: "of_int (a div b) \<le> ?q" using b0 by (simp add: pos_le_divide_eq)
  have k: "0 \<le> a div b" using a b by (simp add: pos_imp_zdiv_nonneg_iff)
  have "1 * (a div b) \<le> b * (a div b)" using b k by (intro mult_right_mono) auto
  also have "\<dots> \<le> a" using a b by (simp add: minus_mod_eq_mult_div [symmetric])
  finally have ka: "a div b \<le> a" by simp
  have hi: "?q \<le> of_int a" using a b by (simp add: divide_le_eq mult_le_cancel_left1)
  have k53: "\<bar>a div b\<bar> \<le> 2 ^ 53" "\<bar>a\<bar> \<le> 2 ^ 53" using a b ab k ka by auto
  obtain r where r: "mk64 ?q = Fin r" "of_int (a div b) \<le> r" using mk64_between [OF k53 lo hi] by metis
  then have "r = round64 ?q" by (auto simp: mk64_def Let_def split: if_splits)
  with quotient_below [OF assms] have "r < of_int (a div b + 1)" by simp
  with r(2) have "\<lfloor>r\<rfloor> = a div b" by (intro floor_unique) auto
  with r(1) b0 show ?thesis by (simp add: num_def)
qed

definition nth_start :: "int \<Rightarrow> int \<Rightarrow> nat \<Rightarrow> f64" where
  "nth_start A D k = num (A + int k * D)"

lemma starts_from_whole:
  assumes s: "whole_schedule A W D s" and T: "\<bar>T\<bar> \<le> 2 ^ 50" and k: "A + int k * D \<le> T"
  shows "starts_from s (num T) (nth_start A D k)
    = Some (map (nth_start A D) (filter (\<lambda>i. T < A + int i * D + W) (rev [0..<Suc k])))"
  using k
proof (induction k)
  case 0
  have "fadd (num A) (num W) = num (A + W)" "fadd (num A) (num D) = num (A + D)"
    using s by (auto simp: whole_schedule_def intro!: fadd_num)
  with s 0 show ?case by (subst starts_from.simps) (auto simp: whole_schedule_def nth_start_def)
next
  case (Suc k)
  have D: "0 < D" "D \<le> W" "W \<le> 2 ^ 50" "\<bar>A\<bar> \<le> 2 ^ 50" using s by (auto simp: whole_schedule_def)
  have lo: "A + D \<le> A + int (Suc k) * D" using D by (simp add: algebra_simps)
  have prev: "A + int (Suc k) * D - D = A + int k * D" by (simp add: algebra_simps)
  have kD: "0 \<le> int k * D" using D by simp
  note known = kD Suc.prems T D lo prev
  have bounds: "\<bar>A + int (Suc k) * D + W\<bar> \<le> 2 ^ 53 \<and> \<bar>A + D\<bar> \<le> 2 ^ 53 \<and> \<bar>A + int k * D\<bar> \<le> 2 ^ 53"
    unfolding pow53_pow50(1) using known pow53_pow50(2) by linarith
  then have adds: "fadd (num (A + int (Suc k) * D)) (num W) = num (A + int (Suc k) * D + W)"
    "fadd (num A) (num D) = num (A + D)" "fsub (num (A + int (Suc k) * D)) (num D) = num (A + int k * D)"
    using bounds fsub_num [of "A + int (Suc k) * D" D] unfolding prev by (simp_all only: fadd_num)
  show ?case
  proof (cases "T < A + int (Suc k) * D + W")
    case True
    have "A + int k * D \<le> T" using Suc.prems D by (simp add: algebra_simps)
    from Suc.IH [OF this] True s adds lo D show ?thesis
      by (subst starts_from.simps) (simp add: whole_schedule_def nth_start_def)
  next
    case False
    have "\<not> T < A + int i * D + W" if "i \<le> Suc k" for i
    proof -
      have "int i * D \<le> int (Suc k) * D" using that D by (intro mult_right_mono) auto
      with False show ?thesis by simp
    qed
    then have "filter (\<lambda>i. T < A + int i * D + W) (rev [0..<Suc (Suc k)]) = []"
      unfolding filter_empty_conv set_rev set_upt by auto
    with False s adds show ?thesis
      by (subst starts_from.simps) (simp add: whole_schedule_def nth_start_def)
  qed
qed

lemma nth_start_inj: "0 < D \<Longrightarrow> nth_start A D i = nth_start A D j \<longleftrightarrow> i = j"
  by (auto simp: nth_start_def)

lemma window_starts_run:
  assumes s: "whole_schedule A W D s" and T: "\<bar>T\<bar> \<le> 2 ^ 50" and start: "A \<le> T"
  defines "k \<equiv> nat ((T - A) div D)"
  shows "window_starts s (num T)
      = Some (map (nth_start A D) (filter (\<lambda>i. T < A + int i * D + W) (rev [0..<Suc k])))"
    and "A + int k * D \<le> T" "T < A + int k * D + D"
proof -
  have D: "0 < D" "D \<le> W" "W \<le> 2 ^ 50" "\<bar>A\<bar> \<le> 2 ^ 50" using s by (auto simp: whole_schedule_def)
  have k: "int k = (T - A) div D" using start D by (simp add: k_def pos_imp_zdiv_nonneg_iff)
  have low: "A + int k * D \<le> T"
    using D div_mult_mod_eq [of "T - A" D] pos_mod_sign [of D "T - A"] unfolding k by linarith
  have high: "T < A + int k * D + D"
    using D div_mult_mod_eq [of "T - A" D] pos_mod_bound [of D "T - A"] unfolding k by linarith
  have kD: "0 \<le> int k * D" using D by simp
  have "fsub (num T) (num A) = num (T - A)" using T D by (intro fsub_num) auto
  moreover have "js_floor (fdiv (num (T - A)) (num D)) = num (int k)"
    unfolding k using start D T by (intro floor_quotient) auto
  moreover have "fmul (num (int k)) (num D) = num (int k * D)"
    using low kD T D pow53_pow50 by (intro fmul_num) linarith
  moreover have "fadd (num A) (num (int k * D)) = nth_start A D k"
    unfolding nth_start_def using low kD T D pow53_pow50 by (intro fadd_num) linarith
  ultimately show "window_starts s (num T)
      = Some (map (nth_start A D) (filter (\<lambda>i. T < A + int i * D + W) (rev [0..<Suc k])))"
    using start s starts_from_whole [OF s T low] by (simp add: window_starts_def whole_schedule_def)
  show "A + int k * D \<le> T" "T < A + int k * D + D" by (rule low, rule high)
qed

lemma windows_found:
  assumes s: "whole_schedule A W D s" and T: "\<bar>T\<bar> \<le> 2 ^ 50"
  shows "\<exists>ws. window_starts s (num T) = Some ws \<and> distinct ws
    \<and> set ws = {num (A + k * D) | k. 0 \<le> k \<and> A + k * D \<le> T \<and> T < A + k * D + W}"
proof (cases "T < A")
  case True
  have "A \<le> A + k * D" if "0 \<le> k" for k using that s by (simp add: whole_schedule_def)
  with True have "{num (A + k * D) | k. 0 \<le> k \<and> A + k * D \<le> T \<and> T < A + k * D + W} = {}" by force
  with True s show ?thesis by (simp add: window_starts_def whole_schedule_def)
next
  case False
  define k where "k = nat ((T - A) div D)"
  have D: "0 < D" "D \<le> W" "W \<le> 2 ^ 50" "\<bar>A\<bar> \<le> 2 ^ 50" using s by (auto simp: whole_schedule_def)
  have run: "window_starts s (num T)
      = Some (map (nth_start A D) (filter (\<lambda>i. T < A + int i * D + W) (rev [0..<Suc k])))" (is "_ = Some ?ws")
    and low: "A + int k * D \<le> T" and high: "T < A + int k * D + D"
    using window_starts_run [OF s T] False unfolding k_def by (simp_all only: not_less)
  have "distinct ?ws" using nth_start_inj [OF D(1)] by (auto simp: distinct_map inj_on_def)
  moreover have "set ?ws = {num (A + k * D) | k. 0 \<le> k \<and> A + k * D \<le> T \<and> T < A + k * D + W}" (is "_ = ?R")
  proof
    show "set ?ws \<subseteq> ?R"
    proof
      fix w assume "w \<in> set ?ws"
      then obtain i where i: "i \<le> k" "T < A + int i * D + W" "w = num (A + int i * D)"
        unfolding nth_start_def set_map set_filter set_rev set_upt by (auto simp: less_Suc_eq_le simp del: num_eq_iff)
      have "int i * D \<le> int k * D" using i D by (intro mult_right_mono) auto
      with i low show "w \<in> ?R" by (intro CollectI exI [of _ "int i"]) auto
    qed
    show "?R \<subseteq> set ?ws"
    proof
      fix w assume "w \<in> ?R"
      then obtain j where j: "w = num (A + j * D)" "0 \<le> j" "A + j * D \<le> T" "T < A + j * D + W" by auto
      have "j * D < (int k + 1) * D" using j high by (simp add: algebra_simps)
      then have "j < int k + 1" using D by (simp only: mult_less_cancel_right_pos)
      then have "nat j \<le> k" using j by simp
      with j have "nat j \<in> set (filter (\<lambda>i. T < A + int i * D + W) (rev [0..<Suc k]))"
        unfolding set_filter set_rev set_upt by simp
      moreover have "w = nth_start A D (nat j)" using j by (simp add: nth_start_def)
      ultimately show "w \<in> set ?ws" unfolding set_map by (rule image_eqI [rotated])
    qed
  qed
  ultimately show ?thesis using run by blast
qed

text \<open>
  C18. The windows of a record. For a schedule and an event time in whole numbers (up to \<open>2 ^ 50\<close>), the loop
  that enumerates the windows of a record ends, in spite of the rounding of its division, with each
  window \<open>[start_at + k * slide, start_at + k * slide + window_size)\<close> that contains the time, once,
  and with no other.
\<close>

theorem windows_of_record:
  assumes "whole_schedule A W D s" "\<bar>T\<bar> \<le> 2 ^ 50"
  shows "\<exists>ws. window_starts s (num T) = Some ws \<and> distinct ws
    \<and> set ws = {num (A + k * D) | k. 0 \<le> k \<and> A + k * D \<le> T \<and> T < A + k * D + W}"
  using assms by (rule windows_found)

section \<open>Counting all at once\<close>

text \<open>What a window holds by its definition: the sum of the weights of the records in it.\<close>

definition number_of :: "('v \<Rightarrow> f64 option) \<Rightarrow> 'v StreamRecord \<Rightarrow> f64" where
  "number_of numeric r = (case numeric (r_value r) of None \<Rightarrow> num 0 | Some x \<Rightarrow> x)"

definition in_pane :: "WindowSchedule \<Rightarrow> pane \<Rightarrow> 'v StreamRecord \<Rightarrow> bool" where
  "in_pane s p r \<longleftrightarrow> fle (fst p) (r_event_time r) \<and> flt (r_event_time r) (fadd (fst p) (y_window_size s))
     \<and> key_text (r_key r) = snd p"

definition net_weight :: "'v StreamRecord list \<Rightarrow> int" where
  "net_weight rs = sum_list (map (\<lambda>r. weight (r_kind r)) rs)"

lemma net_weight_simps [simp]:
  "net_weight [] = 0" "net_weight (r # rs) = weight (r_kind r) + net_weight rs"
  "net_weight (rs @ ss) = net_weight rs + net_weight ss"
  by (simp_all add: net_weight_def)

definition net_count :: "WindowSchedule \<Rightarrow> 'v StreamRecord list \<Rightarrow> pane \<Rightarrow> int" where
  "net_count s rs p = net_weight (filter (in_pane s p) rs)"

definition net_value :: "('v \<Rightarrow> f64 option) \<Rightarrow> WindowSchedule \<Rightarrow> 'v StreamRecord list \<Rightarrow> pane \<Rightarrow> f64 \<Rightarrow> int" where
  "net_value numeric s rs p x = net_weight (filter (\<lambda>r. in_pane s p r \<and> number_of numeric r = x) rs)"

text \<open>\<open>m\<close> is the greatest number that is counted at least once.\<close>

definition greatest_counted :: "(f64 \<Rightarrow> int) \<Rightarrow> f64 option \<Rightarrow> bool" where
  "greatest_counted v m = (case m of None \<Rightarrow> (\<forall>x. v x \<le> 0)
     | Some m \<Rightarrow> 0 < v m \<and> (\<forall>x. 0 < v x \<longrightarrow> total_le x m))"

section \<open>Counting record by record\<close>

text \<open>What the accumulators hold, for the counts \<open>n\<close> of the panes and \<open>v\<close> of the numbers in them.\<close>

definition accumulated :: "WindowSchedule \<Rightarrow> (pane \<Rightarrow> int) \<Rightarrow> (pane \<Rightarrow> f64 \<Rightarrow> int) \<Rightarrow> pane \<Rightarrow> WindowAccumulator \<Rightarrow> bool" where
  "accumulated s n v p a \<longleftrightarrow> pane_of a = p \<and> e_window_end a = fadd (fst p) (y_window_size s) \<and> e_count a = n p
     \<and> (y_aggregation s = Max \<longrightarrow> greatest_counted (v p) (e_max a))"

definition counted :: "WindowSchedule \<Rightarrow> (pane \<Rightarrow> int) \<Rightarrow> (pane \<Rightarrow> f64 \<Rightarrow> int) \<Rightarrow> WindowState \<Rightarrow> bool" where
  "counted s n v st \<longleftrightarrow> distinct (map pane_of (a_accumulators st)) \<and> distinct (map value_key (a_values st))
     \<and> (\<forall>p. case get_by pane_of p (a_accumulators st) of
              None \<Rightarrow> n p = 0 | Some a \<Rightarrow> 0 < n p \<and> accumulated s n v p a)
     \<and> (\<forall>p x. y_aggregation s = Max \<longrightarrow> (case get_by value_key (p, x) (a_values st) of
              None \<Rightarrow> v p x = 0 | Some c \<Rightarrow> 0 < v p x \<and> c_count c = v p x))"

lemma countedD:
  assumes "counted s n v st"
  shows "case get_by pane_of p (a_accumulators st) of None \<Rightarrow> n p = 0 | Some a \<Rightarrow> 0 < n p \<and> accumulated s n v p a"
    and "y_aggregation s = Max \<Longrightarrow>
      (case get_by value_key (p, x) (a_values st) of None \<Rightarrow> v p x = 0 | Some c \<Rightarrow> 0 < v p x \<and> c_count c = v p x)"
  using assms unfolding counted_def by blast+

lemma reduce_greater:
  assumes "reduce greater_value xs = Some m"
  shows "m \<in> set xs \<and> (\<forall>x \<in> set xs. total_le x m)"
proof -
  have step: "foldl greater_value a ys \<in> set (a # ys) \<and> (\<forall>x \<in> set (a # ys). total_le x (foldl greater_value a ys))" for a ys
  proof (induction ys arbitrary: a)
    case Nil
    show ?case using total_le_total [of a a] by simp
  next
    case (Cons y ys)
    have "total_le a (greater_value a y)" "total_le y (greater_value a y)" "greater_value a y \<in> {a, y}"
      using total_le_total [of a y] total_le_total [of a a] total_le_total [of y y] by (auto simp: greater_value_def)
    moreover from Cons [of "greater_value a y"] have "total_le (greater_value a y) (foldl greater_value a (y # ys))"
      by simp
    ultimately have "total_le a (foldl greater_value a (y # ys)) \<and> total_le y (foldl greater_value a (y # ys))"
      using total_le_trans by blast
    with Cons [of "greater_value a y"] \<open>greater_value a y \<in> {a, y}\<close> show ?case by auto
  qed
  from assms obtain a ys where "xs = a # ys" "m = foldl greater_value a ys" by (auto simp: reduce_def split: list.splits)
  with step [of a ys] show ?thesis by simp
qed

lemma greatest_value_counted:
  assumes "distinct (map value_key cs)"
    and v: "\<And>x. case get_by value_key (p, x) cs of None \<Rightarrow> v x = 0 | Some c \<Rightarrow> 0 < v x \<and> c_count c = v x"
  shows "greatest_counted v (greatest_value p cs)"
proof -
  let ?xs = "map c_value (filter (\<lambda>c. c_pane c = p \<and> 0 < c_count c) cs)"
  have pos: "0 < v x \<longleftrightarrow> x \<in> set ?xs" for x
  proof
    assume "0 < v x"
    then obtain c where c: "get_by value_key (p, x) cs = Some c" "c_count c = v x" using v [of x] by (auto split: option.splits)
    with get_by_Some [OF c(1)] \<open>0 < v x\<close> show "x \<in> set ?xs" by (auto simp: value_key_def)
  next
    assume "x \<in> set ?xs"
    then obtain c where c: "c \<in> set cs" "value_key c = (p, x)" by (auto simp: value_key_def)
    with get_by_in [OF c(1) assms(1)] show "0 < v x" using v [of x] by simp
  qed
  show ?thesis
  proof (cases "greatest_value p cs")
    case None
    then have "?xs = []" by (auto simp: greatest_value_def reduce_def split: list.splits)
    then have "\<not> 0 < v x" for x using pos [of x] unfolding \<open>?xs = []\<close> by simp
    with None show ?thesis by (simp add: greatest_counted_def not_less)
  next
    case (Some m)
    then show ?thesis using reduce_greater [of ?xs m] pos by (auto simp: greatest_counted_def greatest_value_def)
  qed
qed

text \<open>One value more or less.\<close>

definition bump :: "'k \<Rightarrow> int \<Rightarrow> ('k \<Rightarrow> int) \<Rightarrow> 'k \<Rightarrow> int" where
  "bump k w f = f(k := f k + w)"

lemma count_value_counted:
  assumes run: "count_value p x w cs = Inr cs'" and cs: "distinct (map value_key cs)"
    and v: "\<And>q y. case get_by value_key (q, y) cs of None \<Rightarrow> v q y = 0 | Some c \<Rightarrow> 0 < v q y \<and> c_count c = v q y"
  shows "distinct (map value_key cs')"
    and "\<And>q y. case get_by value_key (q, y) cs' of
      None \<Rightarrow> (v(p := bump x w (v p))) q y = 0
    | Some c \<Rightarrow> 0 < (v(p := bump x w (v p))) q y \<and> c_count c = (v(p := bump x w (v p))) q y"
proof -
  define c where "c = (case get_by value_key (p, x) cs of None \<Rightarrow> \<lparr> c_pane = p, c_value = x, c_count = 0 \<rparr> | Some c \<Rightarrow> c)"
  define c' where "c' = c\<lparr> c_count := c_count c + w \<rparr>"
  have key: "value_key c = (p, x)" using get_by_Some [of value_key "(p, x)" cs] by (auto simp: c_def value_key_def split: option.splits)
  have n: "c_count c = v p x" using v [of p x] by (auto simp: c_def split: option.splits)
  have cs': "cs' = (if c_count c' = 0 then delete_by value_key c' cs else put_by value_key c' cs)" "0 \<le> c_count c'"
    using run by (auto simp: count_value_def Let_def c_def c'_def split: if_splits)
  have c': "value_key c' = (p, x)" "c_count c' = v p x + w" using key n by (simp_all add: c'_def value_key_def)
  show "distinct (map value_key cs')" using cs distinct_keys_by [OF cs] by (simp add: cs')
  show "case get_by value_key (q, y) cs' of
      None \<Rightarrow> (v(p := bump x w (v p))) q y = 0
    | Some c \<Rightarrow> 0 < (v(p := bump x w (v p))) q y \<and> c_count c = (v(p := bump x w (v p))) q y" for q y
    using v [of q y] c' cs' by (auto simp: get_put_by get_delete_by bump_def split: option.splits)
qed

text \<open>One window of one record.\<close>

lemma index_window_counted:
  assumes run: "index_window s r x start st = Inr st'" and st: "counted s n v st"
  defines "p \<equiv> (start, key_text (r_key r))" and "w \<equiv> weight (r_kind r)"
  shows "counted s (bump p w n) (v(p := bump x w (v p))) st'"
proof -
  have d: "distinct (map pane_of (a_accumulators st))" "distinct (map value_key (a_values st))"
    and n: "\<And>q. case get_by pane_of q (a_accumulators st) of None \<Rightarrow> n q = 0 | Some a \<Rightarrow> 0 < n q \<and> accumulated s n v q a"
    and v: "\<And>q y. y_aggregation s = Max \<Longrightarrow> (case get_by value_key (q, y) (a_values st) of
      None \<Rightarrow> v q y = 0 | Some c \<Rightarrow> 0 < v q y \<and> c_count c = v q y)"
    using st countedD [OF st] by (auto simp: counted_def)
  define b where "b = (case get_by pane_of p (a_accumulators st) of None \<Rightarrow> fresh_accumulator s start (r_key r) | Some a \<Rightarrow> a)"
  define b' where "b' = b\<lparr> e_count := e_count b + w \<rparr>"
  have b: "pane_of b = p" "e_window_end b = fadd start (y_window_size s)" "e_count b = n p"
    using n [of p] by (auto simp: b_def fresh_accumulator_def pane_of_def p_def accumulated_def split: option.splits)
  have pos: "0 \<le> e_count b'"
    using run by (auto simp: index_window_def Let_def b'_def b_def w_def p_def split: if_splits)
  obtain a cs where agg: "aggregate s x w b' (a_values st) = Inr (a, cs)"
    using run by (auto simp: index_window_def Let_def b'_def b_def w_def p_def split: if_splits sum.splits)
  have st': "a_values st' = cs" "a_accumulators st' =
      (if e_count a = 0 then delete_by pane_of a (a_accumulators st) else put_by pane_of a (a_accumulators st))"
    using run agg pos by (auto simp: index_window_def Let_def b'_def b_def w_def p_def split: if_splits)
  have a: "pane_of a = p" "e_window_end a = fadd start (y_window_size s)" "e_count a = n p + w"
    using agg b by (auto simp: aggregate_def b'_def pane_of_def split: WindowAggregation.splits sum.splits)
  let ?v = "v(p := bump x w (v p))"
  have cs: "distinct (map value_key cs)"
    "y_aggregation s = Max \<Longrightarrow> greatest_counted (?v p) (e_max a)"
    "\<And>q y. y_aggregation s = Max \<Longrightarrow> (case get_by value_key (q, y) cs of None \<Rightarrow> ?v q y = 0 | Some c \<Rightarrow> 0 < ?v q y \<and> c_count c = ?v q y)"
  proof -
    have max: "count_value p x w (a_values st) = Inr cs \<and> e_max a = greatest_value p cs" if "y_aggregation s = Max"
      using agg b(1) that by (auto simp: aggregate_def b'_def pane_of_def split: sum.splits)
    note step = count_value_counted [OF _ d(2) v]
    show counts: "case get_by value_key (q, y) cs of None \<Rightarrow> ?v q y = 0 | Some c \<Rightarrow> 0 < ?v q y \<and> c_count c = ?v q y"
      if "y_aggregation s = Max" for q y
      using step(2) max [OF that] that by blast
    show dcs: "distinct (map value_key cs)"
    proof (cases "y_aggregation s = Max")
      case True
      with step(1) max show ?thesis by blast
    next
      case False
      with agg d(2) show ?thesis by (auto simp: aggregate_def split: WindowAggregation.splits)
    qed
    show "greatest_counted (?v p) (e_max a)" if "y_aggregation s = Max"
      using max [OF that] greatest_value_counted [OF dcs, where p = p and v = "?v p"] counts [OF that] by simp
  qed
  have "case get_by pane_of q (a_accumulators st') of None \<Rightarrow> bump p w n q = 0
      | Some a \<Rightarrow> 0 < bump p w n q \<and> accumulated s (bump p w n) ?v q a" for q
  proof (cases "q = p")
    case True
    have "0 \<le> n p + w" using pos b(3) by (simp add: b'_def)
    with True a cs(2) show ?thesis
      by (auto simp: st' get_put_by get_delete_by bump_def accumulated_def p_def)
  next
    case False
    with n [of q] a(1) show ?thesis
      by (auto simp: st' get_put_by get_delete_by bump_def accumulated_def split: option.splits)
  qed
  moreover have "distinct (map pane_of (a_accumulators st'))" using d(1) distinct_keys_by [OF d(1)] by (simp add: st')
  ultimately show ?thesis using cs by (simp add: counted_def st'(1))
qed

text \<open>Every window of one record.\<close>

definition spread :: "f64 set \<Rightarrow> jsstr \<Rightarrow> int \<Rightarrow> (pane \<Rightarrow> int) \<Rightarrow> pane \<Rightarrow> int" where
  "spread ws k w n p = n p + (if fst p \<in> ws \<and> snd p = k then w else 0)"

definition spread_value :: "f64 set \<Rightarrow> jsstr \<Rightarrow> f64 \<Rightarrow> int \<Rightarrow> (pane \<Rightarrow> f64 \<Rightarrow> int) \<Rightarrow> pane \<Rightarrow> f64 \<Rightarrow> int" where
  "spread_value ws k x w v p y = v p y + (if fst p \<in> ws \<and> snd p = k \<and> y = x then w else 0)"

lemma index_windows_counted:
  assumes "index_windows s r x ws st = Inr st'" "counted s n v st" "distinct ws"
  shows "counted s (spread (set ws) (key_text (r_key r)) (weight (r_kind r)) n)
    (spread_value (set ws) (key_text (r_key r)) x (weight (r_kind r)) v) st'"
  using assms
proof (induction ws arbitrary: st n v)
  case Nil
  then show ?case by (simp add: spread_def [abs_def] spread_value_def [abs_def])
next
  case (Cons start ws)
  let ?k = "key_text (r_key r)" and ?w = "weight (r_kind r)"
  let ?n = "bump (start, ?k) ?w n" and ?v = "v((start, ?k) := bump x ?w (v (start, ?k)))"
  obtain st1 where st1: "index_window s r x start st = Inr st1" "index_windows s r x ws st1 = Inr st'"
    using Cons.prems(1) by (auto split: sum.splits)
  have "counted s (spread (set ws) ?k ?w ?n) (spread_value (set ws) ?k x ?w ?v) st'"
    using Cons.prems(3) by (intro Cons.IH [OF st1(2) index_window_counted [OF st1(1) Cons.prems(2)]]) simp
  moreover have "spread (set ws) ?k ?w ?n = spread (set (start # ws)) ?k ?w n"
    using Cons.prems(3) by (auto simp: spread_def bump_def fun_eq_iff)
  moreover have "spread_value (set ws) ?k x ?w ?v = spread_value (set (start # ws)) ?k x ?w v"
    using Cons.prems(3) by (auto simp: spread_value_def bump_def fun_eq_iff)
  ultimately show ?case by simp
qed

section \<open>Record by record is all at once\<close>

text \<open>The windows of the schedule from \<open>N\<close> on, and what they hold.\<close>

definition window_from :: "int \<Rightarrow> int \<Rightarrow> int \<Rightarrow> f64 \<Rightarrow> bool" where
  "window_from A D N w \<longleftrightarrow> (\<exists>k \<ge> 0. w = num (A + k * D) \<and> N \<le> A + k * D)"

definition held :: "(f64 \<Rightarrow> bool) \<Rightarrow> (pane \<Rightarrow> int) \<Rightarrow> pane \<Rightarrow> int" where
  "held P n p = (if P (fst p) then n p else 0)"

definition held_value :: "(f64 \<Rightarrow> bool) \<Rightarrow> (pane \<Rightarrow> f64 \<Rightarrow> int) \<Rightarrow> pane \<Rightarrow> f64 \<Rightarrow> int" where
  "held_value P v p y = (if P (fst p) then v p y else 0)"

definition recomputed :: "('v \<Rightarrow> f64 option) \<Rightarrow> WindowSchedule \<Rightarrow> (f64 \<Rightarrow> bool) \<Rightarrow> 'v StreamRecord list \<Rightarrow> WindowState \<Rightarrow> bool" where
  "recomputed numeric s P rs = counted s (held P (net_count s rs)) (held_value P (net_value numeric s rs))"

text \<open>The result of indexing a record: its windows' counts, or an error that names what is wrong.\<close>

definition whole_time :: "f64 \<Rightarrow> bool" where
  "whole_time t \<longleftrightarrow> (\<exists>T. t = num T \<and> \<bar>T\<bar> \<le> 2 ^ 50)"

lemma whole_adds:
  assumes "whole_schedule A W D s" "0 \<le> k" "A + k * D \<le> 2 ^ 51"
  shows "fadd (num (A + k * D)) (num W) = num (A + k * D + W)"
    and "fadd (num (A + k * D)) (num D) = num (A + (k + 1) * D)"
proof -
  have b: "\<bar>A\<bar> \<le> 2 ^ 50" "0 < D" "D \<le> W" "W \<le> 2 ^ 50" using assms(1) by (auto simp: whole_schedule_def)
  have "0 \<le> k * D" using assms(2) b by simp
  then have "\<bar>A + k * D + W\<bar> \<le> 2 ^ 53" "\<bar>A + k * D + D\<bar> \<le> 2 ^ 53"
    using assms(3) b by simp_all
  then show "fadd (num (A + k * D)) (num W) = num (A + k * D + W)"
    "fadd (num (A + k * D)) (num D) = num (A + (k + 1) * D)"
    using fadd_num [of "A + k * D" W] fadd_num [of "A + k * D" D] by (simp_all add: algebra_simps)
qed

text \<open>The windows that the code finds are those that the definition of a window's content names.\<close>

lemma starts_in_pane:
  assumes s: "whole_schedule A W D s" and r: "r_event_time r = num T" "\<bar>T\<bar> \<le> 2 ^ 50"
    and ws: "window_starts s (num T) = Some ws" and p: "window_from A D N (fst p)"
  shows "fst p \<in> set ws \<and> snd p = key_text (r_key r) \<longleftrightarrow> in_pane s p r"
proof -
  obtain k where k: "0 \<le> k" "fst p = num (A + k * D)" using p by (auto simp: window_from_def)
  have D: "0 < D" and y: "y_window_size s = num W" using s by (auto simp: whole_schedule_def)
  have mem: "fst p \<in> set ws \<longleftrightarrow> A + k * D \<le> T \<and> T < A + k * D + W"
    using windows_found [OF s r(2)] ws k D by auto
  show ?thesis
  proof (cases "A + k * D \<le> T")
    case True
    then have "A + k * D \<le> 2 ^ 51" using r(2) by simp
    with whole_adds(1) [OF s k(1)] have "fadd (fst p) (y_window_size s) = num (A + k * D + W)" by (simp add: k(2) y)
    with True mem show ?thesis by (auto simp: in_pane_def r k(2))
  next
    case False
    with mem show ?thesis by (auto simp: in_pane_def r k(2))
  qed
qed

lemma net_count_snoc: "net_count s (rs @ [r]) p = net_count s rs p + (if in_pane s p r then weight (r_kind r) else 0)"
  by (simp add: net_count_def)

lemma net_value_snoc: "net_value numeric s (rs @ [r]) p y
    = net_value numeric s rs p y + (if in_pane s p r \<and> y = number_of numeric r then weight (r_kind r) else 0)"
  by (auto simp: net_value_def)

lemma index_record_recomputed:
  assumes s: "whole_schedule A W D s" and r: "whole_time (r_event_time r)"
    and st: "recomputed numeric s (window_from A D N) rs st"
    and late: "\<And>k. 0 \<le> k \<Longrightarrow> flt (r_event_time r) (num (A + k * D + W)) \<Longrightarrow> N \<le> A + k * D"
    and run: "index_window_aggregate numeric s r st = Some (Inr st')"
  shows "recomputed numeric s (window_from A D N) (rs @ [r]) st'"
proof -
  obtain T where T: "r_event_time r = num T" "\<bar>T\<bar> \<le> 2 ^ 50" using r by (auto simp: whole_time_def)
  obtain ws where ws: "window_starts s (num T) = Some ws" "distinct ws"
    "set ws = {num (A + k * D) | k. 0 \<le> k \<and> A + k * D \<le> T \<and> T < A + k * D + W}"
    using windows_found [OF s T(2)] by blast
  let ?P = "window_from A D N" and ?k = "key_text (r_key r)" and ?w = "weight (r_kind r)"
  let ?n = "held ?P (net_count s rs)" and ?v = "held_value ?P (net_value numeric s rs)"
  have before: "flt (num T) (y_start_at s) \<Longrightarrow> ws = []" using ws(1) by (simp add: window_starts_def)
  have "index_windows s r (number_of numeric r) ws st = Inr st'"
    using run before ws(1) by (auto simp: index_window_aggregate_def T number_of_def split: if_splits)
  then have after: "counted s (spread (set ws) ?k ?w ?n) (spread_value (set ws) ?k (number_of numeric r) ?w ?v) st'"
    using st ws(2) unfolding recomputed_def by (rule index_windows_counted)
  have inside: "?P w" if "w \<in> set ws" for w
    using that late unfolding ws(3) window_from_def T(1) by auto
  note pane = starts_in_pane [OF s T ws(1), where N = N]
  have "spread (set ws) ?k ?w ?n = held ?P (net_count s (rs @ [r]))"
  proof
    show "spread (set ws) ?k ?w ?n p = held ?P (net_count s (rs @ [r])) p" for p
    proof (cases "?P (fst p)")
      case True
      with pane [OF True] show ?thesis by (simp add: spread_def held_def net_count_snoc)
    next
      case False
      with inside show ?thesis by (auto simp: spread_def held_def)
    qed
  qed
  moreover have "spread_value (set ws) ?k (number_of numeric r) ?w ?v = held_value ?P (net_value numeric s (rs @ [r]))"
  proof (intro ext)
    show "spread_value (set ws) ?k (number_of numeric r) ?w ?v p y = held_value ?P (net_value numeric s (rs @ [r])) p y" for p y
    proof (cases "?P (fst p)")
      case True
      with pane [OF True] show ?thesis
        by (cases "in_pane s p r") (auto simp: spread_value_def held_value_def net_value_snoc)
    next
      case False
      with inside show ?thesis by (auto simp: spread_value_def held_value_def)
    qed
  qed
  ultimately show ?thesis using after by (simp only: recomputed_def)
qed

lemma index_records_recomputed:
  assumes s: "whole_schedule A W D s" and rs: "list_all (\<lambda>r. whole_time (r_event_time r)) ss"
    and st: "recomputed numeric s (window_from A D A) rs st"
    and run: "index_records numeric s ss st = Some (Inr st')"
  shows "recomputed numeric s (window_from A D A) (rs @ ss) st'"
  using rs st run
proof (induction ss arbitrary: rs st)
  case (Cons r ss)
  obtain st1 where st1: "index_window_aggregate numeric s r st = Some (Inr st1)" "index_records numeric s ss st1 = Some (Inr st')"
    using Cons.prems(3) by (auto split: option.splits sum.splits)
  have "0 < D" using s by (simp add: whole_schedule_def)
  then have "recomputed numeric s (window_from A D A) (rs @ [r]) st1"
    using Cons.prems st1(1) by (intro index_record_recomputed [OF s]) auto
  from Cons.IH [OF _ this st1(2)] Cons.prems(1) show ?case by simp
qed simp

lemma recomputed_empty: "recomputed numeric s P [] no_windows"
  by (simp add: recomputed_def counted_def no_windows_def held_def held_value_def net_count_def net_value_def get_by_def)

text \<open>Why a record is refused.\<close>

lemma index_window_error:
  assumes run: "index_window s r x start st = Inl e" and st: "counted s n v st"
  defines "p \<equiv> (start, key_text (r_key r))"
  shows "(e = RetractionWithoutState \<and> n p + weight (r_kind r) < 0)
    \<or> (e = ValueWithoutState \<and> y_aggregation s = Max \<and> v p x + weight (r_kind r) < 0)"
proof -
  define b where "b = (case get_by pane_of p (a_accumulators st) of None \<Rightarrow> fresh_accumulator s start (r_key r) | Some a \<Rightarrow> a)"
  define b' where "b' = b\<lparr> e_count := e_count b + weight (r_kind r) \<rparr>"
  have b: "pane_of b = p" "e_count b = n p"
    using countedD(1) [OF st, of p]
    by (auto simp: b_def fresh_accumulator_def pane_of_def p_def accumulated_def split: option.splits)
  show ?thesis
  proof (cases "e_count b' < 0")
    case True
    with run b(2) show ?thesis by (simp add: index_window_def Let_def b'_def b_def p_def)
  next
    case False
    with run have "aggregate s x (weight (r_kind r)) b' (a_values st) = Inl e"
      by (auto simp: index_window_def Let_def b'_def b_def p_def split: sum.splits if_splits)
    then have max: "y_aggregation s = Max" "count_value p x (weight (r_kind r)) (a_values st) = Inl e"
      using b(1) by (auto simp: aggregate_def b'_def pane_of_def split: WindowAggregation.splits sum.splits)
    with countedD(2) [OF st, of p x] show ?thesis by (auto simp: count_value_def Let_def split: if_splits option.splits)
  qed
qed

lemma index_windows_error:
  assumes "index_windows s r x ws st = Inl e" "counted s n v st" "distinct ws"
  shows "\<exists>p. fst p \<in> set ws \<and> snd p = key_text (r_key r) \<and>
    ((e = RetractionWithoutState \<and> n p + weight (r_kind r) < 0)
     \<or> (e = ValueWithoutState \<and> y_aggregation s = Max \<and> v p x + weight (r_kind r) < 0))"
  using assms
proof (induction ws arbitrary: st n v)
  case (Cons start ws)
  let ?k = "key_text (r_key r)" and ?w = "weight (r_kind r)"
  show ?case
  proof (cases "index_window s r x start st")
    case (Inl e')
    with Cons.prems(1) index_window_error [OF Inl Cons.prems(2)] show ?thesis
      by (intro exI [of _ "(start, ?k)"]) simp
  next
    case (Inr st1)
    have rest: "index_windows s r x ws st1 = Inl e" "distinct ws" using Inr Cons.prems by simp_all
    obtain p where p: "fst p \<in> set ws" "snd p = ?k"
      "(e = RetractionWithoutState \<and> bump (start, ?k) ?w n p + ?w < 0)
       \<or> (e = ValueWithoutState \<and> y_aggregation s = Max \<and> (v((start, ?k) := bump x ?w (v (start, ?k)))) p x + ?w < 0)"
      using Cons.IH [OF rest(1) index_window_counted [OF Inr Cons.prems(2)] rest(2)] by blast
    then have "p \<noteq> (start, ?k)" using Cons.prems(3) by auto
    with p show ?thesis by (intro exI [of _ p]) (auto simp: bump_def)
  qed
qed simp

text \<open>\<open>r\<close>, which comes after the records \<open>before\<close>, cannot be counted, and \<open>e\<close> says why.\<close>

definition uncountable :: "('v \<Rightarrow> f64 option) \<Rightarrow> WindowSchedule \<Rightarrow> 'v StreamRecord list \<Rightarrow> 'v StreamRecord \<Rightarrow> WindowError \<Rightarrow> bool" where
  "uncountable numeric s before r e \<longleftrightarrow> (case e of
     NotNumeric \<Rightarrow> y_aggregation s \<noteq> Count \<and> numeric (r_value r) = None
   | RetractionWithoutState \<Rightarrow> \<exists>p. in_pane s p r \<and> net_count s (before @ [r]) p < 0
   | ValueWithoutState \<Rightarrow> y_aggregation s = Max \<and>
       (\<exists>p. in_pane s p r \<and> net_value numeric s (before @ [r]) p (number_of numeric r) < 0))"

lemma index_record_returns:
  assumes "whole_schedule A W D s" "whole_time (r_event_time r)"
  shows "index_window_aggregate numeric s r st \<noteq> None"
proof -
  obtain T where T: "r_event_time r = num T" "\<bar>T\<bar> \<le> 2 ^ 50" using assms(2) by (auto simp: whole_time_def)
  with windows_found [OF assms(1) T(2)] show ?thesis by (auto simp: index_window_aggregate_def)
qed

lemma index_record_error:
  assumes s: "whole_schedule A W D s" and r: "whole_time (r_event_time r)"
    and st: "recomputed numeric s (window_from A D A) rs st"
    and run: "index_window_aggregate numeric s r st = Some (Inl e)"
  shows "uncountable numeric s rs r e"
proof -
  obtain T where T: "r_event_time r = num T" "\<bar>T\<bar> \<le> 2 ^ 50" using r by (auto simp: whole_time_def)
  obtain ws where ws: "window_starts s (num T) = Some ws" "distinct ws"
    "set ws = {num (A + k * D) | k. 0 \<le> k \<and> A + k * D \<le> T \<and> T < A + k * D + W}"
    using windows_found [OF s T(2)] by blast
  consider "e = NotNumeric" "y_aggregation s \<noteq> Count" "numeric (r_value r) = None"
    | "index_windows s r (number_of numeric r) ws st = Inl e"
    using run ws(1) by (auto simp: index_window_aggregate_def T number_of_def split: if_splits)
  then show ?thesis
  proof cases
    case 2
    have c: "counted s (held (window_from A D A) (net_count s rs)) (held_value (window_from A D A) (net_value numeric s rs)) st"
      using st by (simp add: recomputed_def)
    obtain p where p: "fst p \<in> set ws" "snd p = key_text (r_key r)"
      "(e = RetractionWithoutState \<and> held (window_from A D A) (net_count s rs) p + weight (r_kind r) < 0)
       \<or> (e = ValueWithoutState \<and> y_aggregation s = Max \<and>
          held_value (window_from A D A) (net_value numeric s rs) p (number_of numeric r) + weight (r_kind r) < 0)"
      using index_windows_error [OF 2 c ws(2)] by blast
    have "0 < D" using s by (simp add: whole_schedule_def)
    then have w: "window_from A D A (fst p)" using p(1) by (auto simp: ws(3) window_from_def)
    have "in_pane s p r" using starts_in_pane [OF s T ws(1) w] p(1,2) by simp
    with p(3) w show ?thesis
      by (auto simp: uncountable_def held_def held_value_def net_count_snoc net_value_snoc intro!: exI [of _ "fst p"] exI [of _ "snd p"])
  qed (auto simp: uncountable_def)
qed

text \<open>
  C14. Windows are counted exactly. For a schedule in whole numbers (up to \<open>2 ^ 50\<close>): when the records of a stream,
  with times in whole numbers up to \<open>2 ^ 50\<close>, are indexed one after the other, the accumulators that result are those of counting all records at once: a window
  and key has an accumulator exactly when the weights of its records do not add up to zero, it holds
  their sum, and under \<open>Max\<close> it holds the greatest number that is still counted, none when there is
  none; there are no other accumulators.
\<close>

theorem windows_counted_exactly:
  assumes s: "whole_schedule A W D s" and rs: "list_all (\<lambda>r. whole_time (r_event_time r)) rs"
    and run: "index_records numeric s rs no_windows = Some (Inr st)"
  shows "distinct (map pane_of (a_accumulators st)) \<and>
    (case get_by pane_of p (a_accumulators st) of
       None \<Rightarrow> window_from A D A (fst p) \<longrightarrow> net_count s rs p = 0
     | Some a \<Rightarrow> window_from A D A (fst p) \<and> 0 < net_count s rs p \<and> e_count a = net_count s rs p
         \<and> (y_aggregation s = Max \<longrightarrow> greatest_counted (net_value numeric s rs p) (e_max a)))"
proof -
  have "recomputed numeric s (window_from A D A) ([] @ rs) st"
    using recomputed_empty run by (rule index_records_recomputed [OF s rs])
  then have c: "counted s (held (window_from A D A) (net_count s rs)) (held_value (window_from A D A) (net_value numeric s rs)) st"
    by (simp add: recomputed_def)
  have "held_value (window_from A D A) (net_value numeric s rs) p = net_value numeric s rs p" if "window_from A D A (fst p)"
    using that by (simp add: held_value_def fun_eq_iff)
  with countedD(1) [OF c, of p] c show ?thesis
    by (auto simp: counted_def held_def accumulated_def split: option.splits if_splits)
qed

text \<open>
  C34. Why records are refused. For a schedule in whole numbers (up to \<open>2 ^ 50\<close>), indexing records with times in
  whole numbers up to \<open>2 ^ 50\<close> always returns. When it
  fails, it fails at the first record \<open>r\<close> that cannot be counted: its value is not a number under
  \<open>Sum\<close> or \<open>Max\<close>, or \<open>r\<close> retracts from a window more than the records before it have put there, or (under
  \<open>Max\<close>) a number that is not there.
\<close>

theorem window_error_cases:
  assumes s: "whole_schedule A W D s" and rs: "list_all (\<lambda>r. whole_time (r_event_time r)) rs"
  shows "index_records numeric s rs no_windows \<noteq> None \<and>
    (\<forall>e. index_records numeric s rs no_windows = Some (Inl e) \<longrightarrow>
       (\<exists>before r after. rs = before @ r # after \<and> uncountable numeric s before r e))"
proof -
  have "index_records numeric s ss st \<noteq> None \<and> (\<forall>e. index_records numeric s ss st = Some (Inl e) \<longrightarrow>
      (\<exists>before r after. ss = before @ r # after \<and> uncountable numeric s (old @ before) r e))"
    if "list_all (\<lambda>r. whole_time (r_event_time r)) ss" "recomputed numeric s (window_from A D A) old st" for ss old st
    using that
  proof (induction ss arbitrary: old st)
    case (Cons r ss)
    have D: "0 < D" using s by (simp add: whole_schedule_def)
    have r: "whole_time (r_event_time r)" using Cons.prems(1) by simp
    obtain res where Some: "index_window_aggregate numeric s r st = Some res"
      using index_record_returns [OF s r] by (metis option.exhaust)
    show ?case
    proof (cases res)
      case (Inl e)
      with Some index_record_error [OF s r Cons.prems(2)] have "uncountable numeric s (old @ []) r e" by simp
      with Some Inl show ?thesis by (auto intro!: exI [of _ "[]"])
    next
      case (Inr st1)
      have "recomputed numeric s (window_from A D A) (old @ [r]) st1"
        using Cons.prems Some Inr D by (intro index_record_recomputed [OF s]) auto
      from Cons.IH [OF _ this] Cons.prems(1) have rest: "index_records numeric s ss st1 \<noteq> None"
        "\<And>e. index_records numeric s ss st1 = Some (Inl e) \<Longrightarrow>
           (\<exists>before q after. ss = before @ q # after \<and> uncountable numeric s (old @ r # before) q e)" by auto
      have "\<exists>before q after. r # ss = before @ q # after \<and> uncountable numeric s (old @ before) q e"
        if "index_records numeric s ss st1 = Some (Inl e)" for e
        using rest(2) [OF that] by (metis append_Cons)
      with rest(1) Some Inr show ?thesis by simp
    qed
  qed simp
  from this [OF rs recomputed_empty] show ?thesis by simp
qed

section \<open>The changes\<close>

text \<open>What a reader of the operator's changes rebuilds: \<open>None\<close> when a change takes back a row that is
  not there or puts one where another is.\<close>

fun replay :: "change list \<Rightarrow> WindowAccumulator list \<Rightarrow> WindowAccumulator list option" where
  "replay [] rows = Some rows"
| "replay ((kind, t, a) # cs) rows =
     (if is_addition kind
      then (if get_by pane_of (pane_of a) rows = None then replay cs (put_by pane_of a rows) else None)
      else (if get_by pane_of (pane_of a) rows = Some a then replay cs (delete_by pane_of a rows) else None))"

lemma replay_append: "replay (cs @ ds) rows = Option.bind (replay cs rows) (replay ds)"
  by (induction cs rows rule: replay.induct) auto

lemma put_delete_by [simp]: "key a = key b \<Longrightarrow> put_by key a (delete_by key b rs) = put_by key a rs"
  by (simp add: put_by_def delete_by_def)

lemma delete_absent: "get_by key (key a) rs = None \<Longrightarrow> delete_by key a rs = rs"
  unfolding get_by_None delete_by_def filter_id_conv by (metis imageI)

lemma delete_by_cong: "key a = key b \<Longrightarrow> delete_by key a rs = delete_by key b rs"
  by (simp add: delete_by_def)

lemma index_window_replay:
  assumes "index_window s r x start st = Inr st'" "replay (a_changes st) [] = Some (a_accumulators st)"
  shows "replay (a_changes st') [] = Some (a_accumulators st')"
proof -
  let ?p = "(start, key_text (r_key r))"
  define b where "b = (case get_by pane_of ?p (a_accumulators st) of None \<Rightarrow> fresh_accumulator s start (r_key r) | Some a \<Rightarrow> a)"
  have b: "pane_of b = ?p"
    using get_by_Some [of pane_of ?p "a_accumulators st"] by (auto simp: b_def fresh_accumulator_def pane_of_def split: option.splits)
  obtain a cs where agg: "aggregate s x (weight (r_kind r)) (b\<lparr> e_count := e_count b + weight (r_kind r) \<rparr>) (a_values st) = Inr (a, cs)"
    using assms(1) by (auto simp: index_window_def Let_def b_def split: if_splits sum.splits)
  then have a: "pane_of a = ?p"
    using b by (auto simp: aggregate_def pane_of_def split: WindowAggregation.splits sum.splits)
  show ?thesis
    using assms agg a delete_absent [of pane_of a "a_accumulators st"] get_by_Some [of pane_of ?p "a_accumulators st"]
    by (auto simp: index_window_def Let_def b_def replay_append is_addition_def weight_def get_delete_by
        split: if_splits option.splits intro!: delete_by_cong)
qed

lemma index_windows_replay:
  "index_windows s r x ws st = Inr st' \<Longrightarrow> replay (a_changes st) [] = Some (a_accumulators st)
    \<Longrightarrow> replay (a_changes st') [] = Some (a_accumulators st')"
  by (induction ws arbitrary: st) (auto split: sum.splits dest: index_window_replay)

lemma index_records_replay:
  "index_records numeric s rs st = Some (Inr st') \<Longrightarrow> replay (a_changes st) [] = Some (a_accumulators st)
    \<Longrightarrow> replay (a_changes st') [] = Some (a_accumulators st')"
proof (induction rs arbitrary: st)
  case (Cons r rs)
  then obtain st1 where st1: "index_window_aggregate numeric s r st = Some (Inr st1)" "index_records numeric s rs st1 = Some (Inr st')"
    by (auto split: option.splits sum.splits)
  have "replay (a_changes st1) [] = Some (a_accumulators st1)"
    using st1(1) Cons.prems(2) by (auto simp: index_window_aggregate_def split: if_splits intro: index_windows_replay)
  with Cons.IH st1(2) show ?case by blast
qed simp

text \<open>
  C19. The changes tell the whole story. The changes that indexing any records reports replay, from nothing, to
  the accumulators that are kept: every row taken back is the row that is there, no row is put twice
  and the result is the same table (for any schedule and times, fractions included).
\<close>

theorem changes_replay:
  assumes "index_records numeric s rs no_windows = Some (Inr st)"
  shows "replay (a_changes st) [] = Some (a_accumulators st)"
  using assms by (rule index_records_replay) (simp add: no_windows_def)

section \<open>Examples\<close>

definition sample_windows :: WindowSchedule where
  "sample_windows = \<lparr> y_window_size = num 2, y_slide = num 1, y_start_at = num 0, y_next_window_start = num 0,
     y_emit_empty_windows = False, y_aggregation = Max, y_windows_fired = 0 \<rparr>"

lemma sample_windows_whole: "whole_schedule 0 2 1 sample_windows"
  by (simp add: whole_schedule_def sample_windows_def effective_slide_def feq_def)

definition sample_at :: "int \<Rightarrow> int \<Rightarrow> ChangeKind \<Rightarrow> int StreamRecord" where
  "sample_at t x kind = \<lparr> r_partition = 0, r_offset = 0, r_sequence = 0, r_event_time = num t, r_key = None,
     r_value = x, r_kind = kind \<rparr>"

lemma sample_starts: "window_starts sample_windows (num 3) = Some [num 3, num 2]"
  using window_starts_run(1) [OF sample_windows_whole, of 3] by (simp add: nth_start_def numeral_nat)

definition sample_numeric :: "int \<Rightarrow> f64 option" where
  "sample_numeric x = Some (num x)"

definition sample_window :: "int \<Rightarrow> int \<Rightarrow> int \<Rightarrow> WindowAccumulator" where
  "sample_window start n m = \<lparr> e_key = None, e_window_start = num start, e_window_end = num (start + 2), e_count = n,
     e_sum = num 0, e_max = Some (num m) \<rparr>"

lemma sample_run:
  "index_records sample_numeric sample_windows [sample_at 3 5 Insert, sample_at 3 7 Insert, sample_at 3 7 Delete] no_windows
    = Some (Inr \<lparr> a_accumulators = [sample_window 3 1 5, sample_window 2 1 5],
        a_values = [\<lparr> c_pane = (num 3, []), c_value = num 5, c_count = 1 \<rparr>, \<lparr> c_pane = (num 2, []), c_value = num 5, c_count = 1 \<rparr>],
        a_changes = [(Insert, num 3, sample_window 3 1 5), (Insert, num 3, sample_window 2 1 5),
          (UpdateBefore, num 3, sample_window 3 1 5), (UpdateAfter, num 3, sample_window 3 2 7),
          (UpdateBefore, num 3, sample_window 2 1 5), (UpdateAfter, num 3, sample_window 2 2 7),
          (UpdateBefore, num 3, sample_window 3 2 7), (UpdateAfter, num 3, sample_window 3 1 5),
          (UpdateBefore, num 3, sample_window 2 2 7), (UpdateAfter, num 3, sample_window 2 1 5)] \<rparr>)"
proof -
  have fields: "y_aggregation sample_windows = Max" "y_start_at sample_windows = num 0" "y_window_size sample_windows = num 2"
    by (simp_all add: sample_windows_def)
  show ?thesis
    by (simp add: index_window_aggregate_def sample_at_def sample_starts fields sample_numeric_def index_window_def
        no_windows_def get_by_def put_by_def delete_by_def aggregate_def count_value_def fresh_accumulator_def pane_of_def
        value_key_def key_text_def weight_def Let_def greatest_value_def reduce_def greater_value_def total_le_def fadd_num
        sample_window_def)
qed

lemma windows_of_record_witness:
  "window_starts sample_windows (num 3) = Some [num 3, num 2]
    \<and> {num 3, num 2} = {num (0 + k * 1) | k. 0 \<le> k \<and> 0 + k * 1 \<le> 3 \<and> 3 < 0 + k * 1 + 2}"
  using windows_of_record [OF sample_windows_whole, of 3] unfolding sample_starts by simp

definition sample_records :: "int StreamRecord list" where
  "sample_records = [sample_at 3 5 Insert, sample_at 3 7 Insert, sample_at 3 7 Delete]"

lemma windows_counted_exactly_witness:
  "net_count sample_windows sample_records (num 3, []) = 1
    \<and> greatest_counted (net_value sample_numeric sample_windows sample_records (num 3, [])) (Some (num 5))"
proof -
  have times: "list_all (\<lambda>r. whole_time (r_event_time r)) sample_records"
    by (simp add: sample_records_def sample_at_def whole_time_def)
  have max: "y_aggregation sample_windows = Max" by (simp add: sample_windows_def)
  from windows_counted_exactly [OF sample_windows_whole times, of sample_numeric, unfolded sample_records_def, OF sample_run, of "(num 3, [])"]
  show ?thesis by (simp add: get_by_def pane_of_def sample_window_def key_text_def max flip: sample_records_def)
qed

lemma window_error_cases_witness:
  "index_records sample_numeric sample_windows [sample_at 3 5 Delete] no_windows = Some (Inl RetractionWithoutState)
    \<and> (\<exists>before r after. [sample_at 3 5 Delete] = before @ r # after
        \<and> uncountable sample_numeric sample_windows before r RetractionWithoutState)"
proof -
  have times: "list_all (\<lambda>r. whole_time (r_event_time r)) [sample_at 3 5 Delete]"
    by (simp add: sample_at_def whole_time_def)
  have run: "index_records sample_numeric sample_windows [sample_at 3 5 Delete] no_windows = Some (Inl RetractionWithoutState)"
    using sample_starts
    by (simp add: index_window_aggregate_def sample_at_def sample_numeric_def sample_windows_def index_window_def
        no_windows_def get_by_def fresh_accumulator_def key_text_def weight_def Let_def)
  with window_error_cases [OF sample_windows_whole times, of sample_numeric] show ?thesis by blast
qed

lemma changes_replay_witness:
  "\<exists>st. index_records sample_numeric sample_windows [sample_at 3 5 Insert, sample_at 3 7 Insert, sample_at 3 7 Delete] no_windows
      = Some (Inr st) \<and> length (a_changes st) = 10
    \<and> replay (a_changes st) [] = Some [sample_window 3 1 5, sample_window 2 1 5]"
  using changes_replay [OF sample_run] sample_run by simp

end
