(* ===== verification/WindowsFinal.thy ===== *)
theory WindowsFinal
  imports WindowsCorrect
begin

text \<open>
  Windows and their stream: a window that has fired is final, and no window is forgotten, in every
  state that the server reaches by requests in whole numbers. What is lost nevertheless is shown at
  the end: windows due when the stream is sealed are fired a hundred at a time, and after the last
  change of the stream nothing fires the rest.
\<close>

section \<open>Times have a limit\<close>

text \<open>All times of the stream are at most \<open>2 ^ 50\<close>.\<close>

definition limited :: "f64 \<Rightarrow> bool" where
  "limited x \<longleftrightarrow> fle x (num (2 ^ 50))"

definition all_limited :: "f64 option \<Rightarrow> bool" where
  "all_limited w \<longleftrightarrow> (\<forall>x. w = Some x \<longrightarrow> limited x)"

lemma all_limited_simps [simp]: "all_limited None" "all_limited (Some x) \<longleftrightarrow> limited x"
  by (simp_all add: all_limited_def)

lemma limited_max: "limited a \<Longrightarrow> limited b \<Longrightarrow> limited (rs_max a b)"
  by (auto simp: rs_max_def)

lemma limited_min: "limited a \<Longrightarrow> limited b \<Longrightarrow> limited (rs_min a b)"
  by (auto simp: rs_min_def)

lemma limited_raise: "all_limited w \<Longrightarrow> limited x \<Longrightarrow> limited (raise_to w x)"
  by (cases w) (auto simp: raise_to_def intro: limited_max)

definition limited_part :: "PartitionState \<Rightarrow> bool" where
  "limited_part p \<longleftrightarrow> all_limited (q_watermark p) \<and> all_limited (q_max_event_time p)"

definition limited_stream :: "stream \<Rightarrow> bool" where
  "limited_stream st \<longleftrightarrow> all_limited (z_watermark (fst st)) \<and> all_limited (z_max_event_time (fst st))
     \<and> list_all limited_part (snd st)"

lemma limited_mark_idle [simp]: "limited_part (mark_idle config now p) = limited_part p"
  by (simp add: limited_part_def)

lemma reduce_closed:
  assumes "reduce f xs = Some m" "\<forall>x \<in> set xs. P x" "\<And>x y. P x \<Longrightarrow> P y \<Longrightarrow> P (f x y)"
  shows "P m"
  using assms by (auto simp: reduce_def split: list.splits intro: foldl_closed [where P = P])

lemma refresh_limited:
  assumes "limited_stream (s, ps)"
  shows "limited_stream (refresh_stream config now (s, ps))"
proof -
  let ?ps = "map (mark_idle config now) ps"
  have ps: "list_all limited_part ?ps" using assms by (simp add: limited_stream_def list_all_iff)
  have "limited m" if "least_active ?ps = Some m" for m
  proof (rule reduce_closed [where P = limited and f = rs_min])
    show "reduce rs_min (List.map_filter q_watermark (active_partitions ?ps)) = Some m"
      using that by (auto simp: least_active_def Let_def split: if_splits)
    show "\<forall>x \<in> set (List.map_filter q_watermark (active_partitions ?ps)). limited x"
      using ps by (auto simp: set_map_filter active_partitions_def list_all_iff limited_part_def)
    show "limited (rs_min a b)" if "limited a" "limited b" for a b using that by (rule limited_min)
  qed
  moreover have "limited m" if "reduce rs_max (List.map_filter q_max_event_time ?ps) = Some m" for m
    using that
  proof (rule reduce_closed [where P = limited])
    show "\<forall>x \<in> set (List.map_filter q_max_event_time ?ps). limited x"
      using ps by (auto simp: set_map_filter list_all_iff limited_part_def)
    show "limited (rs_max a b)" if "limited a" "limited b" for a b using that by (rule limited_max)
  qed
  ultimately show ?thesis
    using assms ps limited_raise
    by (auto simp: limited_stream_def refresh_stream_def refresh_def Let_def all_limited_def split: option.splits)
qed

lemma update_limited: "limited_stream (s, ps) \<Longrightarrow> limited_part p \<Longrightarrow> limited_stream (refresh_stream config now (s, ps[k := p]))"
  by (intro refresh_limited) (auto simp: limited_stream_def list_all_iff dest!: subsetD [OF set_update_subset_insert])

fun limited_request :: "Request \<Rightarrow> bool" where
  "limited_request (Append k t now) = (valid64 t \<and> limited t)"
| "limited_request (Advance k w now) = (valid64 w \<and> limited w)"
| "limited_request (Seal k now) = True"
| "limited_request (Tick now) = True"

lemma limited_request_ok: "limited_request e \<Longrightarrow> request_ok e"
  by (cases e) auto

lemma observe_limited:
  assumes "observe t delay generate now p = Inr (k, p')" "limited_part p" "valid64 t" "limited t" "non_negative delay"
  shows "limited_part p'"
proof -
  have "limited (fsub t delay)" if "finite64 t"
  proof -
    have "t \<noteq> NaN" using that by auto
    then show ?thesis
      using fsub_non_negative [OF assms(3) _ assms(5)] assms(4) fle_trans unfolding limited_def by blast
  qed
  with assms show ?thesis
    by (auto simp: observe_def limited_part_def intro: limited_raise split: if_splits)
qed

lemma step_limited:
  assumes config: "validate_config config" and st: "limited_stream (s, ps)" "sane_stream config (s, ps)"
    and e: "limited_request e"
  shows "limited_stream (stream_step config (s, ps) e)"
proof -
  have part: "limited_part (ps ! k)" if "k < g_partitions config" for k
    using st that by (auto simp: limited_stream_def sane_stream_def list_all_length)
  show ?thesis
  proof (cases e)
    case (Append k t now)
    have "limited_stream st'" if "append_record config k t now (s, ps) = Inr (d, st')" for d st'
      using that
    proof (rule append_record_cases)
      fix offset p
      assume k: "k < g_partitions config" and st': "st' = refresh_stream config now (s, ps[k := p])"
        and p: "observe t (watermark_delay config) (g_watermark_mode config \<noteq> SourceManaged) now (ps ! k) = Inr (offset, p)"
      have "limited_part p"
        using observe_limited [OF p part [OF k]] e Append valid_config_delay_non_negative [OF config] by simp
      with update_limited [OF st(1)] show ?thesis by (simp add: st')
    qed
    then have "limited_stream (committed (s, ps) (map_sum (\<lambda>r. r) snd (append_record config k t now (s, ps))))"
      by (intro committed_cases [where P = limited_stream, OF st(1)]) (auto simp: map_sum_def split: sum.splits)
    with Append show ?thesis by simp
  next
    case (Advance k w now)
    have "limited_stream st'" if "advance_stream config k w now (s, ps) = Inr st'" for st'
      using that
    proof (rule advance_stream_cases)
      fix p
      assume k: "k < g_partitions config" and st': "st' = refresh_stream config now (s, ps[k := p])"
        and p: "advance_watermark w now (ps ! k) = Inr p"
      have "limited_part p" using p part [OF k] e Advance by (auto simp: advance_watermark_def limited_part_def split: if_splits)
      with update_limited [OF st(1)] show ?thesis by (simp add: st')
    qed
    with Advance show ?thesis using committed_cases [where P = limited_stream, OF st(1)] by simp
  next
    case (Seal k now)
    have "limited_stream st'" if "seal_partition config k now (s, ps) = Inr st'" for st'
      using that part update_limited [OF st(1)] by (auto simp: seal_partition_def limited_part_def split: if_splits)
    with Seal show ?thesis using committed_cases [where P = limited_stream, OF st(1)] by simp
  qed (simp add: refresh_limited [OF st(1)])
qed

text \<open>What a step leaves is sound, no less finalized and no earlier.\<close>

definition sound_stream :: "StreamConfig \<Rightarrow> stream \<Rightarrow> bool" where
  "sound_stream config st \<longleftrightarrow> gated config st \<and> limited_stream st"

definition further :: "StreamState \<Rightarrow> StreamState \<Rightarrow> bool" where
  "further s t \<longleftrightarrow> opt_le (z_watermark s) (z_watermark t) \<and> (z_finalized s \<longrightarrow> z_finalized t)"

lemma step_sound:
  assumes config: "validate_config config" and st: "sound_stream config st" and e: "limited_request e"
  shows "sound_stream config (stream_step config st e) \<and> further (fst st) (fst (stream_step config st e))"
proof -
  obtain s ps where s: "st = (s, ps)" by fastforce
  have g: "gated config (s, ps)" "limited_stream (s, ps)" "sane_stream config (s, ps)"
    using st by (auto simp: s sound_stream_def gated_def)
  have "gated_after config (s, ps) (stream_step config (s, ps) e)"
    using stream_step_gated [OF config g(1)] limited_request_ok [OF e] by blast
  moreover have "opt_le (z_watermark s) (z_watermark (fst (stream_step config (s, ps) e)))"
    using stream_step_marks [OF config g(3), of e] by (auto simp: marks_le_def marks_def split: prod.splits)
  ultimately show ?thesis using step_limited [OF config g(2,3) e] g(1)
    by (auto simp: s sound_stream_def further_def gated_after_def gated_def split: prod.splits)
qed

section \<open>Firing one window\<close>

definition fired_of :: "StreamState \<Rightarrow> WindowAccumulator \<Rightarrow> FiredWindow" where
  "fired_of state a = \<lparr> f_window = a, f_watermark = z_watermark state, f_finalized = z_finalized state \<rparr>"

lemma f_window_fired_of [simp]: "f_window (fired_of state a) = a"
  by (simp add: fired_of_def)

lemma start_window_workflow_new:
  "workflow_id a \<notin> workflow_id ` f_window ` set fired \<Longrightarrow> start_window_workflow state a fired = fired @ [fired_of state a]"
  by (simp add: start_window_workflow_def fired_of_def)

text \<open>Accumulators whose workflows are new are all handed over and deleted, with their values.\<close>

lemma fire_accumulators:
  assumes "distinct (map workflow_id (map f_window (o_fired g) @ as))"
  shows "foldl (fire_accumulator state) g as =
    \<lparr> o_schedule = (o_schedule g)\<lparr> y_windows_fired := y_windows_fired (o_schedule g) + of_nat (length as) \<rparr>,
      o_state = (o_state g)\<lparr> a_accumulators := filter (\<lambda>a. pane_of a \<notin> pane_of ` set as) (a_accumulators (o_state g)),
        a_values := filter (\<lambda>c. c_pane c \<notin> pane_of ` set as) (a_values (o_state g)) \<rparr>,
      o_fired = o_fired g @ map (fired_of state) as \<rparr>"
  using assms
proof (induction as arbitrary: g)
  case (Cons a as)
  have new: "workflow_id a \<notin> workflow_id ` f_window ` set (o_fired g)" using Cons.prems by (auto simp: image_image)
  have "distinct (map workflow_id (map f_window (o_fired (fire_accumulator state g a)) @ as))"
    using Cons.prems by (simp add: fire_accumulator_def start_window_workflow_new [OF new])
  from Cons.IH [OF this] show ?case
    by (simp add: fire_accumulator_def start_window_workflow_new [OF new] delete_by_def conj_commute)
qed simp

text \<open>A window that counts nothing counts no number: its numbers are counted at least zero times each.\<close>

lemma net_weight_groups:
  "finite X \<Longrightarrow> g ` set rs \<subseteq> X \<Longrightarrow> net_weight (filter P rs) = (\<Sum>x\<in>X. net_weight (filter (\<lambda>r. P r \<and> g r = x) rs))"
proof (induction rs)
  case (Cons r rs)
  have "(\<Sum>x\<in>X. net_weight (filter (\<lambda>r. P r \<and> g r = x) (r # rs)))
      = (\<Sum>x\<in>X. (if g r = x then if P r then weight (r_kind r) else 0 else 0) + net_weight (filter (\<lambda>r. P r \<and> g r = x) rs))"
    by (intro sum.cong) auto
  also have "\<dots> = (if P r then weight (r_kind r) else 0) + net_weight (filter P rs)"
    using Cons by (simp add: sum.distrib)
  finally show ?case by simp
qed simp

lemma net_count_zero:
  assumes "\<And>x. 0 \<le> net_value numeric s rs p x" "net_count s rs p = 0"
  shows "net_value numeric s rs p x = 0"
proof (cases "x \<in> number_of numeric ` set rs")
  case True
  have "(\<Sum>x\<in>number_of numeric ` set rs. net_value numeric s rs p x) = 0"
    using assms(2) net_weight_groups [of "number_of numeric ` set rs" "number_of numeric" rs "in_pane s p"]
    by (simp add: net_count_def net_value_def)
  then have "\<forall>x \<in> number_of numeric ` set rs. net_value numeric s rs p x = 0"
    using assms(1) by (subst (asm) sum_nonneg_eq_0_iff) auto
  with True show ?thesis by blast
next
  case False
  then have "filter (\<lambda>r. in_pane s p r \<and> number_of numeric r = x) rs = []" by (auto simp: filter_empty_conv)
  then show ?thesis by (simp add: net_value_def)
qed

section \<open>What every request keeps\<close>

text \<open>What does not change in a schedule.\<close>

definition same_windows :: "WindowSchedule \<Rightarrow> WindowSchedule \<Rightarrow> bool" where
  "same_windows s s' \<longleftrightarrow> y_window_size s' = y_window_size s \<and> y_slide s' = y_slide s \<and> y_start_at s' = y_start_at s
     \<and> y_aggregation s' = y_aggregation s"

lemma same_windows_whole: "same_windows s s' \<Longrightarrow> whole_schedule A W D s' = whole_schedule A W D s"
  by (simp add: same_windows_def whole_schedule_def effective_slide_def)

lemma same_windows_net: "same_windows s s' \<Longrightarrow> net_count s' = net_count s \<and> net_value numeric s' = net_value numeric s"
  by (simp add: same_windows_def net_count_def [abs_def] net_value_def [abs_def] in_pane_def [abs_def])

lemma same_windows_recomputed: "same_windows s s' \<Longrightarrow> recomputed numeric s' P rs = recomputed numeric s P rs"
proof -
  assume same: "same_windows s s'"
  then have acc: "accumulated s' = accumulated s" and agg: "y_aggregation s' = y_aggregation s"
    by (simp_all add: accumulated_def [abs_def] same_windows_def)
  have "counted s' = counted s" unfolding counted_def [abs_def] acc agg ..
  then show ?thesis by (simp add: recomputed_def same_windows_net [OF same])
qed

definition whole_setup :: "int \<Rightarrow> int \<Rightarrow> int \<Rightarrow> int \<Rightarrow> 'v WindowSetup \<Rightarrow> bool" where
  "whole_setup A W D L setup \<longleftrightarrow> whole_schedule A W D (h_schedule setup) \<and> validate_config (h_config setup)
     \<and> g_allowed_lateness (h_config setup) = num L \<and> 0 \<le> L \<and> L \<le> 2 ^ 50
     \<and> scans (h_scan setup) \<and> scans (h_scan_records setup)"

text \<open>What a fired window reports is what all records up to now give.\<close>

definition final_window :: "'v WindowSetup \<Rightarrow> 'v StreamRecord list \<Rightarrow> WindowAccumulator \<Rightarrow> bool" where
  "final_window setup rs a \<longleftrightarrow> e_count a = net_count (h_schedule setup) rs (pane_of a)
     \<and> (y_aggregation (h_schedule setup) = Max \<longrightarrow>
          greatest_counted (net_value (h_numeric setup) (h_schedule setup) rs (pane_of a)) (e_max a))"

text \<open>The first \<open>m\<close> windows have fired: the stream has passed the last of them.\<close>

definition passed :: "int \<Rightarrow> StreamState \<Rightarrow> bool" where
  "passed E state \<longleftrightarrow> z_finalized state \<or> (\<exists>x. z_watermark state = Some x \<and> fle (num E) x)"

definition fired_after :: "int \<Rightarrow> FiredWindow \<Rightarrow> bool" where
  "fired_after E f \<longleftrightarrow> f_finalized f \<or> (\<exists>x. f_watermark f = Some x \<and> fle (num E) x)"

lemma fired_after_passed: "passed E state \<Longrightarrow> fired_after E (fired_of state a)"
  by (simp add: passed_def fired_after_def fired_of_def)

definition windows_at :: "int \<Rightarrow> int \<Rightarrow> int \<Rightarrow> int \<Rightarrow> 'v WindowSetup \<Rightarrow> StreamState \<Rightarrow> 'v StreamRecord list \<Rightarrow> int \<Rightarrow> Windowing \<Rightarrow> bool" where
  "windows_at A W D L setup state rs m g \<longleftrightarrow> same_windows (h_schedule setup) (o_schedule g)
     \<and> 0 \<le> m \<and> y_next_window_start (o_schedule g) = num (A + m * D) \<and> A + m * D \<le> 2 ^ 50 + D
     \<and> (0 < m \<longrightarrow> passed (A + (m - 1) * D + W + L) state)
     \<and> recomputed (h_numeric setup) (h_schedule setup) (window_from A D (A + m * D)) rs (o_state g)
     \<and> (\<forall>f \<in> set (o_fired g). (\<exists>k. 0 \<le> k \<and> k < m \<and> e_window_start (f_window f) = num (A + k * D)
         \<and> fired_after (A + k * D + W + L) f) \<and> final_window setup rs (f_window f))
     \<and> distinct (map (\<lambda>f. pane_of (f_window f)) (o_fired g))
     \<and> (\<forall>p. window_from A D A (fst p) \<and> \<not> window_from A D (A + m * D) (fst p) \<and> net_count (h_schedule setup) rs p \<noteq> 0 \<longrightarrow>
          p \<in> (\<lambda>f. pane_of (f_window f)) ` set (o_fired g))"

lemma passed_further: "passed E s \<Longrightarrow> further s t \<Longrightarrow> passed E t"
  using fle_trans by (auto simp: passed_def further_def opt_le_def split: option.splits)

lemma windows_at_further: "windows_at A W D L setup s rs m g \<Longrightarrow> further s t \<Longrightarrow> windows_at A W D L setup t rs m g"
  using passed_further by (auto simp: windows_at_def)

lemma window_from_iff: "0 < D \<Longrightarrow> window_from A D (A + m * D) w \<longleftrightarrow> (\<exists>k \<ge> 0. w = num (A + k * D) \<and> m \<le> k)"
  by (simp add: window_from_def)

lemma window_from_next:
  assumes "0 \<le> m" "0 < D"
  shows "window_from A D (A + m * D) w \<longleftrightarrow> w = num (A + m * D) \<or> window_from A D (A + (m + 1) * D) w"
    and "\<not> window_from A D (A + (m + 1) * D) (num (A + m * D))"
proof -
  show "\<not> window_from A D (A + (m + 1) * D) (num (A + m * D))"
    using assms(2) by (simp add: window_from_iff)
  show "window_from A D (A + m * D) w \<longleftrightarrow> w = num (A + m * D) \<or> window_from A D (A + (m + 1) * D) w"
    unfolding window_from_iff [OF assms(2)]
  proof (intro iffI)
    assume "\<exists>k \<ge> 0. w = num (A + k * D) \<and> m \<le> k"
    then obtain k where k: "0 \<le> k" "w = num (A + k * D)" "m \<le> k" by blast
    show "w = num (A + m * D) \<or> (\<exists>k \<ge> 0. w = num (A + k * D) \<and> m + 1 \<le> k)"
      using k by (cases "k = m") (auto intro!: exI [of _ k])
  next
    assume "w = num (A + m * D) \<or> (\<exists>k \<ge> 0. w = num (A + k * D) \<and> m + 1 \<le> k)"
    then obtain k where "w = num (A + k * D)" "0 \<le> k" "m \<le> k" using assms(1) by fastforce
    then show "\<exists>k \<ge> 0. w = num (A + k * D) \<and> m \<le> k" by blast
  qed
qed

text \<open>Without the accumulators and values of the window, the rest is what the later windows hold.\<close>

lemma recomputed_next:
  assumes D: "0 < D" and m: "0 \<le> m"
    and st: "recomputed numeric s (window_from A D (A + m * D)) rs st"
    and as: "set as = {a \<in> set (a_accumulators st). e_window_start a = num (A + m * D)}"
  shows "recomputed numeric s (window_from A D (A + (m + 1) * D)) rs
    (st\<lparr> a_accumulators := filter (\<lambda>a. pane_of a \<notin> pane_of ` set as) (a_accumulators st),
         a_values := filter (\<lambda>c. c_pane c \<notin> pane_of ` set as) (a_values st) \<rparr>)"
proof -
  let ?P = "window_from A D (A + m * D)" and ?Q = "window_from A D (A + (m + 1) * D)" and ?X = "pane_of ` set as"
  let ?n = "held ?P (net_count s rs)" and ?v = "held_value ?P (net_value numeric s rs)"
  let ?n' = "held ?Q (net_count s rs)" and ?v' = "held_value ?Q (net_value numeric s rs)"
  have c: "counted s ?n ?v st" using st by (simp add: recomputed_def)
  note PQ = window_from_next [OF m D, of A]
  have later: "?n' p = ?n p \<and> ?v' p = ?v p" if "fst p \<noteq> num (A + m * D)" for p
    using that PQ(1) [of "fst p"] by (simp add: held_def held_value_def fun_eq_iff)
  have now: "?n' p = 0 \<and> ?v' p x = 0" if "fst p = num (A + m * D)" for p x
    using PQ(2) by (simp add: held_def held_value_def that)
  have X: "p \<in> ?X \<longleftrightarrow> fst p = num (A + m * D) \<and> get_by pane_of p (a_accumulators st) \<noteq> None" for p
    unfolding as get_by_None by (auto simp: pane_of_def image_iff) metis
  have accs: "case get_by pane_of p (filter (\<lambda>a. pane_of a \<notin> ?X) (a_accumulators st)) of
      None \<Rightarrow> ?n' p = 0 | Some a \<Rightarrow> 0 < ?n' p \<and> accumulated s ?n' ?v' p a" for p
  proof (cases "fst p = num (A + m * D)")
    case True
    with now X [of p] show ?thesis by (simp add: get_filter_by [of _ _ "\<lambda>q. q \<notin> ?X"] split: option.splits)
  next
    case False
    with X [of p] have "p \<notin> ?X" by blast
    then have "get_by pane_of p (filter (\<lambda>a. pane_of a \<notin> ?X) (a_accumulators st)) = get_by pane_of p (a_accumulators st)"
      by (simp add: get_filter_by [of _ _ "\<lambda>q. q \<notin> ?X"])
    with countedD(1) [OF c, of p] later [OF False] show ?thesis by (simp add: accumulated_def split: option.splits)
  qed
  have vals: "case get_by value_key (p, x) (filter (\<lambda>c. c_pane c \<notin> ?X) (a_values st)) of
      None \<Rightarrow> ?v' p x = 0 | Some c \<Rightarrow> 0 < ?v' p x \<and> c_count c = ?v' p x" if max: "y_aggregation s = Max" for p x
  proof -
    have get: "get_by value_key (p, x) (filter (\<lambda>c. c_pane c \<notin> ?X) (a_values st))
        = (if p \<notin> ?X then get_by value_key (p, x) (a_values st) else None)"
      using get_filter_by [of value_key "(p, x)" "\<lambda>k. fst k \<notin> ?X" "a_values st"] by (simp add: value_key_def)
    have old: "case get_by value_key (p, y) (a_values st) of None \<Rightarrow> ?v p y = 0 | Some c \<Rightarrow> 0 < ?v p y \<and> c_count c = ?v p y" for y
      using countedD(2) [OF c max] .
    show ?thesis
    proof (cases "fst p = num (A + m * D)")
      case True
      have P: "?P (fst p)" using PQ(1) [of "fst p"] True by blast
      have "?v p x = 0" if "p \<notin> ?X"
      proof -
        have "get_by pane_of p (a_accumulators st) = None" using that X [of p] True by blast
        with countedD(1) [OF c, of p] P have "net_count s rs p = 0" by (simp add: held_def)
        moreover have "0 \<le> net_value numeric s rs p y" for y
          using old [of y] P by (auto simp: held_value_def split: option.splits)
        ultimately have "net_value numeric s rs p x = 0" by (intro net_count_zero)
        then show ?thesis by (simp add: held_value_def)
      qed
      with get old [of x] now [OF True, of x] show ?thesis by (auto split: option.splits)
    next
      case False
      with X [of p] have "p \<notin> ?X" by blast
      with get old [of x] later [OF False] show ?thesis by (simp split: option.splits)
    qed
  qed
  have "distinct (map pane_of (a_accumulators st))" "distinct (map value_key (a_values st))"
    using c by (auto simp: counted_def)
  then have dist: "distinct (map pane_of (filter (\<lambda>a. pane_of a \<notin> ?X) (a_accumulators st)))"
    "distinct (map value_key (filter (\<lambda>c. c_pane c \<notin> ?X) (a_values st)))"
    by (simp_all only: distinct_map_filter)
  from dist accs vals show ?thesis by (simp add: recomputed_def counted_def)
qed

text \<open>A window that is due has been passed by the stream, and is not beyond the limit of times.\<close>

lemma due_passed:
  assumes w: "whole_setup A W D L setup" and s: "same_windows (h_schedule setup) s"
    and nxt: "0 \<le> m" "y_next_window_start s = num (A + m * D)" "A + m * D \<le> 2 ^ 50 + D"
    and state: "all_limited (z_watermark state)" "all_limited (z_max_event_time state)"
    and due: "window_due (h_config setup) state s"
  shows "passed (A + m * D + W + L) state \<and> A + m * D \<le> 2 ^ 50"
proof (cases "z_finalized state")
  case True
  with due nxt(2) state(2) show ?thesis
    by (auto simp: window_due_def passed_def limited_def split: option.splits dest: fle_trans)
next
  case False
  have whole: "whole_schedule A W D (h_schedule setup)" and L: "g_allowed_lateness (h_config setup) = num L" "0 \<le> L" "L \<le> 2 ^ 50"
    using w by (auto simp: whole_setup_def)
  have size: "y_window_size s = num W" "\<bar>A\<bar> \<le> 2 ^ 50" "0 < D" "D \<le> W" "W \<le> 2 ^ 50"
    using whole s by (auto simp: whole_schedule_def same_windows_def)
  have mD: "0 \<le> m * D" using nxt(1) size(3) by simp
  have "A + m * D \<le> 2 ^ 51" using nxt(3) size(4,5) by simp
  from whole_adds(1) [OF whole nxt(1) this] have add: "fadd (num (A + m * D)) (num W) = num (A + m * D + W)" .
  have "\<bar>A + m * D + W + L\<bar> \<le> 2 ^ 53" using nxt(3) size L mD by simp
  then have add': "fadd (num (A + m * D + W)) (num L) = num (A + m * D + W + L)" by (rule fadd_num)
  obtain x where x: "z_watermark state = Some x" "fle (num (A + m * D + W + L)) x"
    using due False by (auto simp: window_due_def nxt(2) size(1) L(1) add add' split: option.splits)
  with state(1) have "A + m * D + W + L \<le> 2 ^ 50" using fle_trans [of "num (A + m * D + W + L)" x "num (2 ^ 50)"]
    by (simp add: limited_def)
  with x size L show ?thesis by (auto simp: passed_def)
qed

lemma distinct_workflow_ids: "distinct (map pane_of as) \<Longrightarrow> distinct (map workflow_id as)"
  by (induction as) (auto simp: workflow_id_def pane_of_def)

text \<open>Firing one window hands over all it holds.\<close>

lemma fire_window_at:
  assumes w: "whole_setup A W D L setup" and g: "windows_at A W D L setup state rs m g"
    and state: "all_limited (z_watermark state)" "all_limited (z_max_event_time state)"
    and due: "window_due (h_config setup) state (o_schedule g)"
  shows "windows_at A W D L setup state rs (m + 1) (fire_window (h_scan setup) state g)"
proof -
  let ?s = "o_schedule g" and ?N = "num (A + m * D)" and ?h = "h_schedule setup"
  let ?P = "window_from A D (A + m * D)" and ?Q = "window_from A D (A + (m + 1) * D)"
  have same: "same_windows ?h ?s" and m: "0 \<le> m" and nxt: "y_next_window_start ?s = ?N" "A + m * D \<le> 2 ^ 50 + D"
    and rec: "recomputed (h_numeric setup) ?h ?P rs (o_state g)"
    and old: "\<forall>f \<in> set (o_fired g). (\<exists>k. 0 \<le> k \<and> k < m \<and> e_window_start (f_window f) = num (A + k * D)
         \<and> fired_after (A + k * D + W + L) f) \<and> final_window setup rs (f_window f)"
    and dist: "distinct (map (\<lambda>f. pane_of (f_window f)) (o_fired g))"
    and all: "\<And>p. window_from A D A (fst p) \<Longrightarrow> \<not> ?P (fst p) \<Longrightarrow> net_count ?h rs p \<noteq> 0 \<Longrightarrow>
      p \<in> (\<lambda>f. pane_of (f_window f)) ` set (o_fired g)"
    using g by (auto simp: windows_at_def)
  have whole: "whole_schedule A W D ?h" and D: "0 < D" and L: "0 \<le> L"
    using w by (auto simp: whole_setup_def whole_schedule_def)
  have past: "passed (A + m * D + W + L) state" "A + m * D \<le> 2 ^ 50"
    using due_passed [OF w same m nxt(1,2) state due] by auto
  note PQ = window_from_next [OF m D, of A]
  have c: "counted ?h (held ?P (net_count ?h rs)) (held_value ?P (net_value (h_numeric setup) ?h rs)) (o_state g)"
    using rec by (simp add: recomputed_def)
  define as where "as = h_scan setup (filter (\<lambda>a. e_window_start a = ?N) (a_accumulators (o_state g)))"
  have mset_as: "mset as = mset (filter (\<lambda>a. e_window_start a = ?N) (a_accumulators (o_state g)))"
    using w by (simp add: as_def whole_setup_def scans_def)
  then have set_as: "set as = {a \<in> set (a_accumulators (o_state g)). e_window_start a = ?N}"
    by (metis set_mset_mset set_filter)
  have "mset (map pane_of as) = mset (map pane_of (filter (\<lambda>a. e_window_start a = ?N) (a_accumulators (o_state g))))"
    using mset_as by simp
  moreover have "distinct (map pane_of (a_accumulators (o_state g)))" using c by (simp add: counted_def)
  ultimately have panes: "distinct (map pane_of as)" using mset_eq_imp_distinct_iff distinct_map_filter by metis
  define handed where "handed = (if as = [] \<and> y_emit_empty_windows ?s then [fresh_accumulator ?s ?N None] else as)"
  have before: "e_window_start (f_window f) \<noteq> ?N" if "f \<in> set (o_fired g)" for f
    using old that D by fastforce
  have starts: "\<forall>a \<in> set handed. e_window_start a = ?N" using set_as by (auto simp: handed_def fresh_accumulator_def)
  have panes': "distinct (map pane_of handed)" using panes by (simp add: handed_def)
  have ids: "distinct (map workflow_id (map f_window (o_fired g) @ handed))"
  proof -
    have "distinct (map workflow_id (map f_window (o_fired g)))"
      using dist by (intro distinct_workflow_ids) (simp add: o_def)
    moreover have "distinct (map workflow_id handed)"
      using panes' by (rule distinct_workflow_ids)
    ultimately show ?thesis using before starts by (fastforce simp: workflow_id_def)
  qed
  obtain n where fire: "fire_window (h_scan setup) state g =
    \<lparr> o_schedule = ?s\<lparr> y_windows_fired := n, y_next_window_start := fadd ?N (effective_slide ?s) \<rparr>,
      o_state = (o_state g)\<lparr> a_accumulators := filter (\<lambda>a. pane_of a \<notin> pane_of ` set as) (a_accumulators (o_state g)),
        a_values := filter (\<lambda>c. c_pane c \<notin> pane_of ` set as) (a_values (o_state g)) \<rparr>,
      o_fired = o_fired g @ map (fired_of state) handed \<rparr>"
  proof (cases "as = [] \<and> y_emit_empty_windows ?s")
    case True
    then have "workflow_id (fresh_accumulator ?s ?N None) \<notin> workflow_id ` f_window ` set (o_fired g)"
      using ids by (auto simp: handed_def)
    from start_window_workflow_new [OF this] True show thesis
      by (intro that [of "y_windows_fired ?s + 1"]) (auto simp: fire_window_def nxt(1) handed_def Let_def simp flip: as_def intro!: Windowing.equality)
  next
    case False
    then have "handed = as" unfolding handed_def by (simp only: if_False)
    with ids have "distinct (map workflow_id (map f_window (o_fired g) @ as))" by simp
    from fire_accumulators [OF this] False show thesis
      by (intro that [of "y_windows_fired ?s + of_nat (length as)"]) (auto simp: fire_window_def nxt(1) handed_def Let_def simp flip: as_def)
  qed
  have at_N: "?P ?N" using PQ(1) by blast
  have held_N: "held ?P (net_count ?h rs) p = net_count ?h rs p
      \<and> held_value ?P (net_value (h_numeric setup) ?h rs) p = net_value (h_numeric setup) ?h rs p" if "fst p = ?N" for p
    using at_N that by (simp add: held_def held_value_def fun_eq_iff)
  have covered: "p \<in> pane_of ` set as" if p: "fst p = ?N" "net_count ?h rs p \<noteq> 0" for p
  proof -
    obtain a where a: "get_by pane_of p (a_accumulators (o_state g)) = Some a"
      using countedD(1) [OF c, of p] held_N [OF p(1)] p(2) by (auto split: option.splits)
    from get_by_Some [OF this] p(1) show ?thesis unfolding set_as by (auto simp: pane_of_def intro!: image_eqI [of _ _ a])
  qed
  have final: "final_window setup rs a" if a: "a \<in> set handed" for a
  proof (cases "a \<in> set as")
    case True
    then have "get_by pane_of (pane_of a) (a_accumulators (o_state g)) = Some a"
      using c by (intro get_by_in) (auto simp: set_as counted_def)
    with countedD(1) [OF c, of "pane_of a"] held_N [of "pane_of a"] starts a show ?thesis
      by (simp add: final_window_def accumulated_def pane_of_def)
  next
    case False
    then have empty: "as = []" and a: "a = fresh_accumulator ?s ?N None" using a by (auto simp: handed_def split: if_splits)
    let ?p = "pane_of a"
    have p: "fst ?p = ?N" by (simp add: a pane_of_def fresh_accumulator_def)
    with covered [of ?p] empty have zero: "net_count ?h rs ?p = 0" by auto
    have "net_value (h_numeric setup) ?h rs ?p x \<le> 0" if "y_aggregation ?h = Max" for x
    proof -
      have "0 \<le> net_value (h_numeric setup) ?h rs ?p y" for y
        using countedD(2) [OF c that, of ?p y] held_N [OF p] by (auto split: option.splits)
      from net_count_zero [OF this zero] show ?thesis by simp
    qed
    with zero show ?thesis
      by (auto simp: final_window_def greatest_counted_def) (simp_all add: a fresh_accumulator_def)
  qed
  have "A + m * D \<le> 2 ^ 51" using past(2) by simp
  then have step: "fadd ?N (effective_slide ?s) = num (A + (m + 1) * D)"
    using whole_adds(2) [OF whole m] whole same_windows_whole [OF same, of A W D] by (simp add: whole_schedule_def)
  have dist': "distinct (map (\<lambda>f. pane_of (f_window f)) (o_fired g @ map (fired_of state) handed))"
  proof -
    have "pane_of (f_window f) \<noteq> pane_of a" if "f \<in> set (o_fired g)" "a \<in> set handed" for f a
      using before [OF that(1)] starts that(2) by (auto simp: pane_of_def)
    with dist panes' show ?thesis by (auto simp: o_def) metis
  qed
  have rec': "recomputed (h_numeric setup) ?h ?Q rs (o_state (fire_window (h_scan setup) state g))"
    using recomputed_next [OF D m rec set_as] by (simp add: fire)
  have fired: "(\<exists>k. 0 \<le> k \<and> k < m + 1 \<and> e_window_start (f_window f) = num (A + k * D)
      \<and> fired_after (A + k * D + W + L) f) \<and> final_window setup rs (f_window f)"
    if f: "f \<in> set (o_fired g @ map (fired_of state) handed)" for f
  proof (cases "f \<in> set (o_fired g)")
    case True
    with old show ?thesis by (meson zless_add1_eq)
  next
    case False
    then obtain a where "a \<in> set handed" "f = fired_of state a" using f by auto
    with final starts m fired_after_passed [OF past(1)] show ?thesis by (auto intro!: exI [of _ m])
  qed
  have all': "p \<in> (\<lambda>f. pane_of (f_window f)) ` set (o_fired g @ map (fired_of state) handed)"
    if p: "window_from A D A (fst p)" "\<not> ?Q (fst p)" "net_count ?h rs p \<noteq> 0" for p
  proof (cases "?P (fst p)")
    case True
    with PQ(1) [of "fst p"] p(2) have "fst p = ?N" by blast
    with covered p(3) have "p \<in> pane_of ` set as" by blast
    then have "p \<in> pane_of ` set handed" unfolding handed_def by (cases "as = []") simp_all
    then show ?thesis by (auto simp: image_Un image_image)
  next
    case False
    with all [of p] p show ?thesis by (simp add: image_Un)
  qed
  have "A + (m + 1) * D \<le> 2 ^ 50 + D" using past(2) by (simp add: algebra_simps)
  moreover have "passed (A + (m + 1 - 1) * D + W + L) state" using past(1) by simp
  moreover have "same_windows ?h (o_schedule (fire_window (h_scan setup) state g))"
    using same by (simp add: fire same_windows_def)
  moreover have "y_next_window_start (o_schedule (fire_window (h_scan setup) state g)) = num (A + (m + 1) * D)"
    by (simp add: fire step)
  moreover have "o_fired (fire_window (h_scan setup) state g) = o_fired g @ map (fired_of state) handed" by (simp add: fire)
  ultimately show ?thesis
    unfolding windows_at_def using rec' dist' fired all' m by (intro conjI ballI allI impI) (simp_all only: | simp)+
qed

lemma fire_windows_at:
  assumes w: "whole_setup A W D L setup" and g: "windows_at A W D L setup state rs m g"
    and state: "all_limited (z_watermark state)" "all_limited (z_max_event_time state)"
  shows "\<exists>m'. m \<le> m' \<and> m' \<le> m + int n \<and> windows_at A W D L setup state rs m' (fire_windows (h_scan setup) (h_config setup) state n g)
    \<and> (m' = m + int n \<or> \<not> window_due (h_config setup) state (o_schedule (fire_windows (h_scan setup) (h_config setup) state n g)))"
  using g
proof (induction n arbitrary: m g)
  case 0
  then show ?case by auto
next
  case (Suc n)
  show ?case
  proof (cases "window_due (h_config setup) state (o_schedule g)")
    case True
    from Suc.IH [OF fire_window_at [OF w Suc.prems state True]] obtain m' where
      "m + 1 \<le> m'" "m' \<le> m + 1 + int n"
      "windows_at A W D L setup state rs m' (fire_windows (h_scan setup) (h_config setup) state n (fire_window (h_scan setup) state g))"
      "m' = m + 1 + int n
        \<or> \<not> window_due (h_config setup) state (o_schedule (fire_windows (h_scan setup) (h_config setup) state n (fire_window (h_scan setup) state g)))"
      by blast
    with True show ?thesis by (intro exI [of _ m']) auto
  next
    case False
    with Suc.prems show ?thesis by (intro exI [of _ m]) auto
  qed
qed

section \<open>A record that arrives\<close>

text \<open>A record that is taken in lies in no window that has fired.\<close>

lemma taken_in_later_windows:
  assumes w: "whole_setup A W D L setup" and g: "windows_at A W D L setup (fst st) rs m g"
    and policy: "g_late_policy (h_config setup) \<noteq> Accept" and st: "gated (h_config setup) st"
    and t: "valid64 t" and run: "append_record (h_config setup) part t now st = Inr (d, st')" "taken d"
    and k: "0 \<le> k" "flt t (num (A + k * D + W))"
  shows "m \<le> k"
proof (rule ccontr)
  assume "\<not> m \<le> k"
  then have m: "0 < m" "k \<le> m - 1" using k(1) by auto
  have config: "validate_config (h_config setup)" and L: "g_allowed_lateness (h_config setup) = num L" "0 \<le> L" "L \<le> 2 ^ 50"
    and whole: "whole_schedule A W D (h_schedule setup)" using w by (auto simp: whole_setup_def)
  have size: "\<bar>A\<bar> \<le> 2 ^ 50" "0 < D" "D \<le> W" "W \<le> 2 ^ 50" using whole by (auto simp: whole_schedule_def)
  let ?E = "A + (m - 1) * D + W"
  have "passed (?E + L) (fst st)" "A + m * D \<le> 2 ^ 50 + D" using g m(1) by (auto simp: windows_at_def)
  moreover have "\<not> z_finalized (fst st)" using append_gated [OF config _ t, of "fst st" "snd st"] st run(1) by auto
  ultimately obtain x where x: "z_watermark (fst st) = Some x" "fle (num (?E + L)) x" and small: "A + m * D \<le> 2 ^ 50 + D"
    by (auto simp: passed_def)
  have marks: "mark_time x" using st x(1) by (auto simp: gated_def split: prod.splits)
  have frontier: "completeness_frontier (h_config setup) (fst st) = Some (fsub x (num L))"
    using x(1) \<open>\<not> z_finalized (fst st)\<close> L(1) by (simp add: completeness_frontier_def)
  have mD: "(m - 1) * D = m * D - D" by (simp add: left_diff_distrib)
  have "0 \<le> (m - 1) * D" using m(1) size(2) by simp
  then have "\<bar>?E\<bar> \<le> 2 ^ 53" using small size mD pow53_pow50 by linarith
  then have "fsub (num (?E + L)) (num L) = num ?E" using fsub_num [of "?E + L" L] by simp
  moreover have "fle (fsub (num (?E + L)) (num L)) (fsub x (num L))"
    using x(2) marks L(2) by (intro fsub_mono) (auto simp: non_negative_def num_def)
  moreover have "\<not> fle t (fsub x (num L))" by (rule taken_beyond_frontier [OF config st t policy run frontier])
  ultimately have E: "\<not> fle t (num ?E)" using fle_trans by metis
  have "k * D \<le> (m - 1) * D" using m(2) size(2) by (intro mult_right_mono) auto
  then have "fle (num (A + k * D + W)) (num ?E)" by simp
  with k(2) E show False using fle_trans unfolding flt_def by blast
qed

text \<open>Counting it keeps the state exact.\<close>

lemma windows_at_record:
  assumes w: "whole_setup A W D L setup" and g: "windows_at A W D L setup state rs m g"
    and r: "whole_time (r_event_time r)" and later: "\<And>k. 0 \<le> k \<Longrightarrow> flt (r_event_time r) (num (A + k * D + W)) \<Longrightarrow> m \<le> k"
    and run: "index_window_aggregate (h_numeric setup) (o_schedule g) r (o_state g) = Some (Inr ws)"
  shows "windows_at A W D L setup state (rs @ [r]) m (g\<lparr> o_state := ws \<rparr>)"
proof -
  let ?h = "h_schedule setup" and ?P = "window_from A D (A + m * D)"
  have same: "same_windows ?h (o_schedule g)" and rec: "recomputed (h_numeric setup) ?h ?P rs (o_state g)"
    and m: "0 \<le> m" "A + m * D \<le> 2 ^ 50 + D"
    using g by (auto simp: windows_at_def)
  have whole: "whole_schedule A W D ?h" and size: "0 < D" "D \<le> W" "W \<le> 2 ^ 50" "y_window_size ?h = num W"
    using w by (auto simp: whole_setup_def whole_schedule_def)
  have rec': "recomputed (h_numeric setup) ?h ?P (rs @ [r]) ws"
  proof -
    have "recomputed (h_numeric setup) (o_schedule g) ?P (rs @ [r]) ws"
      using whole same_windows_whole [OF same] later size(1)
      by (intro index_record_recomputed [OF _ r _ _ run]) (auto simp: same_windows_recomputed [OF same] rec)
    then show ?thesis by (simp add: same_windows_recomputed [OF same])
  qed
  have out: "\<not> in_pane ?h p r" if "fst p = num (A + k * D)" "0 \<le> k" "k < m" for p k
  proof
    assume "in_pane ?h p r"
    have "k * D \<le> m * D" using that(3) size(1) by simp
    moreover have "(2 :: int) ^ 51 = 2 * 2 ^ 50" by simp
    ultimately have "A + k * D \<le> 2 ^ 51" using m(2) size by linarith
    with whole_adds(1) [OF whole that(2)] \<open>in_pane ?h p r\<close> have "flt (r_event_time r) (num (A + k * D + W))"
      by (simp add: in_pane_def that(1) size(4))
    with later [OF that(2)] that(3) show False by simp
  qed
  have kept: "net_count ?h (rs @ [r]) p = net_count ?h rs p \<and> net_value (h_numeric setup) ?h (rs @ [r]) p = net_value (h_numeric setup) ?h rs p"
    if "fst p = num (A + k * D)" "0 \<le> k" "k < m" for p k
    using out [OF that] by (simp add: net_count_snoc net_value_snoc fun_eq_iff)
  have fired: "final_window setup (rs @ [r]) (f_window f)"
    if "final_window setup rs (f_window f)" "e_window_start (f_window f) = num (A + k * D)" "0 \<le> k" "k < m" for f k
    using that kept [of "pane_of (f_window f)" k] by (simp add: final_window_def pane_of_def)
  have older: "net_count ?h (rs @ [r]) p = net_count ?h rs p" if p: "window_from A D A (fst p)" "\<not> ?P (fst p)" for p
  proof -
    obtain k where k: "0 \<le> k" "fst p = num (A + k * D)" using p(1) by (auto simp: window_from_def)
    with p(2) have "\<not> m \<le> k" by (auto simp: window_from_iff [OF size(1)])
    with kept [OF k(2,1)] show ?thesis by simp
  qed
  have known: "p \<in> (\<lambda>f. pane_of (f_window f)) ` set (o_fired g)"
    if "window_from A D A (fst p) \<and> \<not> ?P (fst p) \<and> net_count ?h (rs @ [r]) p \<noteq> 0" for p
    using g that older [of p] unfolding windows_at_def by metis
  show ?thesis
    using g rec' fired unfolding windows_at_def
    by (intro conjI allI impI) (simp, simp, simp, simp, simp, simp, force, simp, simp add: known)
qed

section \<open>The server\<close>

text \<open>Requests in whole numbers.\<close>

fun whole_request :: "'v WindowRequest \<Rightarrow> bool" where
  "whole_request (AppendRecord part t key val kind now) = whole_time t"
| "whole_request (AdvanceMark part x now) = (valid64 x \<and> limited x)"
| "whole_request (SealPartition part now) = True"
| "whole_request (MaintainTick now) = True"
| "whole_request CreateSchedule = True"
| "whole_request (CreateOther ok) = True"

lemma whole_time_limited: "whole_time t \<Longrightarrow> valid64 t \<and> limited t"
proof -
  assume "whole_time t"
  then obtain T where T: "t = num T" "\<bar>T\<bar> \<le> 2 ^ 50" by (auto simp: whole_time_def)
  then have "\<bar>T\<bar> \<le> 2 ^ 53" by simp
  with T show ?thesis by (simp add: limited_def valid64_num)
qed

definition window_inv :: "int \<Rightarrow> int \<Rightarrow> int \<Rightarrow> int \<Rightarrow> 'v WindowSetup \<Rightarrow> 'v WindowServer \<Rightarrow> bool" where
  "window_inv A W D L setup w \<longleftrightarrow> whole_setup A W D L setup \<and> sound_stream (h_config setup) (v_stream w)
     \<and> list_all (\<lambda>r. whole_time (r_event_time r)) (v_log w)
     \<and> (\<forall>g. v_windowing w = Some g \<longrightarrow> g_late_policy (h_config setup) \<noteq> Accept
          \<and> (\<exists>m. windows_at A W D L setup (fst (v_stream w)) (v_log w) m g))"

lemma sound_limits: "sound_stream config st \<Longrightarrow> all_limited (z_watermark (fst st)) \<and> all_limited (z_max_event_time (fst st))"
  by (simp add: sound_stream_def limited_stream_def)

text \<open>What \<open>refresh_stream\<close> does to the windows after the stream has moved on.\<close>

lemma refreshed_inv:
  assumes w: "whole_setup A W D L setup" and st: "sound_stream (h_config setup) st" "further (fst (v_stream w)) (fst st)"
    and rs: "list_all (\<lambda>r. whole_time (r_event_time r)) (v_log w)"
    and g: "\<And>g. v_windowing w = Some g \<Longrightarrow> g_late_policy (h_config setup) \<noteq> Accept
      \<and> (\<exists>m. windows_at A W D L setup (fst (v_stream w)) (v_log w) m g)"
  shows "window_inv A W D L setup (refreshed setup st w)"
proof (cases "v_windowing w")
  case None
  with w st(1) rs show ?thesis by (simp add: window_inv_def refreshed_def)
next
  case (Some g)
  then obtain m where m: "windows_at A W D L setup (fst st) (v_log w) m g" and policy: "g_late_policy (h_config setup) \<noteq> Accept"
    using g windows_at_further st(2) by blast
  have "\<exists>m. windows_at A W D L setup (fst st) (v_log w) m (fire_due_stream_schedules (h_scan setup) (h_config setup) (fst st) g)"
    using fire_windows_at [OF w m, of 100] sound_limits [OF st(1)] by (auto simp: fire_due_stream_schedules_def)
  with Some m policy w st(1) rs show ?thesis by (auto simp: window_inv_def refreshed_def)
qed

text \<open>The result of every request on the stream is that of a step of \<open>EventTime\<close>.\<close>

lemma stream_results:
  assumes config: "validate_config config" and st: "sound_stream config st"
  shows "append_record config part t now st = Inr (d, st') \<Longrightarrow> valid64 t \<and> limited t \<Longrightarrow> sound_stream config st' \<and> further (fst st) (fst st')"
    and "advance_stream config part x now st = Inr st' \<Longrightarrow> valid64 x \<and> limited x \<Longrightarrow> sound_stream config st' \<and> further (fst st) (fst st')"
    and "seal_partition config part now st = Inr st' \<Longrightarrow> sound_stream config st' \<and> further (fst st) (fst st')"
    and "sound_stream config (refresh_stream config now st) \<and> further (fst st) (fst (refresh_stream config now st))"
  using step_sound [OF config st, of "Append part t now"] step_sound [OF config st, of "Advance part x now"]
    step_sound [OF config st, of "Seal part now"] step_sound [OF config st, of "Tick now"]
  by (auto simp: committed_def)

lemma append_window_inv:
  assumes inv: "window_inv A W D L setup w" and t: "whole_time t"
    and run: "append_window_record setup part t key val kind now w = Some w'"
  shows "window_inv A W D L setup w'"
proof -
  have s: "whole_setup A W D L setup" "sound_stream (h_config setup) (v_stream w)"
    and rs: "list_all (\<lambda>r. whole_time (r_event_time r)) (v_log w)"
    and config: "validate_config (h_config setup)"
    using inv by (auto simp: window_inv_def whole_setup_def)
  have t': "valid64 t" "limited t" using whole_time_limited [OF t] by auto
  obtain d st' where app: "append_record (h_config setup) part t now (v_stream w) = Inr (d, st')"
    using run by (auto simp: append_window_record_def split: sum.splits)
  have st': "sound_stream (h_config setup) st'" "further (fst (v_stream w)) (fst st')"
    using stream_results(1) [OF config s(2) app] t' by auto
  define r where "r = \<lparr> r_partition = part, r_offset = q_next_offset (snd (v_stream w) ! part), r_sequence = v_sequence w + 1,
    r_event_time = t, r_key = key, r_value = val, r_kind = kind \<rparr>"
  show ?thesis
  proof (cases "taken d")
    case True
    obtain g where g: "record_indexed setup r (v_windowing w) = Some g"
      "w' = refreshed setup st' (w\<lparr> v_sequence := v_sequence w + 1, v_log := v_log w @ [r], v_windowing := g \<rparr>)"
      using run True by (auto simp: append_window_record_def app Let_def r_def)
    show ?thesis unfolding g(2)
    proof (rule refreshed_inv [OF s(1)])
      show "list_all (\<lambda>r. whole_time (r_event_time r)) (v_log (w\<lparr> v_sequence := v_sequence w + 1, v_log := v_log w @ [r], v_windowing := g \<rparr>))"
        using rs t by (simp add: r_def)
      fix g' assume "v_windowing (w\<lparr> v_sequence := v_sequence w + 1, v_log := v_log w @ [r], v_windowing := g \<rparr>) = Some g'"
      then obtain h ws where h: "v_windowing w = Some h" "g' = h\<lparr> o_state := ws \<rparr>"
        "index_window_aggregate (h_numeric setup) (o_schedule h) r (o_state h) = Some (Inr ws)"
        using g(1) by (auto simp: record_indexed_def split: option.splits sum.splits)
      then obtain m where m: "windows_at A W D L setup (fst (v_stream w)) (v_log w) m h" and policy: "g_late_policy (h_config setup) \<noteq> Accept"
        using inv by (auto simp: window_inv_def)
      have "m \<le> k" if "0 \<le> k" "flt (r_event_time r) (num (A + k * D + W))" for k
        using that s(2) by (intro taken_in_later_windows [OF s(1) m policy _ t'(1) app True]) (auto simp: sound_stream_def r_def)
      then have "windows_at A W D L setup (fst (v_stream w)) (v_log w @ [r]) m g'"
        unfolding h(2) using t by (intro windows_at_record [OF s(1) m _ _ h(3)]) (auto simp: r_def)
      with policy show "g_late_policy (h_config setup) \<noteq> Accept \<and> (\<exists>m. windows_at A W D L setup
          (fst (v_stream (w\<lparr> v_sequence := v_sequence w + 1, v_log := v_log w @ [r], v_windowing := g \<rparr>)))
          (v_log (w\<lparr> v_sequence := v_sequence w + 1, v_log := v_log w @ [r], v_windowing := g \<rparr>)) m g')" by auto
    qed (use st' in simp_all)
  next
    case False
    then have w': "w' = refreshed setup st' (w\<lparr> v_sequence := v_sequence w + 1 \<rparr>)"
      using run by (simp add: append_window_record_def app Let_def)
    show ?thesis unfolding w' using inv st' rs by (intro refreshed_inv [OF s(1)]) (auto simp: window_inv_def)
  qed
qed

lemma net_mset:
  assumes "mset rs = mset rs'"
  shows "net_count s rs = net_count s rs'" and "net_value numeric s rs = net_value numeric s rs'"
proof -
  have "net_weight (filter P rs) = net_weight (filter P rs')" for P :: "'a StreamRecord \<Rightarrow> bool"
  proof -
    have "sum_mset (image_mset (\<lambda>r. weight (r_kind r)) (mset (filter P rs)))
        = sum_mset (image_mset (\<lambda>r. weight (r_kind r)) (mset (filter P rs')))" using assms by simp
    then show ?thesis unfolding net_weight_def mset_map [symmetric] sum_mset_sum_list .
  qed
  then show "net_count s rs = net_count s rs'" "net_value numeric s rs = net_value numeric s rs'"
    by (simp_all add: net_count_def net_value_def fun_eq_iff)
qed

lemma create_window_inv:
  assumes inv: "window_inv A W D L setup w" and run: "create_window_schedule setup w = Some w'"
  shows "window_inv A W D L setup w'"
proof (cases "v_windowing w")
  case (Some g)
  with run inv show ?thesis by (auto simp: create_window_schedule_def Let_def split: if_splits)
next
  case None
  let ?h = "h_schedule setup"
  define s where "s = ?h\<lparr> y_next_window_start := y_start_at ?h, y_windows_fired := 0 \<rparr>"
  obtain ws where policy: "g_late_policy (h_config setup) \<noteq> Accept"
    and ws: "index_records (h_numeric setup) s (h_scan_records setup (v_log w)) no_windows = Some (Inr ws)"
    and w': "w' = w\<lparr> v_windowing := Some (fire_due_stream_schedules (h_scan setup) (h_config setup)
      (fst (v_stream w)) \<lparr> o_schedule = s, o_state = ws, o_fired = [] \<rparr>) \<rparr>"
    using run None by (auto simp: create_window_schedule_def Let_def s_def split: if_splits option.splits sum.splits)
  have s0: "whole_setup A W D L setup" and rs: "list_all (\<lambda>r. whole_time (r_event_time r)) (v_log w)"
    and st: "sound_stream (h_config setup) (v_stream w)" using inv by (auto simp: window_inv_def)
  have same: "same_windows ?h s" by (simp add: same_windows_def s_def)
  have whole: "whole_schedule A W D ?h" using s0 by (simp add: whole_setup_def)
  have scanned: "mset (h_scan_records setup (v_log w)) = mset (v_log w)" using s0 by (simp add: whole_setup_def scans_def)
  have "list_all (\<lambda>r. whole_time (r_event_time r)) (h_scan_records setup (v_log w))"
    using rs mset_eq_setD [OF scanned] by (simp add: list_all_iff)
  then have "recomputed (h_numeric setup) s (window_from A D A) ([] @ h_scan_records setup (v_log w)) ws"
    using whole same_windows_whole [OF same] recomputed_empty ws by (intro index_records_recomputed) auto
  then have "recomputed (h_numeric setup) ?h (window_from A D A) (h_scan_records setup (v_log w)) ws"
    by (simp add: same_windows_recomputed [OF same])
  then have "recomputed (h_numeric setup) ?h (window_from A D A) (v_log w) ws"
    by (simp add: recomputed_def net_mset [OF scanned])
  then have "windows_at A W D L setup (fst (v_stream w)) (v_log w) 0 \<lparr> o_schedule = s, o_state = ws, o_fired = [] \<rparr>"
    using same whole by (auto simp: windows_at_def s_def whole_schedule_def)
  from fire_windows_at [OF s0 this, of 100] sound_limits [OF st] policy show ?thesis
    using s0 st rs by (auto simp: window_inv_def w' fire_due_stream_schedules_def)
qed

lemma window_step_inv:
  assumes inv: "window_inv A W D L setup w" and e: "whole_request e"
  shows "window_inv A W D L setup (window_step setup w e)"
proof (cases "window_transaction setup w e")
  case None
  with inv show ?thesis by (simp add: window_step_def)
next
  case (Some w')
  have s: "whole_setup A W D L setup" "sound_stream (h_config setup) (v_stream w)"
    and config: "validate_config (h_config setup)"
    using inv by (auto simp: window_inv_def whole_setup_def)
  note results = stream_results [OF config s(2)]
  have moved: "window_inv A W D L setup (refreshed setup st w)"
    if "sound_stream (h_config setup) st \<and> further (fst (v_stream w)) (fst st)" for st
    using that inv by (intro refreshed_inv [OF s(1)]) (auto simp: window_inv_def)
  have "window_inv A W D L setup w'"
  proof (cases e)
    case (AppendRecord part t key val kind now)
    with Some e append_window_inv [OF inv] show ?thesis by auto
  next
    case CreateSchedule
    with Some create_window_inv [OF inv] show ?thesis by simp
  next
    case (MaintainTick now)
    with Some have "w' = refreshed setup (refresh_stream (h_config setup) now (v_stream w)) w" by simp
    then show ?thesis using moved [OF results(4) [of now]] by blast
  next
    case (CreateOther ok)
    with Some have w': "w' = other_schedule_created setup w" by (simp split: if_splits)
    have "\<exists>m. windows_at A W D L setup (fst (v_stream w)) (v_log w) m
        (fire_due_stream_schedules (h_scan setup) (h_config setup) (fst (v_stream w)) g)" if g: "v_windowing w = Some g" for g
    proof -
      obtain m where "windows_at A W D L setup (fst (v_stream w)) (v_log w) m g" using inv g by (auto simp: window_inv_def)
      from fire_windows_at [OF s(1) this, of 100] sound_limits [OF s(2)] show ?thesis
        by (auto simp: fire_due_stream_schedules_def)
    qed
    with inv show ?thesis unfolding w' by (auto simp: window_inv_def other_schedule_created_def)
  qed (use Some e moved results(2,3) in \<open>auto split: sum.splits\<close>)
  with Some show ?thesis by (simp add: window_step_def)
qed

lemma new_window_inv:
  assumes "whole_setup A W D L setup"
  shows "window_inv A W D L setup (new_window_server (h_config setup) now)"
proof -
  have "gated (h_config setup) (open_stream (h_config setup) now)" using assms open_gated by (auto simp: whole_setup_def)
  moreover have "limited_stream (open_stream (h_config setup) now)"
    by (auto simp: limited_stream_def open_stream_def new_stream_def new_partition_def limited_part_def list_all_iff)
  ultimately show ?thesis using assms by (simp add: window_inv_def new_window_server_def sound_stream_def)
qed

interpretation windowed: machine "\<lambda>w. whole_setup A W D L h \<and> (\<exists>now. w = new_window_server (h_config h) now)"
  "window_step h" whole_request "window_inv A W D L h"
  for A W D L h
  by unfold_locales (auto simp: new_window_inv intro: window_step_inv)

text \<open>
  C9. A window that has fired is final, and none is forgotten. Take any server that serves requests in whole
  numbers, in any order, accepted or refused, with its schedule created at any time. The window of each
  workflow it has started holds exactly the net number of all records ever taken into it (and under
  \<open>Max\<close> their greatest number), however many were taken in later; no window and key has fired twice; and
  a window and key whose records do not cancel out has either fired, if it starts before the next
  window to fire, or is held exactly by an accumulator.
\<close>

theorem fired_windows_final:
  assumes s0: "whole_setup A W D L setup" and es: "list_all whole_request es"
    and g: "v_windowing (foldl (window_step setup) (new_window_server (h_config setup) now) es) = Some g"
  shows "let records = v_log (foldl (window_step setup) (new_window_server (h_config setup) now) es);
             fired = map (\<lambda>f. pane_of (f_window f)) (o_fired g);
             n = net_count (h_schedule setup) records
    in (\<forall>f \<in> set (o_fired g). final_window setup records (f_window f)) \<and> distinct fired
      \<and> (\<forall>p. window_from A D A (fst p) \<longrightarrow> n p \<noteq> 0 \<longrightarrow>
           (if flt (fst p) (y_next_window_start (o_schedule g)) then p \<in> set fired
            else \<exists>a. get_by pane_of p (a_accumulators (o_state g)) = Some a \<and> e_count a = n p))"
proof -
  let ?w = "foldl (window_step setup) (new_window_server (h_config setup) now) es" and ?h = "h_schedule setup"
  have "window_inv A W D L setup ?w" using s0 es by (intro windowed.run_inv) auto
  then obtain m where m: "windows_at A W D L setup (fst (v_stream ?w)) (v_log ?w) m g"
    using g by (auto simp: window_inv_def)
  have D: "0 < D" using s0 by (simp add: whole_setup_def whole_schedule_def)
  have nxt: "y_next_window_start (o_schedule g) = num (A + m * D)" using m by (simp add: windows_at_def)
  have c: "counted ?h (held (window_from A D (A + m * D)) (net_count ?h (v_log ?w)))
    (held_value (window_from A D (A + m * D)) (net_value (h_numeric setup) ?h (v_log ?w))) (o_state g)"
    using m by (simp add: windows_at_def recomputed_def)
  have "if flt (fst p) (y_next_window_start (o_schedule g)) then p \<in> set (map (\<lambda>f. pane_of (f_window f)) (o_fired g))
      else \<exists>a. get_by pane_of p (a_accumulators (o_state g)) = Some a \<and> e_count a = net_count ?h (v_log ?w) p"
    if p: "window_from A D A (fst p)" "net_count ?h (v_log ?w) p \<noteq> 0" for p
  proof -
    obtain k where k: "0 \<le> k" "fst p = num (A + k * D)" using p(1) by (auto simp: window_from_def)
    have from_m: "window_from A D (A + m * D) (fst p) \<longleftrightarrow> m \<le> k"
      using k D by (auto simp: window_from_iff [OF D])
    have before: "flt (fst p) (y_next_window_start (o_schedule g)) \<longleftrightarrow> k < m" using D by (simp add: k(2) nxt)
    show ?thesis
    proof (cases "k < m")
      case True
      have "p \<in> (\<lambda>f. pane_of (f_window f)) ` set (o_fired g)"
        using m p from_m True unfolding windows_at_def by (metis not_less)
      with True before show ?thesis by simp
    next
      case False
      with countedD(1) [OF c, of p] from_m before p(2) show ?thesis
        by (auto simp: held_def accumulated_def split: option.splits)
    qed
  qed
  note each = this
  have "\<forall>f \<in> set (o_fired g). final_window setup (v_log ?w) (f_window f)" "distinct (map (\<lambda>f. pane_of (f_window f)) (o_fired g))"
    using m by (simp_all add: windows_at_def)
  with each show ?thesis unfolding Let_def by blast
qed

text \<open>
  C16. No window fires early. Every workflow that was started for a window was started when the stream was
  finalized, or when its watermark had reached the end of the window and the allowed lateness beyond it.
\<close>

theorem window_not_early:
  assumes "whole_setup A W D L setup" "list_all whole_request es"
    and g: "v_windowing (foldl (window_step setup) (new_window_server (h_config setup) now) es) = Some g"
    and f: "f \<in> set (o_fired g)"
  shows "\<exists>S. e_window_start (f_window f) = num S \<and> (f_finalized f \<or> (\<exists>x. f_watermark f = Some x \<and> fle (num (S + W + L)) x))"
proof -
  have "window_inv A W D L setup (foldl (window_step setup) (new_window_server (h_config setup) now) es)"
    using assms(1,2) by (intro windowed.run_inv) auto
  with g f show ?thesis by (fastforce simp: window_inv_def windows_at_def fired_after_def)
qed

section \<open>After the stream is sealed\<close>

text \<open>No request moves a stream whose partitions are all sealed.\<close>

lemma map_filter_by_map:
  assumes "map f xs = map f ys"
  shows "List.map_filter f xs = List.map_filter f ys"
proof -
  have "List.map_filter f zs = map the (filter (\<lambda>y. y \<noteq> None) (map f zs))" for zs
    by (induction zs) (auto split: option.splits)
  with assms show ?thesis by metis
qed

lemma reduce_rs_max_idle: "List.map_filter q_max_event_time (map (mark_idle config now) ps) = List.map_filter q_max_event_time ps"
  by (induction ps) (simp_all split: option.splits)

text \<open>The greatest event time that the stream reports is that of its partitions.\<close>

definition agrees :: "stream \<Rightarrow> bool" where
  "agrees st \<longleftrightarrow> z_max_event_time (fst st) = reduce rs_max (List.map_filter q_max_event_time (snd st))"

definition settled :: "StreamConfig \<Rightarrow> stream \<Rightarrow> bool" where
  "settled config st \<longleftrightarrow> z_finalized (fst st) \<and> list_all q_sealed (snd st) \<and> length (snd st) = g_partitions config
     \<and> opt_feq (z_watermark (fst st)) (z_watermark (fst st))
     \<and> opt_feq (z_max_event_time (fst st)) (z_max_event_time (fst st)) \<and> agrees st"

lemma settled_refresh:
  assumes "settled config (s, ps)"
  shows "fst (refresh_stream config now (s, ps)) = s \<and> settled config (refresh_stream config now (s, ps))"
proof -
  let ?ps = "map (mark_idle config now) ps"
  have sealed: "list_all q_sealed ?ps" using assms by (simp add: settled_def list_all_iff)
  then have "active_partitions ?ps = []" by (auto simp: active_partitions_def filter_empty_conv list_all_iff)
  then have "least_active ?ps = None" by (simp add: least_active_def)
  moreover have "reduce rs_max (List.map_filter q_max_event_time ps) = z_max_event_time s"
    using assms by (simp add: settled_def agrees_def)
  ultimately have "refresh_stream config now (s, ps) = (s, ?ps)"
    using assms sealed by (simp add: settled_def refresh_stream_def refresh_def Let_def reduce_rs_max_idle)
  moreover have "settled config (s, ?ps)"
    using assms sealed unfolding settled_def agrees_def fst_conv snd_conv reduce_rs_max_idle length_map by blast
  ultimately show ?thesis by simp
qed

text \<open>Requests other than the creation of another schedule.\<close>

fun same_schedules :: "'v WindowRequest \<Rightarrow> bool" where
  "same_schedules (CreateOther ok) = False"
| "same_schedules _ = True"

lemma settled_step:
  assumes w: "settled (h_config h) (v_stream w)" and g: "v_windowing w = Some g" and e: "same_schedules e"
  shows "settled (h_config h) (v_stream (window_step h w e)) \<and> v_windowing (window_step h w e) = Some g"
proof (cases "window_transaction h w e")
  case None
  with w g show ?thesis by (simp add: window_step_def)
next
  case (Some w')
  obtain s ps where st: "v_stream w = (s, ps)" by fastforce
  have s: "settled (h_config h) (s, ps)" using w by (simp add: st)
  have part: "q_sealed (ps ! k)" if "k < g_partitions (h_config h)" for k
    using s that by (auto simp: settled_def list_all_length)
  have still: "v_windowing (refreshed h (refresh_stream (h_config h) now (s, qs)) w) = Some g"
    if "settled (h_config h) (s, qs)" for now qs
    using settled_refresh [OF that, of now] s g
    by (simp add: refreshed_def st stream_changed_def settled_def)
  have again: "settled (h_config h) (s, ps[k := (ps ! k)\<lparr> q_sealed := True, q_idle := False, q_last_activity_at := now \<rparr>])" (is "settled _ (s, ?qs)")
    if "k < g_partitions (h_config h)" for k now
  proof -
    have k: "k < length ps" using that s by (simp add: settled_def)
    have "map q_max_event_time ?qs = map q_max_event_time ps" using k by (simp add: map_update list_update_same_conv)
    then have "List.map_filter q_max_event_time ?qs = List.map_filter q_max_event_time ps" by (rule map_filter_by_map)
    with s show ?thesis by (auto simp: settled_def agrees_def list_all_iff dest!: subsetD [OF set_update_subset_insert])
  qed
  have "settled (h_config h) (v_stream w') \<and> v_windowing w' = Some g"
  proof (cases e)
    case (AppendRecord k t key val kind now)
    have "\<exists>r. append_record (h_config h) k t now (s, ps) = Inl r"
      using part by (auto simp: append_record_def observe_def Let_def split: option.splits)
    with Some AppendRecord show ?thesis by (auto simp: append_window_record_def st)
  next
    case (AdvanceMark k x now)
    have "\<exists>r. advance_stream (h_config h) k x now (s, ps) = Inl r"
      using part by (auto simp: advance_stream_def advance_watermark_def split: option.splits)
    with Some AdvanceMark show ?thesis by (auto simp: st)
  next
    case (SealPartition k now)
    with Some st still [OF again] settled_refresh [OF again] show ?thesis
      by (auto simp: seal_partition_def refreshed_def split: if_splits)
  next
    case (MaintainTick now)
    with Some st still [OF s, of now] settled_refresh [OF s, of now] show ?thesis by (auto simp: refreshed_def)
  next
    case CreateSchedule
    with Some g w show ?thesis by (auto simp: create_window_schedule_def Let_def split: if_splits)
  qed (use e in simp)
  with Some show ?thesis by (simp add: window_step_def)
qed

lemma agrees_refresh: "agrees (refresh_stream config now st)"
  by (cases st) (auto simp: agrees_def refresh_stream_def refresh_def Let_def opt_feq_def feq_def split: option.splits)

lemma agrees_window_step: "agrees (v_stream w) \<Longrightarrow> agrees (v_stream (window_step h w e))"
  using agrees_refresh
  by (cases e; cases "v_stream w")
    (auto simp: window_step_def refreshed_def append_window_record_def create_window_schedule_def other_schedule_created_def Let_def seal_partition_def
      elim!: append_record_cases advance_stream_cases split: option.splits sum.splits if_splits)

lemma agrees_run: "agrees (v_stream w) \<Longrightarrow> agrees (v_stream (foldl (window_step h) w es))"
  by (induction es arbitrary: w) (auto intro: agrees_window_step)

lemma limited_feq: "all_limited x \<Longrightarrow> opt_feq x x"
  using fle_not_NaN by (auto simp: all_limited_def limited_def opt_feq_def feq_def split: option.splits)

lemma sealed_forever:
  assumes "whole_setup A W D L h" "list_all whole_request es"
    and "z_finalized (fst (v_stream (foldl (window_step h) (new_window_server (h_config h) now) es)))"
    and "v_windowing (foldl (window_step h) (new_window_server (h_config h) now) es) = Some g" "list_all same_schedules fs"
  shows "v_windowing (foldl (window_step h) (new_window_server (h_config h) now) (es @ fs)) = Some g"
proof -
  let ?w = "foldl (window_step h) (new_window_server (h_config h) now) es"
  have inv: "window_inv A W D L h ?w" using assms(1,2) by (intro windowed.run_inv) auto
  let ?ps = "map (\<lambda>i. new_partition i now) [0..<g_partitions (h_config h)]"
  have "set (List.map_filter q_max_event_time ?ps) = {}" by (auto simp: set_map_filter new_partition_def)
  then have "List.map_filter q_max_event_time ?ps = []" by simp
  then have "agrees (v_stream (new_window_server (h_config h) now))"
    by (simp add: agrees_def new_window_server_def open_stream_def new_stream_def reduce_def)
  then have "agrees (v_stream ?w)" by (rule agrees_run)
  moreover have "sound_stream (h_config h) (v_stream ?w)" using inv by (simp add: window_inv_def)
  ultimately have "settled (h_config h) (v_stream ?w)"
    using assms(3) limited_feq
    by (auto simp: settled_def sound_stream_def limited_stream_def gated_def sane_stream_def split: prod.splits)
  then have "settled (h_config h) (v_stream (foldl (window_step h) ?w fs)) \<and> v_windowing (foldl (window_step h) ?w fs) = Some g"
    using assms(4,5)
  proof (induction fs rule: rev_induct)
    case (snoc e fs)
    with settled_step [of h "foldl (window_step h) ?w fs" g e] show ?case by simp
  qed simp
  then show ?thesis by simp
qed

text \<open>
  Nothing fires after the stream is sealed. Once every partition of the stream is sealed, no sequence of
  requests that does not create another schedule changes an existing schedule, its accumulators or the
  workflows it has started: what has not been fired by then is not fired.
\<close>

theorem sealed_stream_fires_no_more:
  assumes "whole_setup A W D L h" "list_all whole_request es"
    and "z_finalized (fst (v_stream (foldl (window_step h) (new_window_server (h_config h) now) es)))"
    and "v_windowing (foldl (window_step h) (new_window_server (h_config h) now) es) = Some g" "list_all same_schedules fs"
  shows "v_windowing (foldl (window_step h) (new_window_server (h_config h) now) (es @ fs)) = Some g"
  using assms by (rule sealed_forever)

section \<open>Examples\<close>

text \<open>One partition whose watermark the source declares, one window per whole number, and two records a
  hundred windows apart.\<close>

definition lost_config :: StreamConfig where
  "lost_config = \<lparr> g_partitions = 1, g_watermark_mode = SourceManaged, g_max_out_of_orderness = num 0,
     g_idle_timeout = None, g_allowed_lateness = num 0, g_alignment_max_drift = None, g_late_policy = Drop \<rparr>"

definition lost_setup :: "int WindowSetup" where
  "lost_setup = \<lparr> h_scan = (\<lambda>as. as), h_scan_records = (\<lambda>rs. rs), h_numeric = sample_numeric, h_config = lost_config,
     h_schedule = \<lparr> y_window_size = num 1, y_slide = num 1, y_start_at = num 0, y_next_window_start = num 0,
       y_emit_empty_windows = False, y_aggregation = Count, y_windows_fired = 0 \<rparr> \<rparr>"

lemma lost_setup_whole: "whole_setup 0 1 1 0 lost_setup"
  by (simp add: whole_setup_def whole_schedule_def lost_setup_def lost_config_def validate_config_def non_negative_def
      num_not_NaN scans_def effective_slide_def feq_def)

definition lost_requests :: "int WindowRequest list" where
  "lost_requests = [CreateSchedule, AppendRecord 0 (num 0) None 7 Insert (num 1), AppendRecord 0 (num 100) None 8 Insert (num 2),
     SealPartition 0 (num 3)]"

lemma lost_requests_whole: "list_all whole_request lost_requests"
  by (simp add: lost_requests_def whole_time_def)

lemma lost_starts:
  assumes "whole_schedule 0 1 1 s" "0 \<le> T" "T \<le> 2 ^ 50"
  shows "window_starts s (num T) = Some [num T]"
proof -
  obtain ws where ws: "window_starts s (num T) = Some ws" "distinct ws"
    "set ws = {num (0 + k * 1) | k. 0 \<le> k \<and> 0 + k * 1 \<le> T \<and> T < 0 + k * 1 + 1}"
    using windows_found [OF assms(1), of T] assms(2,3) by auto
  have "k = T" if "k \<le> T" "T < k + 1" for k using that by simp
  with assms(2) have "set ws = {num T}" unfolding ws(3) by auto
  with ws(1,2) show ?thesis by (cases ws; cases "tl ws") auto
qed

definition lost_before :: "int WindowServer" where
  "lost_before = foldl (window_step lost_setup) (new_window_server lost_config (num 0)) (butlast lost_requests)"

lemma lost_window:
  "0 \<le> T \<Longrightarrow> T \<le> 2 ^ 50 \<Longrightarrow> window_starts \<lparr> y_window_size = num 1, y_slide = num 1, y_start_at = num 0, y_next_window_start = num 0,
       y_emit_empty_windows = False, y_aggregation = Count, y_windows_fired = 0 \<rparr> (num T) = Some [num T]"
  by (rule lost_starts) (simp_all add: whole_schedule_def effective_slide_def feq_def)

definition lost_log :: "int StreamRecord list" where
  "lost_log = [\<lparr> r_partition = 0, r_offset = 0, r_sequence = 1, r_event_time = num 0, r_key = None, r_value = 7, r_kind = Insert \<rparr>,
     \<lparr> r_partition = 0, r_offset = 1, r_sequence = 2, r_event_time = num 100, r_key = None, r_value = 8, r_kind = Insert \<rparr>]"

lemma lost_before_state:
  "\<exists>g. lost_before = \<lparr> v_stream = (\<lparr> z_watermark = None, z_finalized = False, z_max_event_time = Some (num 100), z_updated_at = num 2 \<rparr>,
     [\<lparr> q_partition = 0, q_next_offset = 2, q_max_event_time = Some (num 100), q_watermark = None, q_declared_watermark = None,
        q_last_activity_at = num 2, q_idle = False, q_sealed = False \<rparr>]),
     v_log = lost_log, v_sequence = 2, v_windowing = Some g \<rparr> \<and> y_next_window_start (o_schedule g) = num 0"
  by (simp add: lost_before_def lost_requests_def new_window_server_def open_stream_def new_stream_def new_partition_def lost_config_def upt_rec
    window_step_def create_window_schedule_def lost_setup_def validate_schedule_def effective_slide_def feq_def num_not_NaN
    fire_due_stream_schedules_def numeral_nat window_due_def append_window_record_def append_record_def watermark_delay_def observe_def
    refresh_stream_def refresh_def mark_idle_def least_active_def active_partitions_def reduce_def raise_to_def rs_max_def opt_feq_def
    disposition_def is_too_late_def is_late_def taken_def record_indexed_def index_window_aggregate_def refreshed_def stream_changed_def
    Let_def fsub_num fadd_num lost_window sample_numeric_def index_window_def get_by_def put_by_def aggregate_def fresh_accumulator_def
    pane_of_def key_text_def weight_def no_windows_def lost_log_def)
text \<open>
  C30. Windows can be left behind. There are requests, all in whole numbers, after which the stream is sealed and
  complete and a record that was taken in belongs to a window that is due, yet no sequence of further
  requests starts that window's workflow unless it creates another schedule on the stream: the windows that were
  due at the seal are fired a hundred at a time, and only when the stream changes. The creation of another
  schedule does start it.
\<close>

theorem windows_lost_after_sealing:
  "whole_setup 0 1 1 0 lost_setup \<and> list_all whole_request lost_requests \<and>
   (let w = foldl (window_step lost_setup) (new_window_server (h_config lost_setup) (num 0)) lost_requests in
      z_finalized (fst (v_stream w)) \<and> net_count (h_schedule lost_setup) (v_log w) (num 100, []) = 1
      \<and> (\<forall>fs. list_all same_schedules fs \<longrightarrow> (\<exists>g. v_windowing (foldl (window_step lost_setup) w fs) = Some g
            \<and> window_due (h_config lost_setup) (fst (v_stream w)) (o_schedule g)
            \<and> (num 100, []) \<notin> (\<lambda>f. pane_of (f_window f)) ` set (o_fired g)))
      \<and> (\<exists>g. v_windowing (window_step lost_setup w (CreateOther True)) = Some g
            \<and> (num 100, []) \<in> (\<lambda>f. pane_of (f_window f)) ` set (o_fired g)))"
proof -
  let ?run = "\<lambda>es. foldl (window_step lost_setup) (new_window_server (h_config lost_setup) (num 0)) es"
  let ?w = "?run lost_requests"
  have before: "?run (butlast lost_requests) = lost_before" by (simp add: lost_before_def lost_setup_def)
  obtain g where run: "lost_before = \<lparr> v_stream = (\<lparr> z_watermark = None, z_finalized = False, z_max_event_time = Some (num 100), z_updated_at = num 2 \<rparr>,
     [\<lparr> q_partition = 0, q_next_offset = 2, q_max_event_time = Some (num 100), q_watermark = None, q_declared_watermark = None,
        q_last_activity_at = num 2, q_idle = False, q_sealed = False \<rparr>]),
     v_log = lost_log, v_sequence = 2, v_windowing = Some g \<rparr>" and nxt: "y_next_window_start (o_schedule g) = num 0"
    using lost_before_state by blast
  have g: "v_log lost_before = lost_log" "v_windowing lost_before = Some g" "y_next_window_start (o_schedule g) = num 0"
    "v_stream lost_before = (\<lparr> z_watermark = None, z_finalized = False, z_max_event_time = Some (num 100), z_updated_at = num 2 \<rparr>,
     [\<lparr> q_partition = 0, q_next_offset = 2, q_max_event_time = Some (num 100), q_watermark = None, q_declared_watermark = None,
        q_last_activity_at = num 2, q_idle = False, q_sealed = False \<rparr>])"
    by (simp_all only: run nxt WindowServer.select_convs)
  let ?s = "\<lparr> z_watermark = None, z_finalized = True, z_max_event_time = Some (num 100), z_updated_at = num 3 \<rparr>"
  have split: "lost_requests = butlast lost_requests @ [SealPartition 0 (num 3)]" by (simp add: lost_requests_def)
  have w: "?w = window_step lost_setup lost_before (SealPartition 0 (num 3))"
    by (subst split) (simp only: foldl_append foldl.simps before)
  have sealed: "fst (v_stream ?w) = ?s" "v_log ?w = lost_log"
    "v_windowing ?w = Some (fire_due_stream_schedules (h_scan lost_setup) (h_config lost_setup) ?s g)"
    unfolding w by (simp_all add: window_step_def g seal_partition_def lost_setup_def lost_config_def refreshed_def
        refresh_stream_def refresh_def mark_idle_def least_active_def active_partitions_def reduce_def opt_feq_def feq_def
        num_not_NaN stream_changed_def)
  have whole: "list_all whole_request (butlast lost_requests)" using lost_requests_whole by (simp add: lost_requests_def)
  have inv: "window_inv 0 1 1 0 lost_setup lost_before" unfolding before [symmetric]
    using lost_setup_whole whole by (intro windowed.run_inv) auto
  then obtain m where "windows_at 0 1 1 0 lost_setup (fst (v_stream lost_before)) lost_log m g"
    using g(1,2) by (auto simp: window_inv_def)
  moreover from this have "m = 0" using g(3) by (simp add: windows_at_def)
  ultimately have "windows_at 0 1 1 0 lost_setup ?s lost_log 0 g"
    by (auto intro: windows_at_further simp: further_def g(4))
  then obtain m' where m': "m' \<le> 100" "windows_at 0 1 1 0 lost_setup ?s lost_log m'
      (fire_due_stream_schedules (h_scan lost_setup) (h_config lost_setup) ?s g)"
    and hundred: "m' = 100 \<or> \<not> window_due (h_config lost_setup) ?s
      (o_schedule (fire_due_stream_schedules (h_scan lost_setup) (h_config lost_setup) ?s g))"
    using fire_windows_at [OF lost_setup_whole, of ?s lost_log 0 g 100]
    by (auto simp: fire_due_stream_schedules_def limited_def)
  let ?g = "fire_due_stream_schedules (h_scan lost_setup) (h_config lost_setup) ?s g"
  have count: "net_count (h_schedule lost_setup) lost_log (num 100, []) = 1"
    by (simp add: net_count_def in_pane_def lost_log_def lost_setup_def fadd_num key_text_def weight_def)
  have due: "window_due (h_config lost_setup) ?s (o_schedule ?g)" using m' by (simp add: windows_at_def window_due_def)
  have unfired: "(num 100, []) \<notin> (\<lambda>f. pane_of (f_window f)) ` set (o_fired ?g)"
    using m' by (fastforce simp: windows_at_def pane_of_def)
  let ?g' = "fire_due_stream_schedules (h_scan lost_setup) (h_config lost_setup) ?s ?g"
  obtain m'' where m'': "m' \<le> m''" "windows_at 0 1 1 0 lost_setup ?s lost_log m'' ?g'"
      "m'' = m' + 100 \<or> \<not> window_due (h_config lost_setup) ?s (o_schedule ?g')"
    using fire_windows_at [OF lost_setup_whole m'(2), of 100] by (auto simp: fire_due_stream_schedules_def limited_def)
  have late: "100 < m''"
    using m''(1,3) due hundred m''(2) by (auto simp: windows_at_def window_due_def)
  have fired: "(num 100, []) \<in> (\<lambda>f. pane_of (f_window f)) ` set (o_fired ?g')"
  proof -
    have "window_from 0 1 0 (num 100)" "\<not> window_from 0 1 m'' (num 100)"
      using late window_from_iff [of 1 0 0 "num 100"] window_from_iff [of 1 0 m'' "num 100"] by auto
    with m''(2) count show ?thesis unfolding windows_at_def by simp
  qed
  have other: "v_windowing (window_step lost_setup ?w (CreateOther True)) = Some ?g'"
    using sealed by (simp add: window_step_def other_schedule_created_def lost_setup_def lost_config_def)
  have "v_windowing (foldl (window_step lost_setup) ?w fs) = Some ?g" if "list_all same_schedules fs" for fs
    using sealed that sealed_forever [OF lost_setup_whole lost_requests_whole, of "num 0" ?g fs] by simp
  then have "\<forall>fs. list_all same_schedules fs \<longrightarrow> (\<exists>g. v_windowing (foldl (window_step lost_setup) ?w fs) = Some g
      \<and> window_due (h_config lost_setup) (fst (v_stream ?w)) (o_schedule g)
      \<and> (num 100, []) \<notin> (\<lambda>f. pane_of (f_window f)) ` set (o_fired g))"
    using due unfired by (simp only: sealed(1)) blast
  moreover have "\<exists>g. v_windowing (window_step lost_setup ?w (CreateOther True)) = Some g
      \<and> (num 100, []) \<in> (\<lambda>f. pane_of (f_window f)) ` set (o_fired g)" using other fired by blast
  ultimately show ?thesis using lost_setup_whole lost_requests_whole count unfolding Let_def sealed(1,2) by simp
qed

text \<open>One record, and the seal that fires its window.\<close>

definition one_window :: "int WindowRequest list" where
  "one_window = [CreateSchedule, AppendRecord 0 (num 0) None 7 Insert (num 1), SealPartition 0 (num 2)]"

lemma one_window_whole: "list_all whole_request one_window"
  by (simp add: one_window_def whole_time_def)

definition one_fired :: FiredWindow where
  "one_fired = \<lparr> f_window = \<lparr> e_key = None, e_window_start = num 0, e_window_end = num 1, e_count = 1, e_sum = num 0, e_max = None \<rparr>,
     f_watermark = None, f_finalized = True \<rparr>"

lemma one_window_run:
  "let w = foldl (window_step lost_setup) (new_window_server (h_config lost_setup) (num 0)) one_window in
   v_log w = [\<lparr> r_partition = 0, r_offset = 0, r_sequence = 1, r_event_time = num 0, r_key = None, r_value = 7, r_kind = Insert \<rparr>]
   \<and> z_finalized (fst (v_stream w)) \<and> (\<exists>g. v_windowing w = Some g \<and> o_fired g = [one_fired])"
  by (simp add: one_window_def one_fired_def new_window_server_def open_stream_def new_stream_def new_partition_def lost_config_def
    upt_rec window_step_def create_window_schedule_def lost_setup_def validate_schedule_def effective_slide_def feq_def num_not_NaN
    fire_due_stream_schedules_def numeral_nat window_due_def append_window_record_def append_record_def watermark_delay_def observe_def
    refresh_stream_def refresh_def mark_idle_def least_active_def active_partitions_def reduce_def raise_to_def rs_max_def opt_feq_def
    disposition_def is_too_late_def is_late_def taken_def record_indexed_def index_window_aggregate_def refreshed_def stream_changed_def
    Let_def fsub_num fadd_num lost_window sample_numeric_def index_window_def get_by_def put_by_def aggregate_def fresh_accumulator_def
    pane_of_def key_text_def weight_def no_windows_def seal_partition_def fire_window_def fire_accumulator_def start_window_workflow_def
    delete_by_def)

lemma fired_windows_final_witness:
  "\<exists>g. v_windowing (foldl (window_step lost_setup) (new_window_server (h_config lost_setup) (num 0)) one_window) = Some g
    \<and> final_window lost_setup (v_log (foldl (window_step lost_setup) (new_window_server (h_config lost_setup) (num 0)) one_window))
        (f_window one_fired)"
proof -
  obtain g where g: "v_windowing (foldl (window_step lost_setup) (new_window_server (h_config lost_setup) (num 0)) one_window) = Some g"
    "o_fired g = [one_fired]" using one_window_run by (auto simp: Let_def)
  with fired_windows_final [OF lost_setup_whole one_window_whole g(1)] show ?thesis by (simp add: Let_def)
qed

lemma window_not_early_witness:
  "\<exists>S. e_window_start (f_window one_fired) = num S
    \<and> (f_finalized one_fired \<or> (\<exists>x. f_watermark one_fired = Some x \<and> fle (num (S + 1 + 0)) x))"
proof -
  obtain g where g: "v_windowing (foldl (window_step lost_setup) (new_window_server (h_config lost_setup) (num 0)) one_window) = Some g"
    "one_fired \<in> set (o_fired g)" using one_window_run by (auto simp: Let_def)
  from window_not_early [OF lost_setup_whole one_window_whole g] show ?thesis .
qed

lemma sealed_stream_fires_no_more_witness:
  "\<exists>g. v_windowing (foldl (window_step lost_setup) (new_window_server (h_config lost_setup) (num 0))
      (one_window @ [MaintainTick (num 9), SealPartition 0 (num 10)])) = Some g \<and> o_fired g = [one_fired]"
proof -
  obtain g where g: "z_finalized (fst (v_stream (foldl (window_step lost_setup) (new_window_server (h_config lost_setup) (num 0)) one_window)))"
    "v_windowing (foldl (window_step lost_setup) (new_window_server (h_config lost_setup) (num 0)) one_window) = Some g"
    "o_fired g = [one_fired]" using one_window_run by (auto simp: Let_def)
  have "list_all same_schedules [MaintainTick (num 9), SealPartition 0 (num 10) :: int WindowRequest]" by simp
  from sealed_stream_fires_no_more [OF lost_setup_whole one_window_whole g(1,2) this] g(3) show ?thesis by blast
qed

lemma windows_lost_after_sealing_witness:
  "\<exists>g. v_windowing (foldl (window_step lost_setup) (foldl (window_step lost_setup) (new_window_server (h_config lost_setup) (num 0))
      lost_requests) [MaintainTick (num 9), SealPartition 0 (num 10)]) = Some g
    \<and> (num 100, []) \<notin> (\<lambda>f. pane_of (f_window f)) ` set (o_fired g)"
proof -
  have "list_all same_schedules [MaintainTick (num 9), SealPartition 0 (num 10) :: int WindowRequest]" by simp
  with windows_lost_after_sealing show ?thesis unfolding Let_def by blast
qed

end
