(* ===== verification/WindowsFraction.thy ===== *)
theory WindowsFraction
  imports WindowsFinal
begin

text \<open>
  What window aggregation does with a schedule in fractions. The starts of the windows are computed in
  two ways: a record is put under \<open>start_at + k * slide\<close>, a product, while windows fire at \<open>start_at\<close> plus
  \<open>slide\<close>, again and again. In doubles the two differ, and what they differ in is never fired. At the end: a
  time that is counted in two tumbling windows, and one for which the search for windows does not end.
\<close>

section \<open>A tenth\<close>

text \<open>The doubles \<open>0.1\<close> and \<open>0.65\<close>.\<close>

definition tenth :: f64 where
  "tenth = Fin (3602879701896397 / 36028797018963968)"

definition between_windows :: f64 where
  "between_windows = Fin (5854679515581645 / 9007199254740992)"

definition tenths :: WindowSchedule where
  "tenths = \<lparr> y_window_size = tenth, y_slide = tenth, y_start_at = num 0, y_next_window_start = num 0,
     y_emit_empty_windows = False, y_aggregation = Count, y_windows_fired = 0 \<rparr>"

text \<open>The start that the code finds for the window of \<open>0.65\<close>: six times \<open>0.1\<close>.\<close>

definition sixth_start :: f64 where
  "sixth_start = Fin (1351079888211149 / 2251799813685248)"

lemma tenth_sum_1: "fadd (Fin (3602879701896397 / 36028797018963968)) tenth = Fin (3602879701896397 / 18014398509481984)"
  using mk64_nearest [of "- 55" "3602879701896397 / 36028797018963968 + 3602879701896397 / 36028797018963968" 7205759403792794] by (simp add: tenth_def pow2_def nearest_def)

lemma tenth_sum_2: "fadd (Fin (3602879701896397 / 18014398509481984)) tenth = Fin (1351079888211149 / 4503599627370496)"
  using mk64_nearest [of "- 54" "3602879701896397 / 18014398509481984 + 3602879701896397 / 36028797018963968" 5404319552844596] by (simp add: tenth_def pow2_def nearest_def)

lemma tenth_sum_3: "fadd (Fin (1351079888211149 / 4503599627370496)) tenth = Fin (3602879701896397 / 9007199254740992)"
  using mk64_nearest [of "- 54" "1351079888211149 / 4503599627370496 + 3602879701896397 / 36028797018963968" 7205759403792794] by (simp add: tenth_def pow2_def nearest_def)

lemma tenth_sum_4: "fadd (Fin (3602879701896397 / 9007199254740992)) tenth = Fin (1 / 2)"
  using mk64_nearest [of "- 53" "3602879701896397 / 9007199254740992 + 3602879701896397 / 36028797018963968" 4503599627370496] by (simp add: tenth_def pow2_def nearest_def)

lemma tenth_sum_5: "fadd (Fin (1 / 2)) tenth = Fin (5404319552844595 / 9007199254740992)"
  using mk64_nearest [of "- 53" "1 / 2 + 3602879701896397 / 36028797018963968" 5404319552844595] by (simp add: tenth_def pow2_def nearest_def)

lemma tenth_sum_6: "fadd (Fin (5404319552844595 / 9007199254740992)) tenth = Fin (3152519739159347 / 4503599627370496)"
  using mk64_nearest [of "- 53" "5404319552844595 / 9007199254740992 + 3602879701896397 / 36028797018963968" 6305039478318694] by (simp add: tenth_def pow2_def nearest_def)

lemma tenth_sum_0: "fadd (num 0) tenth = tenth"
  using mk64_nearest [of "- 56" "3602879701896397 / 36028797018963968" 7205759403792794] by (simp add: tenth_def num_def pow2_def nearest_def)

lemma tenth_quotient: "fdiv between_windows tenth = Fin (13 / 2)"
  using mk64_nearest [of "- 50" "23418718062326580 / 3602879701896397" 7318349394477056] by (simp add: between_windows_def tenth_def pow2_def nearest_def)

lemma tenth_product: "fmul (num 6) tenth = sixth_start"
  using mk64_nearest [of "- 53" "10808639105689191 / 18014398509481984" 5404319552844596] by (simp add: sixth_start_def tenth_def num_def pow2_def nearest_def)

lemma tenth_diff: "fsub between_windows (num 0) = between_windows" "fadd (num 0) sixth_start = sixth_start"
  using mk64_nearest [of "- 53" "5854679515581645 / 9007199254740992" 5854679515581645] mk64_nearest [of "- 53" "1351079888211149 / 2251799813685248" 5404319552844596]
  by (simp_all add: between_windows_def sixth_start_def num_def fsub_def pow2_def nearest_def)

text \<open>The window before it does not contain \<open>0.65\<close>, and it ends after.\<close>

lemma tenth_window: "flt between_windows (fadd sixth_start tenth)"
proof -
  have "fle (Fin (44 / 64)) (fadd sixth_start tenth)"
    using mk64_ge [of 44] by (simp add: sixth_start_def tenth_def)
  then show ?thesis by (cases "fadd sixth_start tenth") (auto simp: between_windows_def flt_def feq_def)
qed

lemma tenth_window_before: "\<not> flt between_windows (fadd (fsub sixth_start tenth) tenth)"
proof -
  have "fle (fsub sixth_start tenth) (Fin (34 / 64))"
    using mk64_le [of 34] by (simp add: sixth_start_def tenth_def fsub_def)
  moreover have "fle (Fin (32 / 64)) (fsub sixth_start tenth)"
    using mk64_ge [of 32] by (simp add: sixth_start_def tenth_def fsub_def)
  ultimately obtain r where r: "fsub sixth_start tenth = Fin r" "r \<le> 34 / 64" by (cases "fsub sixth_start tenth") auto
  have "fle (fadd (Fin r) tenth) (Fin (41 / 64))" using r(2) mk64_le [of 41] by (simp add: tenth_def)
  then show ?thesis unfolding r(1) by (cases "fadd (Fin r) tenth") (auto simp: between_windows_def flt_def)
qed

lemma tenth_starts: "window_starts tenths between_windows = Some [sixth_start]"
proof -
  have slide: "effective_slide tenths = tenth" by (simp add: effective_slide_def tenths_def feq_def tenth_def num_def)
  have floor: "js_floor (Fin (13 / 2)) = num 6" by (simp add: num_def floor_eq_iff)
  have fields: "y_start_at tenths = num 0" "y_window_size tenths = tenth" by (simp_all add: tenths_def)
  have past: "starts_from tenths between_windows (fsub sixth_start tenth) = Some []"
    by (subst starts_from.simps) (simp add: fields tenth_window_before)
  have ends: "fle (num 0) sixth_start" "\<not> flt sixth_start tenth" by (simp_all add: sixth_start_def tenth_def num_def)
  have "starts_from tenths between_windows sixth_start = Some [sixth_start]"
    by (subst starts_from.simps) (simp add: fields slide tenth_window tenth_sum_0 past ends)
  moreover have "\<not> flt between_windows (num 0)" by (simp add: between_windows_def num_def)
  moreover have "window_starts tenths between_windows = starts_from tenths between_windows sixth_start"
    using calculation(2) unfolding window_starts_def fields slide tenth_diff(1) tenth_quotient floor tenth_product tenth_diff(2)
    by simp
  ultimately show ?thesis by simp
qed

section \<open>The starts that fire\<close>

text \<open>The starts that firing visits.\<close>

definition visited :: "WindowSchedule \<Rightarrow> f64 \<Rightarrow> bool" where
  "visited s w \<longleftrightarrow> (\<exists>n. w = ((\<lambda>x. fadd x (effective_slide s)) ^^ n) (y_start_at s))"

lemma visited_next: "visited s w \<Longrightarrow> visited s (fadd w (effective_slide s))"
  unfolding visited_def by (metis comp_apply funpow.simps(2))

lemma visited_start: "visited s (y_start_at s)"
  unfolding visited_def by (rule exI [of _ 0]) simp

definition fires_visited :: "WindowSchedule \<Rightarrow> Windowing \<Rightarrow> bool" where
  "fires_visited s g \<longleftrightarrow> same_windows s (o_schedule g) \<and> visited s (y_next_window_start (o_schedule g))
     \<and> (\<forall>f \<in> set (o_fired g). visited s (e_window_start (f_window f)))"

lemma start_workflow_visited:
  "\<forall>f \<in> set fired. visited s (e_window_start (f_window f)) \<Longrightarrow> visited s (e_window_start a) \<Longrightarrow>
    \<forall>f \<in> set (start_window_workflow state a fired). visited s (e_window_start (f_window f))"
  by (auto simp: start_window_workflow_def)

lemma fire_accumulators_visited:
  "fires_visited s g \<Longrightarrow> \<forall>a \<in> set as. visited s (e_window_start a) \<Longrightarrow> fires_visited s (foldl (fire_accumulator state) g as)
    \<and> y_next_window_start (o_schedule (foldl (fire_accumulator state) g as)) = y_next_window_start (o_schedule g)"
proof (induction as arbitrary: g)
  case (Cons a as)
  have "fires_visited s (fire_accumulator state g a)"
    using Cons.prems start_workflow_visited [of "o_fired g" s a state]
    by (auto simp: fires_visited_def fire_accumulator_def same_windows_def)
  from Cons.IH [OF this] Cons.prems show ?case by (simp add: fire_accumulator_def)
qed simp

lemma effective_slide_same: "same_windows s s' \<Longrightarrow> effective_slide s' = effective_slide s"
  by (simp add: same_windows_def effective_slide_def)

lemma fire_window_visited:
  assumes g: "fires_visited s g" and scan: "scans scan"
  shows "fires_visited s (fire_window scan state g)"
proof -
  let ?s = "o_schedule g"
  let ?N = "y_next_window_start ?s" and ?as = "scan (filter (\<lambda>a. e_window_start a = y_next_window_start ?s) (a_accumulators (o_state g)))"
  define g1 where "g1 = (if ?as = [] \<and> y_emit_empty_windows ?s
    then g\<lparr> o_fired := start_window_workflow state (fresh_accumulator ?s ?N None) (o_fired g),
            o_schedule := ?s\<lparr> y_windows_fired := y_windows_fired ?s + 1 \<rparr> \<rparr> else g)"
  have N: "visited s ?N" and same: "same_windows s ?s" using g by (auto simp: fires_visited_def)
  have "fires_visited s g1"
    using g N start_workflow_visited [of "o_fired g" s "fresh_accumulator ?s ?N None" state]
    by (auto simp: g1_def fires_visited_def same_windows_def fresh_accumulator_def)
  moreover have "\<forall>a \<in> set ?as. visited s (e_window_start a)"
    using N by (auto simp: set_scans [OF scan])
  ultimately have "fires_visited s (foldl (fire_accumulator state) g1 ?as)" by (simp add: fire_accumulators_visited)
  moreover have "fire_window scan state g = (foldl (fire_accumulator state) g1 ?as)
      \<lparr> o_schedule := (o_schedule (foldl (fire_accumulator state) g1 ?as))\<lparr> y_next_window_start := fadd ?N (effective_slide ?s) \<rparr> \<rparr>"
    by (simp add: fire_window_def Let_def g1_def)
  ultimately show ?thesis using visited_next [OF N] effective_slide_same [OF same]
    by (simp add: fires_visited_def same_windows_def)
qed

lemma fire_windows_visited: "fires_visited s g \<Longrightarrow> scans scan \<Longrightarrow> fires_visited s (fire_windows scan config state n g)"
  by (induction n arbitrary: g) (auto intro: fire_window_visited)

lemma window_step_visited:
  assumes scan: "scans (h_scan h)" and w: "\<And>g. v_windowing w = Some g \<Longrightarrow> fires_visited (h_schedule h) g"
    and g: "v_windowing (window_step h w e) = Some g"
  shows "fires_visited (h_schedule h) g"
proof -
  have refreshed: "fires_visited (h_schedule h) g'" if "v_windowing (refreshed h st u) = Some g'"
    "\<And>g. v_windowing u = Some g \<Longrightarrow> fires_visited (h_schedule h) g" for st u g'
    using that scan by (auto simp: refreshed_def fire_due_stream_schedules_def intro: fire_windows_visited split: if_splits)
  have created: "fires_visited (h_schedule h) \<lparr> o_schedule = (h_schedule h)
      \<lparr> y_next_window_start := y_start_at (h_schedule h), y_windows_fired := 0 \<rparr>, o_state = st, o_fired = [] \<rparr>" for st
    using visited_start by (simp add: fires_visited_def same_windows_def)
  show ?thesis
  proof (cases "window_transaction h w e")
    case None
    with g w show ?thesis by (simp add: window_step_def)
  next
    case (Some w')
    with g have g': "v_windowing w' = Some g" by (simp add: window_step_def)
    show ?thesis
    proof (cases e)
      case (AppendRecord k t key val kind now)
      then obtain d st where app: "append_record (h_config h) k t now (v_stream w) = Inr (d, st)"
        using Some by (auto simp: append_window_record_def split: sum.splits)
      obtain u where u: "w' = refreshed h st u" "\<And>g. v_windowing u = Some g \<Longrightarrow> fires_visited (h_schedule h) g"
      proof (cases "taken d")
        case True
        with Some AppendRecord app obtain r gs where r: "record_indexed h r (v_windowing w) = Some gs"
          "w' = refreshed h st (w\<lparr> v_sequence := v_sequence w + 1, v_log := v_log w @ [r], v_windowing := gs \<rparr>)"
          by (auto simp: append_window_record_def Let_def)
        show thesis
        proof (rule that [OF r(2)])
          fix g'' assume "v_windowing (w\<lparr> v_sequence := v_sequence w + 1, v_log := v_log w @ [r], v_windowing := gs \<rparr>) = Some g''"
          with r(1) w show "fires_visited (h_schedule h) g''"
            by (auto simp: record_indexed_def fires_visited_def split: option.splits sum.splits)
        qed
      next
        case False
        with Some AppendRecord app w show thesis by (auto simp: append_window_record_def Let_def intro: that)
      qed
      with refreshed g' show ?thesis by blast
    next
      case CreateSchedule
      with Some g' w show ?thesis
        by (auto simp: create_window_schedule_def Let_def fire_due_stream_schedules_def fire_windows_visited [OF created scan]
            split: if_splits option.splits sum.splits)
    next
      case (CreateOther ok)
      then obtain z where z: "v_windowing w = Some z"
        "g = fire_windows (h_scan h) (h_config h) (fst (v_stream w)) 100 z"
        using Some g' by (auto simp: other_schedule_created_def fire_due_stream_schedules_def split: if_splits)
      show ?thesis unfolding z(2) by (rule fire_windows_visited [OF w [OF z(1)] scan])
    next
      case (MaintainTick now)
      with Some have "w' = refreshed h (refresh_stream (h_config h) now (v_stream w)) w" by simp
      with g' w show ?thesis using refreshed by blast
    qed (use Some g' w refreshed in \<open>auto split: sum.splits\<close>)
  qed
qed

section \<open>A window that never fires\<close>

lemma tenth_slide: "effective_slide tenths = tenth"
  by (simp add: effective_slide_def tenths_def feq_def tenth_def num_def)

lemma tenths_later: "fle (Fin (3152519739159347 / 4503599627370496)) (((\<lambda>x. fadd x tenth) ^^ n) (Fin (3152519739159347 / 4503599627370496)))"
proof (induction n)
  case (Suc n)
  let ?x = "((\<lambda>x. fadd x tenth) ^^ n) (Fin (3152519739159347 / 4503599627370496))"
  have exact: "mk64 (3152519739159347 / 4503599627370496) = Fin (3152519739159347 / 4503599627370496)"
    using mk64_nearest [of "- 53" "3152519739159347 / 4503599627370496" 6305039478318694] by (simp add: pow2_def nearest_def)
  show ?case
  proof (cases ?x)
    case (Fin q)
    with Suc have "3152519739159347 / 4503599627370496 \<le> q + 3602879701896397 / 36028797018963968" by simp
    from mk64_mono [OF this] Fin show ?thesis by (simp add: tenth_def exact)
  qed (use Suc in \<open>auto simp: tenth_def\<close>)
qed simp

lemma sixth_not_visited: "\<not> visited tenths sixth_start"
proof
  assume "visited tenths sixth_start"
  then obtain n where n: "sixth_start = ((\<lambda>x. fadd x tenth) ^^ n) (num 0)"
    by (auto simp: visited_def tenth_slide) (auto simp: tenths_def)
  note steps = tenth_sum_0 tenth_sum_1 tenth_sum_2 tenth_sum_3 tenth_sum_4 tenth_sum_5 tenth_sum_6
  have seven: "((\<lambda>x. fadd x tenth) ^^ 7) (num 0) = Fin (3152519739159347 / 4503599627370496)"
    using steps by (simp add: numeral_nat tenth_def)
  show False
  proof (cases "n < 7")
    case True
    then consider "n = 0" | "n = 1" | "n = 2" | "n = 3" | "n = 4" | "n = 5" | "n = 6" by linarith
    then show False using n steps by cases (simp_all add: numeral_nat sixth_start_def tenth_def num_def)
  next
    case False
    then have "((\<lambda>x. fadd x tenth) ^^ n) (num 0) = ((\<lambda>x. fadd x tenth) ^^ (n - 7)) (((\<lambda>x. fadd x tenth) ^^ 7) (num 0))"
      by (simp flip: funpow_add [unfolded comp_def, THEN fun_cong])
    then have "fle (Fin (3152519739159347 / 4503599627370496)) sixth_start"
      unfolding n seven using tenths_later [of "n - 7"] by simp
    then show False by (simp add: sixth_start_def)
  qed
qed

text \<open>A server with that schedule.\<close>

definition tenths_setup :: "int WindowSetup" where
  "tenths_setup = lost_setup\<lparr> h_schedule := tenths \<rparr>"

text \<open>
  C33. Windows in fractions can be lost. A schedule of windows of \<open>0.1\<close> from \<open>0\<close> is accepted. A record at
  \<open>0.65\<close> is counted in one window only, which starts at six times \<open>0.1\<close> as a double. No sequence of
  requests fires a window with that start: the windows that fire start at \<open>0.1\<close> added up, which passes
  it by.
\<close>

theorem fractional_window_never_fires:
  "validate_schedule tenths \<and> window_starts tenths between_windows = Some [sixth_start] \<and>
   (\<forall>es now. case v_windowing (foldl (window_step tenths_setup) (new_window_server (h_config tenths_setup) now) es) of
      None \<Rightarrow> True | Some g \<Rightarrow> sixth_start \<notin> (\<lambda>f. e_window_start (f_window f)) ` set (o_fired g))"
proof -
  have scan: "scans (h_scan tenths_setup)" by (simp add: tenths_setup_def lost_setup_def scans_def)
  have s: "h_schedule tenths_setup = tenths" by (simp add: tenths_setup_def)
  have all: "fires_visited tenths g"
    if "v_windowing (foldl (window_step tenths_setup) (new_window_server (h_config tenths_setup) now) es) = Some g" for g es now
    using that
  proof (induction es arbitrary: g rule: rev_induct)
    case Nil
    then show ?case by (simp add: new_window_server_def)
  next
    case (snoc e es)
    with window_step_visited [OF scan, of "foldl (window_step tenths_setup) (new_window_server (h_config tenths_setup) now) es" e g]
    show ?case by (simp add: s)
  qed
  have "validate_schedule tenths"
    unfolding validate_schedule_def tenth_slide by (simp add: tenths_def tenth_def num_def)
  moreover have "sixth_start \<notin> (\<lambda>f. e_window_start (f_window f)) ` set (o_fired g)" if "fires_visited tenths g" for g
    using that sixth_not_visited by (auto simp: fires_visited_def)
  ultimately show ?thesis using tenth_starts all by (auto split: option.splits)
qed

section \<open>Windows beyond whole numbers\<close>

text \<open>Tumbling windows of \<open>0.02\<close>, and the time \<open>480.4\<close>: the code counts a record at that time in two windows, of
  which the first starts after it.\<close>

definition fiftieths :: WindowSchedule where
  "fiftieths = tenths\<lparr> y_window_size := Fin (5764607523034235 / 288230376151711744), y_slide := Fin (5764607523034235 / 288230376151711744) \<rparr>"

lemma fiftieth_steps:
  "fsub (Fin (4225643087868723 / 8796093022208)) (num 0) = Fin (4225643087868723 / 8796093022208)"
  "fdiv (Fin (4225643087868723 / 8796093022208)) (Fin (5764607523034235 / 288230376151711744)) = num 24020"
  "fmul (num 24020) (Fin (5764607523034235 / 288230376151711744)) = Fin (8451286175737447 / 17592186044416)"
  "fadd (num 0) (Fin (8451286175737447 / 17592186044416)) = Fin (8451286175737447 / 17592186044416)"
  "fadd (num 0) (Fin (5764607523034235 / 288230376151711744)) = Fin (5764607523034235 / 288230376151711744)"
  using mk64_nearest [of "- 44" "4225643087868723 / 8796093022208" 8451286175737446] mk64_nearest [of "- 38" "(4225643087868723 / 8796093022208) / (5764607523034235 / 288230376151711744)" 6602567324794880]
    mk64_nearest [of "- 44" "24020 * (5764607523034235 / 288230376151711744)" 8451286175737447] mk64_nearest [of "- 44" "8451286175737447 / 17592186044416" 8451286175737447]
    mk64_nearest [of "- 58" "5764607523034235 / 288230376151711744" 5764607523034235]
  by (simp_all add: fsub_def num_def pow2_def nearest_def)

lemma fiftieth_windows:
  "fadd (Fin (8451286175737447 / 17592186044416)) (Fin (5764607523034235 / 288230376151711744)) = Fin (8451638019458335 / 17592186044416)"
  "fsub (Fin (8451286175737447 / 17592186044416)) (Fin (5764607523034235 / 288230376151711744)) = Fin (8450934332016559 / 17592186044416)"
  "fadd (Fin (8450934332016559 / 17592186044416)) (Fin (5764607523034235 / 288230376151711744)) = Fin (8451286175737447 / 17592186044416)"
  "fsub (Fin (8450934332016559 / 17592186044416)) (Fin (5764607523034235 / 288230376151711744)) = Fin (8450582488295671 / 17592186044416)"
  "fadd (Fin (8450582488295671 / 17592186044416)) (Fin (5764607523034235 / 288230376151711744)) = Fin (8450934332016559 / 17592186044416)"
  using mk64_nearest [of "- 44" "8451286175737447 / 17592186044416 + 5764607523034235 / 288230376151711744" 8451638019458335] mk64_nearest [of "- 44" "8451286175737447 / 17592186044416 - 5764607523034235 / 288230376151711744" 8450934332016559]
    mk64_nearest [of "- 44" "8450934332016559 / 17592186044416 + 5764607523034235 / 288230376151711744" 8451286175737447] mk64_nearest [of "- 44" "8450934332016559 / 17592186044416 - 5764607523034235 / 288230376151711744" 8450582488295671]
    mk64_nearest [of "- 44" "8450582488295671 / 17592186044416 + 5764607523034235 / 288230376151711744" 8450934332016559]
  by (simp_all add: fsub_def num_def pow2_def nearest_def)

lemma counted_twice:
  "window_starts fiftieths (Fin (4225643087868723 / 8796093022208)) = Some [Fin (8451286175737447 / 17592186044416), Fin (8450934332016559 / 17592186044416)]"
  "flt (Fin (4225643087868723 / 8796093022208)) (Fin (8451286175737447 / 17592186044416))"
proof -
  have fields: "y_start_at fiftieths = num 0" "y_window_size fiftieths = Fin (5764607523034235 / 288230376151711744)"
    "effective_slide fiftieths = Fin (5764607523034235 / 288230376151711744)"
    by (simp_all add: fiftieths_def tenths_def effective_slide_def feq_def num_def)
  have "starts_from fiftieths (Fin (4225643087868723 / 8796093022208)) (Fin (8450582488295671 / 17592186044416)) = Some []"
    by (subst starts_from.simps) (simp only: fields fiftieth_windows, simp)
  then have "starts_from fiftieths (Fin (4225643087868723 / 8796093022208)) (Fin (8450934332016559 / 17592186044416)) = Some [Fin (8450934332016559 / 17592186044416)]"
    by (subst starts_from.simps) (simp only: fields fiftieth_windows fiftieth_steps(5), simp)
  then have starts: "starts_from fiftieths (Fin (4225643087868723 / 8796093022208)) (Fin (8451286175737447 / 17592186044416)) = Some [Fin (8451286175737447 / 17592186044416), Fin (8450934332016559 / 17592186044416)]"
    by (subst starts_from.simps) (simp only: fields fiftieth_windows fiftieth_steps(5), simp)
  have floor: "js_floor (num 24020) = num 24020" by (simp add: num_def)
  show "window_starts fiftieths (Fin (4225643087868723 / 8796093022208)) = Some [Fin (8451286175737447 / 17592186044416), Fin (8450934332016559 / 17592186044416)]"
    using starts unfolding window_starts_def fields fiftieth_steps(1,2) floor fiftieth_steps(3,4) by (simp add: num_def)
qed simp

text \<open>Windows of \<open>10\<close> with slide \<open>1\<close>, and a time of \<open>10 ^ 17\<close>, where neighbouring doubles are \<open>16\<close> apart: one slide
  back is the same start, and the loop does not end.\<close>

definition unit_slides :: WindowSchedule where
  "unit_slides = tenths\<lparr> y_window_size := num 10, y_slide := num 1 \<rparr>"

lemma far_steps:
  "fsub (num (10 ^ 17)) (num 0) = num (10 ^ 17)" "fdiv (num (10 ^ 17)) (num 1) = num (10 ^ 17)"
  "fmul (num (10 ^ 17)) (num 1) = num (10 ^ 17)" "fadd (num 0) (num (10 ^ 17)) = num (10 ^ 17)"
  "fadd (num (10 ^ 17)) (num 10) = num (10 ^ 17 + 16)" "fsub (num (10 ^ 17)) (num 1) = num (10 ^ 17)"
  using mk64_nearest [of 4 "10 ^ 17" 6250000000000000] mk64_nearest [of 4 "10 ^ 17 + 10" 6250000000000001]
    mk64_nearest [of 4 "10 ^ 17 - 1" 6250000000000000]
  by (simp_all add: fsub_def num_def pow2_def nearest_def)

lemma loop_never_ends:
  assumes "fle (y_start_at s) w \<and> flt t (fadd w (y_window_size s)) \<and> \<not> flt w (fadd (y_start_at s) (effective_slide s))"
    and "fsub w (effective_slide s) = w"
  shows "starts_from s t w = None"
proof (rule ccontr)
  assume "starts_from s t w \<noteq> None"
  then obtain ws where "starts_from s t w = Some ws" by blast
  then have "(s, t, w) \<noteq> (s, t, w)"
  proof (rule starts_from.raw_induct [where P = "\<lambda>s' t' w' ws'. (s', t', w') \<noteq> (s, t, w)", rotated])
    fix f s' t' w' ws'
    assume IH: "\<And>s' t' w' ws'. f s' t' w' = Some ws' \<Longrightarrow> (s', t', w') \<noteq> (s, t, w)"
      and run: "(if fle (y_start_at s') w' \<and> flt t' (fadd w' (y_window_size s'))
         then (if flt w' (fadd (y_start_at s') (effective_slide s')) then Some [w']
               else Option.bind (f s' t' (fsub w' (effective_slide s'))) (\<lambda>rest. Some (w' # rest)))
         else Some []) = Some ws'"
    show "(s', t', w') \<noteq> (s, t, w)"
    proof
      assume same: "(s', t', w') = (s, t, w)"
      then obtain rest where "f s t w = Some rest" using run assms by (auto simp: bind_eq_Some_conv)
      from IH [OF this] show False by simp
    qed
  qed
  then show False by simp
qed

lemma window_loop_never_ends: "validate_schedule unit_slides" "window_starts unit_slides (num (10 ^ 17)) = None"
proof -
  have fields: "y_start_at unit_slides = num 0" "y_window_size unit_slides = num 10" "effective_slide unit_slides = num 1"
    by (simp_all add: unit_slides_def tenths_def effective_slide_def feq_def)
  show "validate_schedule unit_slides" unfolding validate_schedule_def fields by (simp add: unit_slides_def tenths_def num_def)
  have "starts_from unit_slides (num (10 ^ 17)) (num (10 ^ 17)) = None"
    by (rule loop_never_ends) (unfold fields far_steps, simp_all add: fadd_num)
  moreover have "js_floor (num (10 ^ 17)) = num (10 ^ 17)" by (simp add: num_def)
  ultimately show "window_starts unit_slides (num (10 ^ 17)) = None"
    unfolding window_starts_def fields by (simp only: far_steps(1-4) if_False flt_num) simp
qed

end
