(* ===== verification/ConsoleServer.thy ===== *)
theory ConsoleServer
  imports ConsoleViews
begin

text \<open>
  The part of the server that answers the console, \<open>crates/server/src/console.rs\<close>: the summaries of
  workflows for the overview and for a run's page, the selection and order of the overview's rows,
  its counts and the durability status, composed with the console that renders them.

  An answer is modelled as the console reads it (the fields of its \<open>types.ts\<close>). The stores behind the
  summaries of streams, processes and operators are parameters.
\<close>

section \<open>Summaries\<close>

record WorkflowRecord =
  v_workflow_id :: jsstr
  v_workflow_type :: jsstr
  v_status :: jsstr
  v_result :: "json option"
  v_error :: "jsstr option"
  v_task_queue :: jsstr
  v_build_id :: "jsstr option"
  v_created_at :: f64
  v_updated_at :: f64

text \<open>\<open>"result": workflow.result\<close> serialises a missing result as \<open>null\<close>.\<close>

definition workflow_summary :: "WorkflowRecord \<Rightarrow> nat \<Rightarrow> nat \<Rightarrow> Workflow" where
  "workflow_summary w history_events retries =
     \<lparr> w_workflow_id = v_workflow_id w, w_workflow_type = v_workflow_type w, w_status = v_status w,
       w_retries = num_of_nat retries, w_history_events = num_of_nat history_events,
       w_duration_seconds = fsub (v_updated_at w) (v_created_at w), w_created_at = v_created_at w,
       w_updated_at = v_updated_at w, w_task_queue = v_task_queue w, w_build_id = v_build_id w,
       w_result = Some (case v_result w of None \<Rightarrow> JNull | Some v \<Rightarrow> v), w_error = v_error w \<rparr>"

definition workflow_overview_summary :: "WorkflowRecord \<Rightarrow> Workflow" where
  "workflow_overview_summary w = workflow_summary w 0 0"

definition counts_as_retry :: "HistoryEvent \<Rightarrow> bool" where
  "counts_as_retry e \<longleftrightarrow> h_type e = lit ''ACTIVITY_RETRY_SCHEDULED'' \<or> h_type e = lit ''WORKFLOW_TASK_FAILED''"

definition workflow_summary_from_events :: "WorkflowRecord \<Rightarrow> HistoryEvent list \<Rightarrow> Workflow" where
  "workflow_summary_from_events w events =
     workflow_summary w (length events) (length (filter counts_as_retry events))"

definition is_process_activation :: "WorkflowRecord \<Rightarrow> bool" where
  "is_process_activation w \<longleftrightarrow> starts_with (v_workflow_id w) (lit ''process/'')"

section \<open>The overview\<close>

definition newer :: "WorkflowRecord \<Rightarrow> WorkflowRecord \<Rightarrow> bool" where
  "newer left right \<longleftrightarrow> total_le (v_updated_at right) (v_updated_at left)"

text \<open>The stored workflows in the order of their keys; the first 500 are read.\<close>

definition overview_workflows :: "WorkflowRecord list \<Rightarrow> WorkflowRecord list" where
  "overview_workflows stored = take 100 (sort_by newer (filter (\<lambda>w. \<not> is_process_activation w) (take 500 stored)))"

definition durability_status :: "nat \<Rightarrow> nat \<Rightarrow> nat \<Rightarrow> nat \<Rightarrow> jsstr" where
  "durability_status owners active_owners key_groups active_key_groups =
     (if active_owners = owners \<and> active_key_groups = key_groups then lit ''HEALTHY'' else lit ''DEGRADED'')"

definition status_count :: "string \<Rightarrow> WorkflowRecord list \<Rightarrow> f64" where
  "status_count status ws = num_of_nat (length (filter (\<lambda>w. v_status w = lit status) ws))"

definition console_overview :: "f64 \<Rightarrow> WorkflowRecord list \<Rightarrow> Stream list \<Rightarrow> Process list \<Rightarrow> Operator list
    \<Rightarrow> Durability \<Rightarrow> Overview" where
  "console_overview now stored streams processes operators durability =
     (let workflows = overview_workflows stored; rows = map workflow_overview_summary workflows
      in \<lparr> ov_environment = lit ''demo'', ov_generated_at = now,
           ov_counts = \<lparr> c_workflows = num_of_nat (length workflows),
             c_running_workflows = status_count ''RUNNING'' workflows,
             c_failed_workflows = status_count ''FAILED'' workflows,
             c_streams = num_of_nat (length streams), c_processes = num_of_nat (length processes),
             c_operators = num_of_nat (length operators),
             c_recovered_workflows = Some (num_of_nat (length (filter recovered_run rows))) \<rparr>,
           ov_workflows = rows, ov_streams = streams, ov_operators = operators, ov_processes = processes,
           ov_durability = Some durability \<rparr>)"

section \<open>Recoveries never reach the overview\<close>

lemma overview_row_not_recovered: "\<not> recovered_run (workflow_overview_summary w)"
  by (simp add: recovered_run_def workflow_overview_summary_def workflow_summary_def num_of_nat_def)

lemma overview_no_recovered: "filter recovered_run (map workflow_overview_summary ws) = []"
  by (simp add: filter_empty_conv overview_row_not_recovered)

text \<open>
  C36. The overview's rows are built with zero retries, so whatever is stored and however often its
  runs were retried: the server counts no recovered workflow, the console's overview page shows no
  recovery, and its button never offers to inspect one. The same run's own page is told its retries,
  and there the console's criterion for a recovered run holds.
\<close>

theorem recoveries_never_shown:
  assumes "w \<in> set stored" "v_status w = lit ''COMPLETED''" "e \<in> set events" "counts_as_retry e"
  shows "recovered_run (workflow_summary_from_events w events) \<and>
    c_recovered_workflows (ov_counts (console_overview now stored streams processes operators durability)) = Some (num 0) \<and>
    (\<exists>v. OverviewPage br (fill_overview (console_overview now stored streams processes operators durability)) rate = Some v \<and>
      vw_recovered v = [] \<and> vw_action v = GoTo PQuickstart)"
proof -
  let ?data = "fill_overview (console_overview now stored streams processes operators durability)"
  have "filter counts_as_retry events \<noteq> []" using assms(3,4) by (auto simp: filter_empty_conv)
  then have "recovered_run (workflow_summary_from_events w events)"
    using assms(2) by (simp add: recovered_run_def workflow_summary_from_events_def workflow_summary_def num_of_nat_def)
  moreover have "c_recovered_workflows (ov_counts (console_overview now stored streams processes operators durability)) = Some (num 0)"
    by (simp add: console_overview_def Let_def overview_no_recovered num_of_nat_def)
  moreover have "filter recovered_run (ov_workflows ?data) = []" "ov_durability ?data = Some durability"
    by (simp_all add: fill_overview_def console_overview_def Let_def overview_no_recovered)
  then have "\<exists>v. OverviewPage br ?data rate = Some v \<and> vw_recovered v = [] \<and> vw_action v = GoTo PQuickstart"
    by (simp add: OverviewPage_def Let_def StatusSummary_def DurabilityPanel_def)
  ultimately show ?thesis by blast
qed

definition retried_run :: WorkflowRecord where
  "retried_run = \<lparr> v_workflow_id = lit ''order-1'', v_workflow_type = lit ''Order'', v_status = lit ''COMPLETED'',
     v_result = None, v_error = None, v_task_queue = lit ''default'', v_build_id = None,
     v_created_at = num 100, v_updated_at = num 109 \<rparr>"

lemma recoveries_never_shown_witness:
  "c_recovered_workflows (ov_counts (console_overview (num 110) [retried_run] [] [] [] default_durability)) = Some (num 0) \<and>
   w_retries (workflow_summary_from_events retried_run
     [\<lparr> h_event_id = None, h_type = lit ''ACTIVITY_RETRY_SCHEDULED'', h_event_type = None, h_created_at = num 103, h_data = [] \<rparr>]) = num 1"
proof -
  let ?e = "\<lparr> h_event_id = None, h_type = lit ''ACTIVITY_RETRY_SCHEDULED'', h_event_type = None, h_created_at = num 103, h_data = [] \<rparr>"
  have e: "counts_as_retry ?e" by (simp add: counts_as_retry_def)
  have "v_status retried_run = lit ''COMPLETED''" by (simp add: retried_run_def)
  from recoveries_never_shown [OF _ this _ e, of "[retried_run]" "[?e]"] e show ?thesis
    by (simp add: workflow_summary_from_events_def workflow_summary_def num_of_nat_def)
qed

end
