(* ===== verification/ConsoleAnswers.thy ===== *)
theory ConsoleAnswers
  imports ConsoleServer ConsoleSession EventFrontier
begin

text \<open>
  The rest of the server's overview, \<open>crates/server/src/console.rs\<close>: the rows of streams and processes
  and the durability summary, from what the server stores. They meet what the console relies on: the
  lag, the counters and the remaining leases are numbers of the kind that its cards assume.

  Of the stored records only the fields that the summaries read are modelled. Sums of \<open>u64\<close> wrap
  around, as they do in the released build. JSON has no infinities: they are sent as \<open>null\<close>.
\<close>

section \<open>Numbers on the wire\<close>

definition json_f64 :: "f64 \<Rightarrow> f64 option" where
  "json_f64 x = (if finite64 x then Some x else None)"

text \<open>An unsigned integer, as JavaScript reads it.\<close>

definition json_u64 :: "64 word \<Rightarrow> f64" where
  "json_u64 w = mk64 (of_int (uint w))"

lemma json_u64_small: "uint w \<le> 2 ^ 53 \<Longrightarrow> json_u64 w = num (uint w)"
  unfolding json_u64_def num_def by (rule mk64_int) simp

section \<open>Streams\<close>

fun watermark_mode_name :: "WatermarkMode \<Rightarrow> jsstr" where
  "watermark_mode_name Bounded = lit ''bounded''"
| "watermark_mode_name Monotonic = lit ''monotonic''"
| "watermark_mode_name SourceManaged = lit ''source_managed''"

definition watermark_lag :: "StreamState \<Rightarrow> f64 option" where
  "watermark_lag s = (case (z_max_event_time s, z_watermark s) of
     (Some maximum, Some watermark) \<Rightarrow> json_f64 (rs_max (fsub maximum watermark) (num 0))
   | _ \<Rightarrow> None)"

definition stream_records :: "PartitionState list \<Rightarrow> 64 word" where
  "stream_records ps = foldl (\<lambda>n p. n + q_next_offset p) 0 ps"

definition stream_summary :: "jsstr \<Rightarrow> StreamConfig \<Rightarrow> stream \<Rightarrow> Stream" where
  "stream_summary name config = (\<lambda>(s, ps).
     \<lparr> s_name = name, s_partitions = num_of_nat (g_partitions config), s_records = json_u64 (stream_records ps),
       s_watermark = Option.bind (z_watermark s) json_f64, s_max_event_time = Option.bind (z_max_event_time s) json_f64,
       s_watermark_lag = watermark_lag s, s_watermark_mode = watermark_mode_name (g_watermark_mode config),
       s_finalized = z_finalized s, s_updated_at = z_updated_at s \<rparr>)"

text \<open>Rust orders strings by their UTF-8 bytes; \<open>le\<close> is that order.\<close>

definition stream_summaries :: "(jsstr \<Rightarrow> jsstr \<Rightarrow> bool) \<Rightarrow> (jsstr \<times> StreamConfig \<times> stream) list \<Rightarrow> Stream list" where
  "stream_summaries le streams =
     sort_by (\<lambda>a b. le (s_name a) (s_name b)) (map (\<lambda>(name, config, st). stream_summary name config st) streams)"

section \<open>Processes\<close>

record ProcessShardState =
  sh_pending :: "64 word"
  sh_running :: "64 word"
  sh_completed :: "64 word"
  sh_failed :: "64 word"
  sh_retry_pending :: "64 word"
  sh_retry_running :: "64 word"
  sh_quarantined :: "64 word"

datatype EventTimeGate = Immediate | Complete

fun gate_name :: "EventTimeGate \<Rightarrow> jsstr" where
  "gate_name Immediate = lit ''immediate''"
| "gate_name Complete = lit ''complete''"

record DurableProcess =
  dp_process_id :: jsstr
  dp_workflow_type :: jsstr
  dp_stream :: jsstr
  dp_status :: jsstr
  dp_pending :: "64 word"
  dp_running :: "64 word"
  dp_completed :: "64 word"
  dp_failed :: "64 word"
  dp_retrying :: "64 word"
  dp_quarantined :: "64 word"
  dp_max_concurrent_keys :: "32 word"
  dp_mailbox_capacity :: "64 word"
  dp_retry_concurrency :: "32 word"
  dp_max_attempts :: "32 word"
  dp_event_time_gate :: EventTimeGate

definition add_shard :: "DurableProcess \<Rightarrow> ProcessShardState \<Rightarrow> DurableProcess" where
  "add_shard p sh = p\<lparr> dp_pending := dp_pending p + sh_pending sh, dp_running := dp_running p + sh_running sh,
     dp_completed := dp_completed p + sh_completed sh, dp_failed := dp_failed p + sh_failed sh,
     dp_retrying := dp_retrying p + (sh_retry_pending sh + sh_retry_running sh),
     dp_quarantined := dp_quarantined p + sh_quarantined sh \<rparr>"

definition process_summary :: "DurableProcess \<Rightarrow> ProcessShardState list \<Rightarrow> Process" where
  "process_summary stored shards =
     (let p = foldl add_shard stored shards
      in \<lparr> p_process_id = dp_process_id p, p_workflow_type = dp_workflow_type p, p_stream = dp_stream p,
           p_status = dp_status p, p_pending = json_u64 (dp_pending p), p_running = json_u64 (dp_running p),
           p_completed = json_u64 (dp_completed p), p_failed = json_u64 (dp_failed p),
           p_retrying = Some (json_u64 (dp_retrying p)), p_quarantined = Some (json_u64 (dp_quarantined p)),
           p_max_concurrent_keys = num (uint (dp_max_concurrent_keys p)),
           p_retry_concurrency = Some (num (uint (dp_retry_concurrency p))),
           p_max_attempts = num (uint (dp_max_attempts p)), p_mailbox_capacity = json_u64 (dp_mailbox_capacity p),
           p_event_time_gate = gate_name (dp_event_time_gate p) \<rparr>)"

section \<open>Durability\<close>

record ProcessPartitionOwner =
  pw_partition_id :: "32 word"
  pw_node_id :: jsstr
  pw_epoch :: "64 word"
  pw_lease_expires :: f64
  pw_status :: jsstr
  pw_checkpoint_id :: "jsstr option"

record CheckpointManifest =
  cm_checkpoint_id :: jsstr
  cm_sequence :: "64 word"
  cm_shards :: nat
  cm_state_handles :: nat
  cm_created_at :: f64

definition remaining :: "f64 \<Rightarrow> f64 \<Rightarrow> f64" where
  "remaining expires now = rs_max (fsub expires now) (num 0)"

definition active_owner :: "f64 \<Rightarrow> ProcessPartitionOwner \<Rightarrow> bool" where
  "active_owner now w \<longleftrightarrow> pw_status w = lit ''ACTIVE'' \<and> flt now (pw_lease_expires w)"

text \<open>The leases of the key groups are given by when they expire.\<close>

definition durability_summary :: "f64 \<Rightarrow> jsstr \<Rightarrow> jsstr \<Rightarrow> jsstr \<Rightarrow> CheckpointManifest option \<Rightarrow> ProcessPartitionOwner list
    \<Rightarrow> f64 list \<Rightarrow> Durability" where
  "durability_summary now mode node region checkpoint owners leases =
     (let active_owners = length (filter (active_owner now) owners); active_groups = length (filter (flt now) leases)
      in \<lparr> d_status = durability_status (length owners) active_owners (length leases) active_groups,
           d_storage_mode = mode,
           d_checkpoint = map_option (\<lambda>m. \<lparr> k_checkpoint_id = cm_checkpoint_id m, k_sequence = json_u64 (cm_sequence m),
             k_created_at = cm_created_at m, k_age_seconds = remaining now (cm_created_at m),
             k_shards = num_of_nat (cm_shards m), k_state_handles = num_of_nat (cm_state_handles m) \<rparr>) checkpoint,
           d_partition_owners = map (\<lambda>w. \<lparr> po_partition = num (uint (pw_partition_id w)), po_node_id = pw_node_id w,
             po_epoch = json_u64 (pw_epoch w), po_status = pw_status w,
             po_lease_remaining_seconds = remaining (pw_lease_expires w) now, po_checkpoint_id = pw_checkpoint_id w \<rparr>) owners,
           d_active_partition_owners = num_of_nat active_owners, d_key_groups = num_of_nat (length leases),
           d_active_key_groups = num_of_nat active_groups, d_node_id = node, d_region = region \<rparr>)"

section \<open>The answer is what the console's types say\<close>

text \<open>What a process and its shards count together, without wrapping around.\<close>

definition shard_total :: "(ProcessShardState \<Rightarrow> 64 word) \<Rightarrow> ProcessShardState list \<Rightarrow> int" where
  "shard_total f shards = sum_list (map (\<lambda>sh. uint (f sh)) shards)"

lemma add_shards:
  "dp_pending (foldl add_shard p shards) = dp_pending p + sum_list (map sh_pending shards)"
  "dp_running (foldl add_shard p shards) = dp_running p + sum_list (map sh_running shards)"
  "dp_completed (foldl add_shard p shards) = dp_completed p + sum_list (map sh_completed shards)"
  "dp_retrying (foldl add_shard p shards) = dp_retrying p + sum_list (map (\<lambda>sh. sh_retry_pending sh + sh_retry_running sh) shards)"
  "dp_mailbox_capacity (foldl add_shard p shards) = dp_mailbox_capacity p"
  by (induction shards arbitrary: p) (simp_all add: add_shard_def add.assoc)

lemma uint_add_small: "uint a + uint b < 2 ^ 64 \<Longrightarrow> uint (a + b :: 64 word) = uint a + uint b"
  by (simp add: uint_word_ariths take_bit_int_eq_self)

lemma uint_sum:
  fixes f :: "'a \<Rightarrow> 64 word"
  assumes "uint a + sum_list (map (\<lambda>x. uint (f x)) xs) < 2 ^ 64"
  shows "uint (a + sum_list (map f xs)) = uint a + sum_list (map (\<lambda>x. uint (f x)) xs)"
  using assms
proof (induction xs arbitrary: a)
  case (Cons x xs)
  have "0 \<le> sum_list (map (\<lambda>x. uint (f x)) xs)" by (intro sum_list_nonneg) auto
  then have "uint (a + f x) = uint a + uint (f x)" using Cons.prems by (intro uint_add_small) simp
  with Cons.IH [of "a + f x"] Cons.prems show ?case by (simp add: add.assoc)
qed simp

lemma json_u64_count: "uint w \<le> 2 ^ 50 \<Longrightarrow> count64 (json_u64 w) \<and> fle (json_u64 w) (num (2 ^ 50))"
proof -
  assume small: "uint w \<le> 2 ^ 50"
  then have "json_u64 w = num (uint w)" by (intro json_u64_small) simp
  with small show ?thesis by (simp add: count64_num)
qed

text \<open>The counters of a process and its shards stay small.\<close>

definition small_process :: "DurableProcess \<times> ProcessShardState list \<Rightarrow> bool" where
  "small_process = (\<lambda>(p, shards). uint (dp_pending p) + shard_total sh_pending shards
       + (uint (dp_running p) + shard_total sh_running shards)
       + (uint (dp_retrying p) + (shard_total sh_retry_pending shards + shard_total sh_retry_running shards)) \<le> 2 ^ 50
     \<and> uint (dp_mailbox_capacity p) \<le> 2 ^ 50)"

lemma shard_total_nonneg: "0 \<le> shard_total f shards"
  unfolding shard_total_def by (intro sum_list_nonneg) auto

lemma retrying_pair:
  assumes "shard_total sh_retry_pending shards + shard_total sh_retry_running shards \<le> 2 ^ 50"
  shows "shard_total (\<lambda>sh. sh_retry_pending sh + sh_retry_running sh) shards
    = shard_total sh_retry_pending shards + shard_total sh_retry_running shards"
  using assms
proof (induction shards)
  case (Cons sh shards)
  have nonneg: "0 \<le> shard_total sh_retry_pending shards" "0 \<le> shard_total sh_retry_running shards"
    by (rule shard_total_nonneg)+
  have split: "shard_total f (sh # shards) = uint (f sh) + shard_total f shards" for f by (simp add: shard_total_def)
  have "uint (sh_retry_pending sh) + uint (sh_retry_running sh) < 2 ^ 64" using Cons.prems nonneg by (simp add: split)
  moreover have "shard_total sh_retry_pending shards + shard_total sh_retry_running shards \<le> 2 ^ 50"
    using Cons.prems nonneg uint_nonnegative [of "sh_retry_pending sh"] uint_nonnegative [of "sh_retry_running sh"]
    unfolding split by linarith
  ultimately show ?case using Cons.IH uint_add_small by (simp add: split)
qed (simp add: shard_total_def)

lemma process_counts:
  assumes "small_process (p, shards)"
  shows "uint (dp_pending (foldl add_shard p shards)) = uint (dp_pending p) + shard_total sh_pending shards"
    and "uint (dp_running (foldl add_shard p shards)) = uint (dp_running p) + shard_total sh_running shards"
    and "uint (dp_retrying (foldl add_shard p shards)) = uint (dp_retrying p)
      + (shard_total sh_retry_pending shards + shard_total sh_retry_running shards)"
proof -
  note small = assms [unfolded small_process_def prod.case]
  have nonneg: "0 \<le> shard_total f shards" "0 \<le> uint (w :: 64 word)" for f w by (rule shard_total_nonneg, simp)
  have retry: "shard_total (\<lambda>sh. sh_retry_pending sh + sh_retry_running sh) shards
      = shard_total sh_retry_pending shards + shard_total sh_retry_running shards"
  proof (rule retrying_pair)
    show "shard_total sh_retry_pending shards + shard_total sh_retry_running shards \<le> 2 ^ 50"
      using small nonneg(1) [of sh_pending] nonneg(1) [of sh_running] nonneg(2) [of "dp_pending p"]
        nonneg(2) [of "dp_running p"] nonneg(2) [of "dp_retrying p"] by linarith
  qed
  have sums: "uint (a + sum_list (map f shards)) = uint a + shard_total f shards" if "uint a + shard_total f shards \<le> 2 ^ 50"
    for a and f :: "ProcessShardState \<Rightarrow> 64 word"
    using that uint_sum [of a f shards] by (simp add: shard_total_def)
  note parts = nonneg(1) [of sh_pending] nonneg(1) [of sh_running] nonneg(1) [of sh_retry_pending] nonneg(1) [of sh_retry_running]
    nonneg(2) [of "dp_pending p"] nonneg(2) [of "dp_running p"] nonneg(2) [of "dp_retrying p"]
  show "uint (dp_pending (foldl add_shard p shards)) = uint (dp_pending p) + shard_total sh_pending shards"
    unfolding add_shards by (rule sums) (use small parts in linarith)
  show "uint (dp_running (foldl add_shard p shards)) = uint (dp_running p) + shard_total sh_running shards"
    unfolding add_shards by (rule sums) (use small parts in linarith)
  show "uint (dp_retrying (foldl add_shard p shards)) = uint (dp_retrying p)
      + (shard_total sh_retry_pending shards + shard_total sh_retry_running shards)"
    unfolding add_shards retry [symmetric] by (rule sums) (use small parts retry in linarith)
qed

lemma process_row:
  assumes "small_process (p, shards)"
  shows "counted_process (process_summary p shards)"
    and "used_slots (process_summary p shards) = num (uint (dp_pending p) + shard_total sh_pending shards
       + (uint (dp_running p) + shard_total sh_running shards)
       + (uint (dp_retrying p) + (shard_total sh_retry_pending shards + shard_total sh_retry_running shards)))"
proof -
  let ?q = "foldl add_shard p shards"
  have total: "uint (dp_pending ?q) + uint (dp_running ?q) + uint (dp_retrying ?q) \<le> 2 ^ 50"
    using assms unfolding process_counts [OF assms] by (simp add: small_process_def)
  have nonneg: "0 \<le> uint (w :: 64 word)" for w by simp
  have each: "uint (dp_pending ?q) \<le> 2 ^ 50" "uint (dp_running ?q) \<le> 2 ^ 50" "uint (dp_retrying ?q) \<le> 2 ^ 50"
    using total nonneg [of "dp_pending ?q"] nonneg [of "dp_running ?q"] nonneg [of "dp_retrying ?q"] by linarith+
  have mailbox: "uint (dp_mailbox_capacity ?q) \<le> 2 ^ 50" using assms by (simp add: add_shards small_process_def)
  show "counted_process (process_summary p shards)"
    using each [THEN json_u64_count] json_u64_count [OF mailbox]
    by (simp add: counted_process_def process_summary_def Let_def or_zero_def del: power_numeral)
  have "used_slots (process_summary p shards) = num (uint (dp_pending ?q) + uint (dp_running ?q) + uint (dp_retrying ?q))"
    using each total by (simp add: used_slots_def process_summary_def Let_def or_zero_def json_u64_small fadd_num)
  then show "used_slots (process_summary p shards) = num (uint (dp_pending p) + shard_total sh_pending shards
       + (uint (dp_running p) + shard_total sh_running shards)
       + (uint (dp_retrying p) + (shard_total sh_retry_pending shards + shard_total sh_retry_running shards)))"
    unfolding process_counts [OF assms] .
qed

text \<open>The records of all partitions of all streams, counted one by one, without wrapping around.\<close>

definition partition_total :: "PartitionState list \<Rightarrow> int" where
  "partition_total ps = sum_list (map (\<lambda>p. uint (q_next_offset p)) ps)"

definition records_total :: "(jsstr \<times> StreamConfig \<times> stream) list \<Rightarrow> int" where
  "records_total streams = sum_list (map (\<lambda>(name, config, s, ps). partition_total ps) streams)"

lemma stream_records_total:
  assumes "partition_total ps \<le> 2 ^ 53"
  shows "uint (stream_records ps) = partition_total ps"
proof -
  have "foldl (\<lambda>n p. n + q_next_offset p) a ps = a + sum_list (map q_next_offset ps)" for a
    by (induction ps arbitrary: a) (simp_all add: add.assoc)
  then have "stream_records ps = 0 + sum_list (map q_next_offset ps)" unfolding stream_records_def .
  then show ?thesis using uint_sum [of 0 q_next_offset ps] assms by (simp add: partition_total_def)
qed

definition int_of :: "f64 \<Rightarrow> int" where
  "int_of x = (case x of Fin q \<Rightarrow> \<lfloor>q\<rfloor> | _ \<Rightarrow> 0)"

lemma int_of_num [simp]: "int_of (num k) = k"
  by (simp add: int_of_def num_def)

lemma total_of_rows:
  assumes "list_all (\<lambda>r. \<exists>k \<ge> 0. s_records r = num k) rows" "0 \<le> k"
    "k + sum_list (map (\<lambda>r. int_of (s_records r)) rows) \<le> 2 ^ 53"
  shows "foldl (\<lambda>acc r. fadd acc (s_records r)) (num k) rows = num (k + sum_list (map (\<lambda>r. int_of (s_records r)) rows))"
  using assms
proof (induction rows arbitrary: k)
  case (Cons r rows)
  obtain j where j: "0 \<le> j" "s_records r = num j" using Cons.prems(1) by auto
  have "0 \<le> sum_list (map (\<lambda>r. int_of (s_records r)) rows)"
    using Cons.prems(1) by (intro sum_list_nonneg) (auto simp: list_all_iff)
  then have "fadd (num k) (num j) = num (k + j)" using j Cons.prems(2,3) by (intro fadd_num) simp
  with Cons.IH [of "k + j"] Cons.prems j show ?case by (simp add: add.assoc)
qed simp

lemma stream_rows:
  assumes small: "records_total streams \<le> 2 ^ 53"
  shows "total_records (console_overview now stored (stream_summaries le streams) processes operators durability)
    = num (records_total streams)" and "0 \<le> records_total streams"
proof -
  have positive: "0 \<le> partition_total ps" for ps unfolding partition_total_def by (intro sum_list_nonneg) auto
  have each: "uint (stream_records ps) = partition_total ps" "partition_total ps \<le> 2 ^ 53"
    if x: "(name, config, s, ps) \<in> set streams" for name config s ps
  proof -
    have "partition_total ps \<in> set (map (\<lambda>(name, config, s, ps). partition_total ps) streams)" using x by force
    then have "partition_total ps \<le> records_total streams"
      unfolding records_total_def using positive by (intro member_le_sum_list) auto
    with small show "partition_total ps \<le> 2 ^ 53" by simp
    then show "uint (stream_records ps) = partition_total ps" by (rule stream_records_total)
  qed
  let ?rows = "stream_summaries le streams"
  have row: "s_records (stream_summary name config (s, ps)) = num (partition_total ps)"
    if "(name, config, s, ps) \<in> set streams" for name config s ps
    using each [OF that] by (simp add: stream_summary_def json_u64_small)
  then have rows: "list_all (\<lambda>r. \<exists>k \<ge> 0. s_records r = num k) ?rows"
    using positive by (fastforce simp: list_all_iff stream_summaries_def)
  have "sum_list (map (\<lambda>r. int_of (s_records r)) ?rows) = sum_mset (image_mset (\<lambda>r. int_of (s_records r)) (mset ?rows))"
    by (simp flip: sum_mset_sum_list)
  also have "\<dots> = sum_list (map (\<lambda>(name, config, st). int_of (s_records (stream_summary name config st))) streams)"
    by (simp add: stream_summaries_def image_mset.compositionality o_def case_prod_beta' flip: sum_mset_sum_list)
  also have "\<dots> = records_total streams"
    unfolding records_total_def
    by (intro arg_cong [where f = sum_list] map_cong refl) (auto simp: row)
  finally have sum: "sum_list (map (\<lambda>r. int_of (s_records r)) ?rows) = records_total streams" .
  then show "total_records (console_overview now stored ?rows processes operators durability) = num (records_total streams)"
    using total_of_rows [OF rows, of 0] small by (simp add: total_records_def console_overview_def Let_def)
  show "0 \<le> records_total streams" unfolding records_total_def using positive by (intro sum_list_nonneg) auto
qed

lemma remaining_nonneg: "finite64 a \<Longrightarrow> finite64 b \<Longrightarrow> fle (num 0) (remaining a b)"
  using rs_max_ge [of "fsub a b" "num 0"] fsub_finite_not_NaN [of a b] by (simp add: remaining_def num_def)

text \<open>
  C37. The server's overview is of the console's types. Suppose the clock is a number up to \<open>2 ^ 53\<close>, the offsets
  of all partitions add up to at most \<open>2 ^ 53\<close>, what each process and its shards have pending, running and
  retrying adds up to at most \<open>2 ^ 50\<close>, as does its mailbox, and the expiry of every partition lease and the
  time of the checkpoint are finite. Then the overview is one that the console's trend accepts: its total of records is the exact
  sum of the next offsets of all partitions of all streams; the row of every process has whole counters in the range for
  which the mailbox bar is right, and the slots the bar counts as used are exactly what the process and
  its shards have pending, running and retrying; the age of the checkpoint and the remaining leases
  are not negative; and the status is healthy exactly when every owner and every key group is active.
\<close>

theorem overview_well_typed:
  assumes "small64 now" "records_total streams \<le> 2 ^ 53" "list_all small_process procs"
    and "list_all (\<lambda>w. finite64 (pw_lease_expires w)) owners" "\<And>m. manifest = Some m \<Longrightarrow> finite64 (cm_created_at m)"
  shows "let durability = durability_summary now mode node region manifest owners leases;
             ov = console_overview now stored (stream_summaries le streams) (map (\<lambda>(p, shards). process_summary p shards) procs)
                    operators durability
    in sound_overview ov \<and> total_records ov = num (records_total streams)
      \<and> list_all counted_process (ov_processes ov)
      \<and> map used_slots (ov_processes ov) = map (\<lambda>(p, shards). num (uint (dp_pending p) + shard_total sh_pending shards
          + (uint (dp_running p) + shard_total sh_running shards)
          + (uint (dp_retrying p) + (shard_total sh_retry_pending shards + shard_total sh_retry_running shards)))) procs
      \<and> list_all (\<lambda>w. fle (num 0) (po_lease_remaining_seconds w)) (d_partition_owners durability)
      \<and> pred_option (\<lambda>k. fle (num 0) (k_age_seconds k)) (d_checkpoint durability)
      \<and> (d_status durability = lit ''HEALTHY'' \<longleftrightarrow> list_all (active_owner now) owners \<and> list_all (flt now) leases)"
proof -
  have now: "finite64 now" using assms(1) by (cases now) auto
  have total: "total_records (console_overview now stored (stream_summaries le streams) processes operators durability)
      = num (records_total streams)" "0 \<le> records_total streams" for processes durability
    using stream_rows [OF assms(2)] by blast+
  have small: "small64 (num (records_total streams))"
  proof -
    have "(of_int (records_total streams) :: rat) \<le> of_int (2 ^ 53)" using assms(2) by (simp only: of_int_le_iff)
    with total(2) show ?thesis by (simp add: num_def)
  qed
  have all: "length (filter P xs) = length xs \<longleftrightarrow> list_all P xs" for P :: "'c \<Rightarrow> bool" and xs
    by (metis filter_id_conv length_filter_less list_all_iff nat_neq_iff)
  have all': "length (filter P xs) = length xs \<longleftrightarrow> list_all P xs" for P :: "'d \<Rightarrow> bool" and xs
    by (metis filter_id_conv length_filter_less list_all_iff nat_neq_iff)
  have healthy: "durability_status a b c d = lit ''HEALTHY'' \<longleftrightarrow> b = a \<and> d = c" for a b c d
    by (simp add: durability_status_def)
  have rows: "list_all counted_process (map (\<lambda>(p, shards). process_summary p shards) procs)"
    "map used_slots (map (\<lambda>(p, shards). process_summary p shards) procs)
      = map (\<lambda>(p, shards). num (uint (dp_pending p) + shard_total sh_pending shards
          + (uint (dp_running p) + shard_total sh_running shards)
          + (uint (dp_retrying p) + (shard_total sh_retry_pending shards + shard_total sh_retry_running shards)))) procs"
    using assms(3) process_row by (auto simp: list_all_iff)
  have ov: "ov_processes (console_overview now stored ss ps operators durability) = ps"
    "ov_generated_at (console_overview now stored ss ps operators durability) = now" for ss ps durability
    by (simp_all add: console_overview_def Let_def)
  show ?thesis
    unfolding Let_def sound_overview_def ov total rows(2)
    using assms(1,4,5) small rows(1) now
    by (cases manifest) (auto simp: durability_summary_def Let_def list_all_iff remaining_nonneg healthy all all')
qed

definition sample_stream :: "f64 \<Rightarrow> f64 \<Rightarrow> stream" where
  "sample_stream maximum watermark =
     (\<lparr> z_watermark = Some watermark, z_finalized = False, z_max_event_time = Some maximum, z_updated_at = num 9 \<rparr>,
      [(new_partition 0 (num 9)) \<lparr> q_next_offset := 4 \<rparr>, (new_partition 1 (num 9)) \<lparr> q_next_offset := 3 \<rparr>])"

definition sample_config :: StreamConfig where
  "sample_config = \<lparr> g_partitions = 2, g_watermark_mode = Bounded, g_max_out_of_orderness = num 1, g_idle_timeout = None,
     g_allowed_lateness = num 0, g_alignment_max_drift = None, g_late_policy = Drop \<rparr>"

definition sample_process :: DurableProcess where
  "sample_process = \<lparr> dp_process_id = lit ''p'', dp_workflow_type = lit ''w'', dp_stream = lit ''s'', dp_status = lit ''ACTIVE'', dp_pending = 1,
     dp_running = 2, dp_completed = 0, dp_failed = 0, dp_retrying = 1, dp_quarantined = 0, dp_max_concurrent_keys = 8,
     dp_mailbox_capacity = 100, dp_retry_concurrency = 2, dp_max_attempts = 3, dp_event_time_gate = Immediate \<rparr>"

definition sample_shard :: ProcessShardState where
  "sample_shard = \<lparr> sh_pending = 5, sh_running = 1, sh_completed = 7, sh_failed = 0, sh_retry_pending = 2, sh_retry_running = 1,
     sh_quarantined = 0 \<rparr>"

definition sample_owner :: ProcessPartitionOwner where
  "sample_owner = \<lparr> pw_partition_id = 0, pw_node_id = lit ''n'', pw_epoch = 1, pw_lease_expires = num 30, pw_status = lit ''ACTIVE'',
     pw_checkpoint_id = None \<rparr>"

text \<open>Two streams of seven records each, and a process with one shard of its own.\<close>

lemma overview_well_typed_witness:
  "\<forall>stored le operators mode node region. map used_slots (ov_processes (console_overview (num 20) stored
       (stream_summaries le [(lit ''a'', sample_config, sample_stream (num 12) (num 11)), (lit ''b'', sample_config, sample_stream (num 6) (num 5))])
       (map (\<lambda>(p, shards). process_summary p shards) [(sample_process, [sample_shard])]) operators
       (durability_summary (num 20) mode node region None [sample_owner] []))) = [num 13]
   \<and> total_records (console_overview (num 20) stored
       (stream_summaries le [(lit ''a'', sample_config, sample_stream (num 12) (num 11)), (lit ''b'', sample_config, sample_stream (num 6) (num 5))])
       (map (\<lambda>(p, shards). process_summary p shards) [(sample_process, [sample_shard])]) operators
       (durability_summary (num 20) mode node region None [sample_owner] [])) = num 14"
proof -
  let ?streams = "[(lit ''a'', sample_config, sample_stream (num 12) (num 11)), (lit ''b'', sample_config, sample_stream (num 6) (num 5))]"
  let ?procs = "[(sample_process, [sample_shard])]"
  have total: "records_total ?streams = 14" by (simp add: records_total_def partition_total_def sample_stream_def)
  have "list_all small_process ?procs"
    by (simp add: small_process_def shard_total_def sample_process_def sample_shard_def)
  moreover have "small64 (num 20)" by (simp add: num_def)
  moreover have "list_all (\<lambda>w. finite64 (pw_lease_expires w)) [sample_owner]" by (simp add: sample_owner_def num_def)
  ultimately show ?thesis
    using overview_well_typed [of "num 20" ?streams ?procs "[sample_owner]" None] total
    by (intro allI) (simp add: Let_def shard_total_def sample_process_def sample_shard_def)
qed

section \<open>The lag that the card shows\<close>

definition behind :: "jsstr \<times> StreamConfig \<times> stream \<Rightarrow> f64 \<Rightarrow> bool" where
  "behind = (\<lambda>(name, config, s, ps) lag. case (z_max_event_time s, z_watermark s) of
     (Some maximum, Some watermark) \<Rightarrow> lag = fsub maximum watermark \<and> finite64 lag \<and> flt (num 0) lag | _ \<Rightarrow> False)"

lemma watermark_lag_positive:
  "watermark_lag s = Some lag \<and> flt (num 0) lag \<longleftrightarrow> behind (name, config, s, ps) lag"
proof -
  have zero: "rs_max x (num 0) = (if flt (num 0) x then x else num 0)" for x
    by (cases x) (auto simp: rs_max_def num_def flt_def feq_def)
  have "\<not> flt (num 0) (num 0)" by simp
  then show ?thesis
    by (auto simp: watermark_lag_def behind_def json_f64_def zero split: option.splits if_splits)
qed

lemma reported_lag:
  "(\<exists>r \<in> set (stream_summaries le streams). s_watermark_lag r = Some lag \<and> flt (num 0) lag) \<longleftrightarrow> (\<exists>st \<in> set streams. behind st lag)"
proof -
  have "set (stream_summaries le streams) = (\<lambda>(name, config, st). stream_summary name config st) ` set streams"
    by (simp add: stream_summaries_def flip: set_mset_mset)
  then show ?thesis
    using watermark_lag_positive by (auto simp: stream_summary_def split_beta) (metis prod.collapse)+
qed

text \<open>
  C38. The "Watermark lag" card shows what the server's streams are behind, the server's answer and the
  console's page together: for any streams of the server, the card reads "Caught up" when no stream
  has seen an event time that lies ahead of its watermark by a finite amount, and otherwise the
  duration of the greatest such distance. A stream without a watermark is not counted.
\<close>

theorem lag_card_end_to_end:
  "if \<exists>st \<in> set streams. \<exists>lag. behind st lag
   then \<exists>st \<in> set streams. \<exists>lag. behind st lag \<and> maxWatermarkLag (stream_summaries le streams) = duration lag
     \<and> \<not> (\<exists>st' \<in> set streams. \<exists>lag'. behind st' lag' \<and> flt lag lag')
   else maxWatermarkLag (stream_summaries le streams) = lit ''Caught up''"
proof -
  have lags: "(\<exists>r \<in> set (stream_summaries le streams). \<exists>lag. s_watermark_lag r = Some lag \<and> flt (num 0) lag)
      \<longleftrightarrow> (\<exists>st \<in> set streams. \<exists>lag. behind st lag)"
    using reported_lag by blast
  show ?thesis
  proof (cases "\<exists>st \<in> set streams. \<exists>lag. behind st lag")
    case True
    then have "\<exists>r \<in> set (stream_summaries le streams). \<exists>lag. s_watermark_lag r = Some lag \<and> flt (num 0) lag"
      using lags by blast
    from watermark_lag_shown [of "stream_summaries le streams", unfolded if_P [OF this]]
    obtain r lag where r: "r \<in> set (stream_summaries le streams)" "s_watermark_lag r = Some lag" "flt (num 0) lag"
      and shown: "maxWatermarkLag (stream_summaries le streams) = duration lag"
      and most: "\<not> (\<exists>r' \<in> set (stream_summaries le streams). \<exists>lag'. s_watermark_lag r' = Some lag' \<and> flt lag lag')" by blast
    have "\<not> (\<exists>st' \<in> set streams. \<exists>lag'. behind st' lag' \<and> flt lag lag')"
      using most reported_lag [of le streams] by blast
    with True shown r reported_lag [of le streams lag] show ?thesis by auto
  next
    case False
    with lags watermark_lag_shown [of "stream_summaries le streams"] show ?thesis by simp
  qed
qed

end
