(* ===== verification/ConsoleUi.thy ===== *)
theory ConsoleUi
  imports ConsoleViews ConsoleSession Markup
begin

text \<open>
  The primitives of \<open>console/src/ui.tsx\<close> and the fixed components of \<open>console/src/App.tsx\<close> as the trees
  they return: \<open>Button\<close>, \<open>Badge\<close>, \<open>Card\<close>, \<open>Hint\<close> and \<open>SelectField\<close>; \<open>PageHeader\<close>, \<open>SectionHeading\<close>, \<open>Empty\<close>
  and the sign-in form of \<open>Login\<close>. \<open>cls\<close> is \<open>cn\<close>, which joins class names.
\<close>

section \<open>Primitives\<close>

type_synonym node = "jsstr Node"

definition css :: "string \<Rightarrow> string \<times> jsstr" where
  "css c = (''className'', lit c)"

definition Button :: "(jsstr list \<Rightarrow> jsstr) \<Rightarrow> jsstr option \<Rightarrow> Variant option \<Rightarrow> (string \<times> jsstr) list \<Rightarrow> node list \<Rightarrow> node" where
  "Button cls className variant props children =
     El ''button'' ((''className'', cls (button_classes className variant)) # props) children"

definition Badge :: "(jsstr list \<Rightarrow> jsstr) \<Rightarrow> Browser \<Rightarrow> jsstr option \<Rightarrow> node list \<Rightarrow> node" where
  "Badge cls br status children = El ''span'' [(''className'', cls (badge_classes br status))] (El ''i'' [] [] # children)"

definition Card :: "(jsstr list \<Rightarrow> jsstr) \<Rightarrow> jsstr option \<Rightarrow> (string \<times> jsstr) list \<Rightarrow> node list \<Rightarrow> node" where
  "Card cls className props children = El ''div'' ((''className'', cls (card_classes className)) # props) children"

definition Hint :: "jsstr \<Rightarrow> node list \<Rightarrow> node" where
  "Hint label children =
     El ''Tooltip.Provider'' [(''delayDuration'', lit ''250'')]
      [El ''Tooltip.Root'' []
        [El ''Tooltip.Trigger'' [(''asChild'', lit ''true'')] children,
         El ''Tooltip.Portal'' []
          [El ''Tooltip.Content'' [css ''tooltip'', (''sideOffset'', lit ''8'')]
            [Txt label, El ''Tooltip.Arrow'' [css ''tooltip-arrow''] []]]]]"

definition icon :: "string \<Rightarrow> string \<Rightarrow> node" where
  "icon name px = El name [(''size'', lit px)] []"

definition SelectField :: "jsstr \<Rightarrow> (jsstr \<times> jsstr) list \<Rightarrow> jsstr \<Rightarrow> node" where
  "SelectField v options label =
     El ''Select.Root'' [(''value'', v)]
      [El ''Select.Trigger'' [css ''select-trigger'', (''aria-label'', label)]
        [El ''Select.Value'' [] [], El ''Select.Icon'' [] [icon ''ChevronDown'' ''14'']],
       El ''Select.Portal'' []
        [El ''Select.Content'' [css ''select-content'', (''position'', lit ''popper''), (''sideOffset'', lit ''5'')]
          [El ''Select.Viewport'' []
            (map (\<lambda>(ov, ol). El ''Select.Item'' [css ''select-item'', (''value'', ov), (''key'', ov)]
               [El ''Select.ItemText'' [] [Txt ol], El ''Select.ItemIndicator'' [] [icon ''Check'' ''13'']]) options)]]]"

section \<open>Headings\<close>

text \<open>\<open>eyebrow && \<dots>\<close>: an empty string shows nothing.\<close>

definition text_if :: "jsstr option \<Rightarrow> (jsstr \<Rightarrow> node) \<Rightarrow> node list" where
  "text_if t f = (case t of None \<Rightarrow> [] | Some t \<Rightarrow> if t = [] then [] else [f t])"

definition PageHeader :: "jsstr option \<Rightarrow> jsstr \<Rightarrow> jsstr \<Rightarrow> node list \<Rightarrow> node" where
  "PageHeader eyebrow heading description actions =
     El ''div'' [css ''page-header'']
      (El ''div'' [] (text_if eyebrow (\<lambda>t. El ''p'' [css ''overline''] [Txt t])
         @ [El ''h1'' [] [Txt heading], El ''p'' [] [Txt description]])
       # (if actions = [] then [] else [El ''div'' [css ''page-actions''] actions]))"

definition SectionHeading :: "jsstr \<Rightarrow> jsstr option \<Rightarrow> node list \<Rightarrow> node" where
  "SectionHeading heading detail action =
     El ''div'' [css ''section-heading'']
      (El ''div'' [] (El ''h2'' [] [Txt heading] # text_if detail (\<lambda>t. El ''p'' [] [Txt t])) # action)"

definition Empty :: "string \<Rightarrow> jsstr \<Rightarrow> jsstr \<Rightarrow> node" where
  "Empty name heading detail =
     El ''div'' [css ''empty''] [El ''span'' [] [icon name ''21''], El ''strong'' [] [Txt heading], El ''p'' [] [Txt detail]]"

section \<open>The sign-in form\<close>

definition wordmark :: "node list" where
  "wordmark = [El ''span'' [css ''mark''] [El ''Waves'' [] []], Txt (lit ''Highwater'')]"

definition auth_product :: "(jsstr list \<Rightarrow> jsstr) \<Rightarrow> Browser \<Rightarrow> node" where
  "auth_product cls br =
     El ''section'' [css ''auth-product'']
      [El ''a'' [css ''wordmark inverse'', (''href'', lit ''https://highwater.cloud'')] wordmark,
       El ''div'' [css ''auth-message'']
        [Badge cls br (Some (lit ''healthy'')) [Txt (lit ''Live demo cluster'')],
         El ''h1'' [] [Txt (lit ''Operate streams''), El ''br'' [] [], Txt (lit ''like durable programs.'')],
         El ''p'' [] [Txt (lit ''Inspect executions, retry history, event-time progress, and per-key state from one control plane.'')]],
       El ''div'' [css ''auth-proof'']
        [El ''span'' [] [icon ''ShieldCheck'' ''17'', Txt (lit '' Durable execution'')],
         El ''span'' [] [icon ''Clock3'' ''17'', Txt (lit '' Event-time correctness'')],
         El ''span'' [] [icon ''GitBranch'' ''17'', Txt (lit '' Stateful operators'')]]]"

definition auth_input :: "string \<Rightarrow> string \<Rightarrow> (string \<times> jsstr) list \<Rightarrow> node" where
  "auth_input label name props =
     El ''label'' [] [Txt (lit label), El ''input'' ((''name'', lit name) # (''defaultValue'', lit ''demo'') # props) []]"

definition continue_button :: "(jsstr list \<Rightarrow> jsstr) \<Rightarrow> bool \<Rightarrow> node" where
  "continue_button cls busy =
     Button cls None None ((''type'', lit ''submit'') # (if busy then [(''disabled'', lit ''true'')] else []))
      (if busy then [El ''RefreshCw'' [css ''spin'', (''size'', lit ''16'')] [], Txt (lit '' Connecting'')]
       else [Txt (lit ''Continue ''), icon ''ArrowRight'' ''16''])"

definition auth_form :: "(jsstr list \<Rightarrow> jsstr) \<Rightarrow> jsstr \<Rightarrow> bool \<Rightarrow> node" where
  "auth_form cls error busy =
     El ''section'' [css ''auth-form-wrap'']
      [El ''form'' [css ''auth-form'']
        ([El ''div'' [css ''mobile-wordmark''] wordmark,
          El ''p'' [css ''overline''] [Txt (lit ''Highwater Cloud'')], El ''h2'' [] [Txt (lit ''Sign in to the console'')],
          El ''p'' [css ''subtle''] [Txt (lit ''Monitor the shared demo environment.'')],
          auth_input ''Username'' ''username'' [(''autoComplete'', lit ''username''), (''required'', lit ''true'')],
          auth_input ''Password'' ''password'' [(''type'', lit ''password''), (''autoComplete'', lit ''current-password''), (''required'', lit ''true'')]]
         @ shown_if (error \<noteq> []) (El ''div'' [css ''form-error''] [icon ''TriangleAlert'' ''15'', Txt error])
         @ [continue_button cls busy,
            El ''div'' [css ''demo-credential'']
             [icon ''KeyRound'' ''15'', El ''span'' [] [Txt (lit ''Demo credentials'')], El ''code'' [] [Txt (lit ''demo / demo'')]]])]"

definition Login :: "(jsstr list \<Rightarrow> jsstr) \<Rightarrow> Browser \<Rightarrow> jsstr \<Rightarrow> bool \<Rightarrow> node" where
  "Login cls br error busy = El ''main'' [css ''auth-layout''] [auth_product cls br, auth_form cls error busy]"

text \<open>The form's entries as \<open>FormData\<close> gives them when nobody has typed: the default of the named input.\<close>

definition untouched :: "string \<Rightarrow> node \<Rightarrow> jsstr list" where
  "untouched name n = concat (map (attr ''defaultValue'') (filter (\<lambda>i. attr ''name'' i = [lit name]) (with_tag ''input'' n)))"

definition form_errors :: "node \<Rightarrow> jsstr list list" where
  "form_errors n = map texts (filter (\<lambda>m. attr ''className'' m = [lit ''form-error'']) (with_tag ''div'' n))"

section \<open>What the form shows\<close>

lemmas login_tree = Login_def auth_product_def auth_form_def auth_input_def continue_button_def Button_def Badge_def
  wordmark_def icon_def css_def shown_if_def attr_def

lemma login_inputs: "untouched ''username'' (Login cls br e busy) = [lit ''demo'']"
  "untouched ''password'' (Login cls br e busy) = [lit ''demo'']"
  by (simp_all add: untouched_def with_tag_def login_tree)

lemma login_button: "with_tag ''button'' (Login cls br e busy) = [continue_button cls busy]"
  by (simp add: with_tag_def login_tree)

lemma login_errors: "form_errors (Login cls br e busy) = (if e = [] then [] else [[e]])"
  by (simp add: form_errors_def with_tag_def texts_def login_tree)

lemma demo_credential: "btoa (lit ''demo'' @ lit '':'' @ lit ''demo'') = Some (lit ''ZGVtbzpkZW1v'')"
  by (simp add: btoa_def lit_eval base64_unit_def)

section \<open>The form in the browser\<close>

text \<open>
  What a visitor can do: a form whose submit button is \<open>disabled\<close> is not submitted, and without the form on
  the screen there is nothing to submit. Every other event happens as it comes.
\<close>

definition submittable :: "(jsstr list \<Rightarrow> jsstr) \<Rightarrow> Browser \<Rightarrow> Screen \<Rightarrow> bool" where
  "submittable cls br = (\<lambda>LoginForm e busy \<Rightarrow> list_all (\<lambda>b. attr ''disabled'' b = []) (with_tag ''button'' (Login cls br e busy)) | _ \<Rightarrow> False)"

definition visitor_step :: "(jsstr list \<Rightarrow> jsstr) \<Rightarrow> Browser \<Rightarrow> (f64 \<Rightarrow> jsstr) \<Rightarrow> jsstr \<Rightarrow> App \<Rightarrow> Event \<Rightarrow> App" where
  "visitor_step cls br clock engine s e =
     (case e of Submit u p \<Rightarrow> if submittable cls br (screen s) then app_step clock engine s e else s
      | _ \<Rightarrow> app_step clock engine s e)"

definition visit :: "(jsstr list \<Rightarrow> jsstr) \<Rightarrow> Browser \<Rightarrow> (f64 \<Rightarrow> jsstr) \<Rightarrow> jsstr \<Rightarrow> jsstr option \<Rightarrow> Event list \<Rightarrow> App" where
  "visit cls br clock engine stored es = foldl (visitor_step cls br clock engine) (initial_app stored) es"

text \<open>The page that a state shows, as far as it is the sign-in form.\<close>

definition sign_in_page :: "(jsstr list \<Rightarrow> jsstr) \<Rightarrow> Browser \<Rightarrow> App \<Rightarrow> node option" where
  "sign_in_page cls br s = (case screen s of LoginForm e busy \<Rightarrow> Some (Login cls br e busy) | _ \<Rightarrow> None)"

definition shows_form :: "node option \<Rightarrow> jsstr \<Rightarrow> bool \<Rightarrow> bool" where
  "shows_form page e busy \<longleftrightarrow> (\<exists>n. page = Some n \<and> form_errors n = (if e = [] then [] else [[e]])
     \<and> map (attr ''disabled'') (with_tag ''button'' n) = [if busy then [lit ''true''] else []])"

lemma submittable_login: "submittable cls br (LoginForm e busy) \<longleftrightarrow> \<not> busy"
  by (simp add: submittable_def login_button continue_button_def Button_def attr_def)

lemma submittable_form: "submittable cls br (screen s) \<longleftrightarrow> a_credential s = [] \<and> \<not> a_busy s"
  by (simp add: screen_def submittable_login) (simp add: submittable_def split: option.split)

lemma shows_form_page: "shows_form (sign_in_page cls br s) e busy \<longleftrightarrow> a_credential s = [] \<and> a_form_error s = e \<and> a_busy s = busy"
  by (auto simp: shows_form_def sign_in_page_def screen_def login_button login_errors continue_button_def Button_def attr_def
      split: option.split if_splits)

text \<open>The form that is mounted has at most one attempt under way, and no other form has any.\<close>

definition form_inv :: "App \<Rightarrow> bool" where
  "form_inv s \<longleftrightarrow> a_pending s = [] \<and> (a_credential s = [] \<longrightarrow> \<not> a_busy s)
     \<or> (\<exists>c. a_pending s = [(a_form s, c)] \<and> a_credential s = [] \<and> a_busy s \<and> a_form_error s = [] \<and> c \<noteq> [])"

lemma form_inv_cases:
  assumes "form_inv s"
  obtains "a_pending s = []" "a_credential s = [] \<Longrightarrow> \<not> a_busy s"
  | c where "a_pending s = [(a_form s, c)]" "a_credential s = []" "a_busy s" "a_form_error s = []" "c \<noteq> []"
  using assms by (auto simp: form_inv_def)

lemma sign_out_form_inv: "form_inv s \<Longrightarrow> form_inv (sign_out s)"
  by (erule form_inv_cases) (auto simp: form_inv_def sign_out_def)

lemma form_inv_frame:
  "form_inv s \<Longrightarrow> a_pending s' = a_pending s \<Longrightarrow> a_credential s' = a_credential s \<Longrightarrow> a_form s' = a_form s \<Longrightarrow> a_busy s' = a_busy s
    \<Longrightarrow> a_form_error s' = a_form_error s \<Longrightarrow> form_inv s'"
  by (simp add: form_inv_def)

lemma load_done_form_inv: "form_inv s \<Longrightarrow> form_inv (load_done clock engine outcome s)"
  using sign_out_form_inv [of s]
  by (auto simp: load_done_def split: sum.split elim: form_inv_frame)

lemma visitor_step_inv:
  assumes "form_inv s"
  shows "form_inv (visitor_step cls br clock engine s e)"
proof (cases e)
  case Load
  with assms show ?thesis by (auto simp: visitor_step_def load_def elim: form_inv_frame)
next
  case (LoadDone c outcome)
  have "form_inv (s\<lparr> a_inflight := x \<rparr>)" for x using assms by (rule form_inv_frame) simp_all
  with LoadDone assms load_done_form_inv show ?thesis by (simp add: visitor_step_def)
next
  case (Submit u p)
  with assms show ?thesis
    by (elim form_inv_cases)
      (auto simp: visitor_step_def submittable_form submit_def form_inv_def Let_def dest!: btoa_nonempty split: option.splits)
next
  case (LoginDone form c outcome)
  with assms show ?thesis
    by (elim form_inv_cases) (auto simp: visitor_step_def login_done_def form_idle_def form_inv_def split: sum.splits)
next
  case Logout
  with assms show ?thesis by (simp add: visitor_step_def sign_out_form_inv)
qed

interpretation form: machine "\<lambda>s. \<exists>stored. s = initial_app stored" "visitor_step cls br clock engine" "\<lambda>_. True" form_inv
  for cls :: "jsstr list \<Rightarrow> jsstr" and br :: Browser and clock :: "f64 \<Rightarrow> jsstr" and engine :: jsstr
proof unfold_locales
  show "form_inv s" if "\<exists>stored. s = initial_app stored" for s
    using that by (auto simp: initial_app_def form_inv_def)
qed (rule visitor_step_inv)

lemma visit_inv: "form_inv (visit cls br clock engine stored es)"
  unfolding visit_def by (rule form.run_inv) (auto simp: list_all_iff)

section \<open>Properties\<close>

text \<open>
  C2. The sign-in form over everything a visitor and the server can do: in every state that loads, replies,
  sign-outs and submissions of the form lead to,
  \<^item> while an attempt to sign in is under way the form is on the screen, its button disabled and no error shown;
  \<^item> with none under way, a form on the screen has its button enabled, and submitting it untouched starts
    an attempt with the demo credential that it shows, and takes away the error of the last one;
  \<^item> the reply that ends an attempt brings the console, with its data and no error, or the form again, with the
    button enabled and the message of exactly this failure;
  \<^item> the form after a sign-out of the console shows no error and is enabled, whatever attempts failed before;
  \<^item> while the form is on the screen, loading and signing out again leave the page as it is.
\<close>

theorem sign_in_form:
  "let s = visit cls br clock engine stored es; step = visitor_step cls br clock engine; page = sign_in_page cls br in
    (a_pending s \<noteq> [] \<longrightarrow> shows_form (page s) [] True)
    \<and> (\<forall>n. a_pending s = [] \<and> page s = Some n \<longrightarrow> (\<exists>e. shows_form (page s) e False)
        \<and> (let s' = step s (Submit (hd (untouched ''username'' n)) (hd (untouched ''password'' n)))
           in map snd (a_pending s') = [lit ''ZGVtbzpkZW1v''] \<and> shows_form (page s') [] True))
    \<and> (\<forall>form c ov. (form, c) \<in> set (a_pending s) \<longrightarrow> screen (step s (LoginDone form c (Inr ov))) = Console ov [])
    \<and> (\<forall>form c f. (form, c) \<in> set (a_pending s) \<longrightarrow>
        shows_form (page (step s (LoginDone form c (Inl f)))) (login_message engine f) False)
    \<and> (page s = None \<longrightarrow> shows_form (page (step s Logout)) [] False)
    \<and> (page s \<noteq> None \<longrightarrow> (\<forall>c outcome. page (step s Load) = page s \<and> page (step s (LoadDone c outcome)) = page s
        \<and> page (step s Logout) = page s))"
proof -
  have shown: "sign_in_page cls br s = (if a_credential s = [] then Some (Login cls br (a_form_error s) (a_busy s)) else None)" for s
    by (simp add: sign_in_page_def screen_def split: option.split)
  show ?thesis
    unfolding Let_def shows_form_page
    using visit_inv [of cls br clock engine stored es]
    by (elim form_inv_cases)
      (auto simp: visitor_step_def shown submittable_form submittable_login submit_def Let_def login_inputs demo_credential login_done_def
        form_idle_def screen_def load_def load_done_def sign_out_def split: sum.split)
qed

text \<open>An attempt that is refused, and one that succeeds and the form after its sign-out.\<close>

theorem sign_in_form_witness:
  "\<forall>br clock. let visited = (\<lambda>es. visit (\<lambda>_. []) br clock [] None es); attempt = Submit (lit ''a'') (lit ''x'') in
    shows_form (sign_in_page (\<lambda>_. []) br (visited [attempt, LoginDone 0 (lit ''YTp4'') (Inl (ApiError [] (Some 401)))]))
      (lit ''That username or password is not valid.'') False
    \<and> shows_form (sign_in_page (\<lambda>_. []) br (visited [attempt, LoginDone 0 (lit ''YTp4'') (Inr empty_overview), Logout])) [] False"
proof (intro allI, unfold Let_def, intro conjI)
  fix br :: Browser and clock :: "f64 \<Rightarrow> jsstr"
  let ?attempt = "Submit (lit ''a'') (lit ''x'')" and ?success = "LoginDone 0 (lit ''YTp4'') (Inr empty_overview)"
  let ?visited = "visit (\<lambda>_. []) br clock [] None" and ?step = "visitor_step (\<lambda>_. []) br clock []"
  have c: "btoa (lit ''a'' @ lit '':'' @ lit ''x'') = Some (lit ''YTp4'')" by (simp add: btoa_def lit_eval base64_unit_def)
  have snoc: "?visited (es @ [e]) = ?step (?visited es) e" for es e by (simp add: visit_def)
  have pending: "(0, lit ''YTp4'') \<in> set (a_pending (?visited [?attempt]))"
    using c by (simp add: visit_def visitor_step_def initial_app_def submittable_form submit_def)
  note first = sign_in_form [of "\<lambda>_. []" br clock "[]" None "[?attempt]", unfolded Let_def]
  have "shows_form (sign_in_page (\<lambda>_. []) br (?step (?visited [?attempt]) (LoginDone 0 (lit ''YTp4'') (Inl (ApiError [] (Some 401))))))
      (login_message [] (ApiError [] (Some 401))) False"
    using first pending by blast
  then show "shows_form (sign_in_page (\<lambda>_. []) br (?visited [?attempt, LoginDone 0 (lit ''YTp4'') (Inl (ApiError [] (Some 401)))]))
      (lit ''That username or password is not valid.'') False"
    using snoc [of "[?attempt]"] by (simp add: login_message_def unauthorized_def)
  have "screen (?step (?visited [?attempt]) ?success) = Console empty_overview []" using first pending by blast
  then have "sign_in_page (\<lambda>_. []) br (?visited [?attempt, ?success]) = None"
    using snoc [of "[?attempt]" ?success] by (simp add: sign_in_page_def)
  then have "shows_form (sign_in_page (\<lambda>_. []) br (?step (?visited [?attempt, ?success]) Logout)) [] False"
    using sign_in_form [of "\<lambda>_. []" br clock "[]" None "[?attempt, ?success]", unfolded Let_def] by blast
  then show "shows_form (sign_in_page (\<lambda>_. []) br (?visited [?attempt, ?success, Logout])) [] False"
    using snoc [of "[?attempt, ?success]" Logout] by simp
qed

end
