(* ===== verification/ConsoleBuild.thy ===== *)
theory ConsoleBuild
  imports Markup
begin

text \<open>
  The console's entry point, \<open>console/src/main.tsx\<close>, and the settings of its build:
  \<open>console/vite.config.ts\<close> and \<open>console/eslint.config.js\<close>, with the
  packages that \<open>App.tsx\<close> and \<open>ui.tsx\<close> import, which the chunks of the build are made of. Plugins and rule
  sets of third parties are named by the expressions the settings use.
\<close>

record ViteConfig =
  vc_plugins :: "string list"
  vc_base :: string
  vc_outDir :: string
  vc_emptyOutDir :: bool
  vc_manualChunks :: "(string \<times> string list) list"

definition vite_config :: ViteConfig where
  "vite_config =
     \<lparr> vc_plugins = [''react()''],
       vc_base = ''/'',
       vc_outDir = ''../landing/demo'',
       vc_emptyOutDir = True,
       vc_manualChunks =
         [(''charts'', [''recharts'']),
          (''radix'',
           [''@radix-ui/react-avatar'',
            ''@radix-ui/react-dropdown-menu'',
            ''@radix-ui/react-select'',
            ''@radix-ui/react-separator'',
            ''@radix-ui/react-tabs'',
            ''@radix-ui/react-tooltip''])] \<rparr>"

text \<open>An entry of the linter's settings either ignores paths or applies rules to files.\<close>

datatype LintEntry = Ignores "string list"
  | Rules (files: "string list") (extends: "string list") (ecmaVersion: int) (globals: string)

definition eslint_config :: "LintEntry list" where
  "eslint_config =
     [Ignores [''dist'', ''../landing/demo''],
      Rules [''**/*.{ts,tsx}'']
        [''js.configs.recommended'', ''tseslint.configs.recommended'', ''reactHooks.configs[recommended-latest]'',
         ''reactRefresh.configs.vite'']
        2022 ''globals.browser'']"

definition app_imports :: "string list" where
  "app_imports =
     [''@radix-ui/react-avatar'', ''@radix-ui/react-dropdown-menu'', ''@radix-ui/react-separator'', ''@radix-ui/react-tabs'',
      ''@tanstack/react-table'', ''lucide-react'', ''react'', ''react-router-dom'', ''recharts'', ''sonner'',
      ''./api'', ''./lib'', ''./types'', ''./ui'']"

definition ui_imports :: "string list" where
  "ui_imports = [''@radix-ui/react-select'', ''@radix-ui/react-tooltip'', ''lucide-react'', ''react'', ''./lib'']"

definition ignored :: "LintEntry list \<Rightarrow> string set" where
  "ignored es = (\<Union>e \<in> set es. case e of Ignores ps \<Rightarrow> set ps | Rules _ _ _ _ \<Rightarrow> {})"

text \<open>The linter leaves the built files alone, and the chunks hold exactly the packages of Radix that the console
  imports, each in one chunk.\<close>

lemma build_consistent:
  "vc_outDir vite_config \<in> ignored eslint_config"
  "distinct (concat (map snd (vc_manualChunks vite_config)))"
  "set (filter (\<lambda>m. take 10 m = ''@radix-ui/'') (app_imports @ ui_imports))
    = set (concat (map snd (filter (\<lambda>c. fst c = ''radix'') (vc_manualChunks vite_config))))"
  by (auto simp: vite_config_def eslint_config_def ignored_def app_imports_def ui_imports_def)

section \<open>The entry point\<close>

text \<open>What \<open>createRoot(...).render(...)\<close> mounts; a property without a value is \<open>true\<close>.\<close>

definition root_tree :: "string Node" where
  "root_tree = El ''StrictMode'' [] [El ''HashRouter'' [] [El ''App'' [] [],
     El ''Toaster'' [(''position'', ''bottom-right''), (''richColors'', ''true'')] []]]"

definition main_imports :: "string list" where
  "main_imports = [''react'', ''react-dom/client'', ''react-router-dom'', ''sonner'', ''./App'', ''./styles.css'']"

text \<open>The document gives the content of an element by its identifier; without the element \<open>createRoot\<close>
  throws, which is \<open>None\<close>.\<close>

definition mount_root :: "(string \<rightharpoonup> string Node list) \<Rightarrow> (string \<rightharpoonup> string Node list) option" where
  "mount_root doc = (case doc ''root'' of None \<Rightarrow> None | Some _ \<Rightarrow> Some (doc(''root'' \<mapsto> [root_tree])))"

text \<open>The application is mounted once, inside the router whose location it reads, beside what shows the
  messages that its buttons raise.\<close>

lemma app_in_router:
  "map (with_tag ''App'') (with_tag ''HashRouter'' root_tree) = [with_tag ''App'' root_tree]"
  "length (with_tag ''App'' root_tree) = 1" "length (with_tag ''Toaster'' root_tree) = 1"
  by (simp_all add: root_tree_def with_tag_def)

lemma mount_root_replaces: "mount_root doc = Some doc' \<longleftrightarrow> doc ''root'' \<noteq> None \<and> doc' = doc(''root'' \<mapsto> [root_tree])"
  by (auto simp: mount_root_def split: option.splits)

end
