(* ===== verification/StreamServer.thy ===== *)
theory StreamServer
  imports StreamLog
begin

text \<open>
  The server around one operator: any number of streams, named by \<open>'i\<close>, with the logs of their records,
  and an operator that reads them. The requests are those of \<open>crates/server/src/stream_api.rs\<close> and the
  periodic \<open>maintain_event_time\<close> of \<open>maintenance.rs\<close>; every transaction ends in the operator's part of
  \<open>refresh_declarative_operators\<close> (\<open>process.rs\<close>), with the record it has taken in, if any.

  The locale \<open>stream_operator\<close> is the contract between the server and an operator: what the operator
  keeps of the records, from any state the server may hand it, holds of every run of the server. It is
  interpreted for deduplication (\<open>Deduplicate\<close>) and interval joins (\<open>IntervalJoin\<close>).
\<close>

section \<open>The server\<close>

record ('i, 'v, 'op) Server =
  n_streams :: "'i \<Rightarrow> stream"
  n_logs :: "'i \<Rightarrow> 'v StreamRecord list"
  n_sequence :: "64 word"
  n_operator :: "'op option"

text \<open>An operator: how it is created over the records that there are, how it is refreshed, and its input
  streams; \<open>None\<close> is a failure, which fails the transaction.\<close>

record ('i, 'v, 'op) OperatorSetup =
  m_config :: "'i \<Rightarrow> StreamConfig"
  m_inputs :: "'i list"
  m_create :: "('i \<Rightarrow> 'v StreamRecord list) \<Rightarrow> 'op option"
  m_refresh :: "('i \<Rightarrow> StreamState) \<Rightarrow> ('i \<times> 'v StreamRecord) option \<Rightarrow> 'op \<Rightarrow> 'op option"

datatype ('i, 'v) OperatorRequest = Publish 'i nat f64 "jsstr option" 'v ChangeKind f64
  | Announce 'i nat f64 f64 | Close 'i nat f64 | Sweep f64 | Deploy

definition state_of :: "('i, 'v, 'op) Server \<Rightarrow> 'i \<Rightarrow> StreamState" where
  "state_of w i = fst (n_streams w i)"

definition commit_operator :: "('i, 'v, 'op) OperatorSetup \<Rightarrow> ('i \<times> 'v StreamRecord) option \<Rightarrow> ('i, 'v, 'op) Server
    \<Rightarrow> ('i, 'v, 'op) Server option" where
  "commit_operator setup entry w = (case n_operator w of
     None \<Rightarrow> Some w
   | Some op \<Rightarrow> map_option (\<lambda>op'. w\<lparr> n_operator := Some op' \<rparr>) (m_refresh setup (state_of w) entry op))"

definition update_stream :: "'i \<Rightarrow> stream \<Rightarrow> ('i, 'v, 'op) Server \<Rightarrow> ('i, 'v, 'op) Server" where
  "update_stream i st w = w\<lparr> n_streams := (n_streams w)(i := st) \<rparr>"

definition log_record :: "'i \<Rightarrow> 'v StreamRecord \<Rightarrow> ('i, 'v, 'op) Server \<Rightarrow> ('i, 'v, 'op) Server" where
  "log_record i r w = w\<lparr> n_logs := (n_logs w)(i := put_by slot_of r (n_logs w i)) \<rparr>"

definition publish_record :: "('i, 'v, 'op) OperatorSetup \<Rightarrow> 'i \<Rightarrow> nat \<Rightarrow> f64 \<Rightarrow> jsstr option \<Rightarrow> 'v \<Rightarrow> ChangeKind \<Rightarrow> f64
    \<Rightarrow> ('i, 'v, 'op) Server \<Rightarrow> ('i, 'v, 'op) Server option" where
  "publish_record setup i part event_time key val kind now w =
     (case append_record (m_config setup i) part event_time now (n_streams w i) of
        Inl _ \<Rightarrow> None
      | Inr (d, st) \<Rightarrow>
          let seq = n_sequence w + 1;
              r = \<lparr> r_partition = part, r_offset = q_next_offset (snd (n_streams w i) ! part), r_sequence = seq,
                    r_event_time = event_time, r_key = key, r_value = val, r_kind = kind \<rparr>;
              w' = update_stream i st (w\<lparr> n_sequence := seq \<rparr>)
          in if taken d then commit_operator setup (Some (i, r)) (log_record i r w') else commit_operator setup None w')"

definition create_operator :: "('i, 'v, 'op) OperatorSetup \<Rightarrow> ('i, 'v, 'op) Server \<Rightarrow> ('i, 'v, 'op) Server option" where
  "create_operator setup w =
     (if list_ex (\<lambda>i. g_late_policy (m_config setup i) = Accept) (m_inputs setup) then None
      else if n_operator w \<noteq> None then Some w
      else case m_create setup (n_logs w) of
             None \<Rightarrow> None
           | Some op \<Rightarrow> commit_operator setup None (w\<lparr> n_operator := Some op \<rparr>))"

text \<open>The transaction of a request; \<open>None\<close> when it fails.\<close>

fun server_transaction :: "('i, 'v, 'op) OperatorSetup \<Rightarrow> ('i, 'v, 'op) Server \<Rightarrow> ('i, 'v) OperatorRequest
    \<Rightarrow> ('i, 'v, 'op) Server option" where
  "server_transaction setup w (Publish i part event_time key val kind now) =
     publish_record setup i part event_time key val kind now w"
| "server_transaction setup w (Announce i part watermark now) =
     (case advance_stream (m_config setup i) part watermark now (n_streams w i) of
        Inl _ \<Rightarrow> None | Inr st \<Rightarrow> commit_operator setup None (update_stream i st w))"
| "server_transaction setup w (Close i part now) =
     (case seal_partition (m_config setup i) part now (n_streams w i) of
        Inl _ \<Rightarrow> None | Inr st \<Rightarrow> commit_operator setup None (update_stream i st w))"
| "server_transaction setup w (Sweep now) =
     commit_operator setup None (w\<lparr> n_streams := (\<lambda>i. refresh_stream (m_config setup i) now (n_streams w i)) \<rparr>)"
| "server_transaction setup w Deploy = create_operator setup w"

definition server_step :: "('i, 'v, 'op) OperatorSetup \<Rightarrow> ('i, 'v, 'op) Server \<Rightarrow> ('i, 'v) OperatorRequest
    \<Rightarrow> ('i, 'v, 'op) Server" where
  "server_step setup w e = (case server_transaction setup w e of None \<Rightarrow> w | Some w' \<Rightarrow> w')"

definition new_server :: "('i, 'v, 'op) OperatorSetup \<Rightarrow> f64 \<Rightarrow> ('i, 'v, 'op) Server" where
  "new_server setup now = \<lparr> n_streams = (\<lambda>i. open_stream (m_config setup i) now), n_logs = (\<lambda>i. []), n_sequence = 0,
     n_operator = None \<rparr>"

section \<open>What the server promises its operator\<close>

definition frontiers :: "('i, 'v, 'op) OperatorSetup \<Rightarrow> ('i \<Rightarrow> StreamState) \<Rightarrow> 'i \<Rightarrow> f64 option" where
  "frontiers setup states i = completeness_frontier (m_config setup i) (states i)"

text \<open>Logs are in the order of their sequence numbers, and their slots are unique.\<close>

definition in_sequence :: "'v StreamRecord list \<Rightarrow> bool" where
  "in_sequence rs \<longleftrightarrow> sorted_wrt (\<lambda>a b. r_sequence a < r_sequence b) rs"

definition logs_ok :: "(f64 \<Rightarrow> bool) \<Rightarrow> ('i \<Rightarrow> 'v StreamRecord list) \<Rightarrow> bool" where
  "logs_ok time_ok logs \<longleftrightarrow> (\<forall>i. in_sequence (logs i) \<and> inj_on slot_of (set (logs i))
     \<and> (\<forall>r \<in> set (logs i). mark_time (r_event_time r) \<and> time_ok (r_event_time r)))"

text \<open>What a transaction has recorded: nothing, or one record, beyond the frontier of an input.\<close>

definition entered :: "'i list \<Rightarrow> ('i \<Rightarrow> f64 option) \<Rightarrow> ('i \<Rightarrow> 'v StreamRecord list) \<Rightarrow> ('i \<times> 'v StreamRecord) option
    \<Rightarrow> ('i \<Rightarrow> 'v StreamRecord list) \<Rightarrow> bool" where
  "entered inputs F logs entry logs' \<longleftrightarrow> (case entry of None \<Rightarrow> logs' = logs
   | Some (i, r) \<Rightarrow> logs' = logs(i := logs i @ [r]) \<and> (i \<in> set inputs \<longrightarrow> beyond (F i) (r_event_time r)))"

definition proper_frontier :: "f64 option \<Rightarrow> bool" where
  "proper_frontier F \<longleftrightarrow> (\<forall>f. F = Some f \<longrightarrow> f \<noteq> NaN \<and> fle f f64_max)"

definition moved :: "('i \<Rightarrow> f64 option) \<Rightarrow> ('i \<Rightarrow> f64 option) \<Rightarrow> bool" where
  "moved F F' \<longleftrightarrow> (\<forall>i. opt_le (F i) (F' i) \<and> proper_frontier (F i) \<and> proper_frontier (F' i))"

fun operator_request_ok :: "(f64 \<Rightarrow> bool) \<Rightarrow> ('i, 'v) OperatorRequest \<Rightarrow> bool" where
  "operator_request_ok time_ok (Publish i part t key val kind now) = (valid64 t \<and> time_ok t)"
| "operator_request_ok time_ok (Announce i part w now) = valid64 w"
| "operator_request_ok time_ok _ = True"

definition streams_fine :: "(f64 \<Rightarrow> bool) \<Rightarrow> ('i, 'v, 'op) OperatorSetup \<Rightarrow> ('i, 'v, 'op) Server \<Rightarrow> bool" where
  "streams_fine time_ok setup w \<longleftrightarrow> (\<forall>i. gate_inv (m_config setup i) (n_streams w i)
     \<and> log_ok (n_streams w i) (n_sequence w) (n_logs w i)) \<and> logs_ok time_ok (n_logs w)"

lemma in_sequence_distinct: "in_sequence rs \<Longrightarrow> distinct rs"
  unfolding in_sequence_def by (induction rs) auto

lemma in_sequence_sort:
  assumes "in_sequence rs" "mset rs' = mset rs"
  shows "sort_key r_sequence rs' = rs"
proof -
  have "sorted_wrt (<) (map r_sequence rs)" using assms(1) by (simp add: in_sequence_def sorted_wrt_map)
  then have sorted: "sorted (map r_sequence rs)" "distinct (map r_sequence rs)" by (simp_all add: strict_sorted_iff)
  then have "inj_on r_sequence (set rs')" using mset_eq_setD [OF assms(2)] by (simp add: distinct_map)
  with sorted(1) assms(2) show ?thesis by (intro sort_key_inj_key_eq)
qed

lemma proper_frontiers: "streams_fine time_ok setup w \<Longrightarrow> proper_frontier (frontiers setup (state_of w) i)"
  using gate_frontier [of "m_config setup i" "n_streams w i"]
  by (simp add: proper_frontier_def streams_fine_def frontiers_def state_of_def)

text \<open>A state of the server before its operator is refreshed.\<close>

definition prepared :: "(f64 \<Rightarrow> bool) \<Rightarrow> ('i, 'v, 'op) OperatorSetup \<Rightarrow> ('i \<times> 'v StreamRecord) option
    \<Rightarrow> ('i, 'v, 'op) Server \<Rightarrow> ('i, 'v, 'op) Server \<Rightarrow> bool" where
  "prepared time_ok setup entry w w' \<longleftrightarrow> streams_fine time_ok setup w' \<and> n_operator w' = n_operator w
     \<and> moved (frontiers setup (state_of w)) (frontiers setup (state_of w'))
     \<and> (list_all (\<lambda>i. g_late_policy (m_config setup i) \<noteq> Accept) (m_inputs setup) \<longrightarrow>
          entered (m_inputs setup) (frontiers setup (state_of w)) (n_logs w) entry (n_logs w'))"

lemma update_prepared:
  assumes w: "streams_fine time_ok setup w" and e: "request_ok e" "stream_step (m_config setup i) (n_streams w i) e = st"
    and offsets: "map q_next_offset (snd st) = map q_next_offset (snd (n_streams w i))"
  shows "prepared time_ok setup None w (update_stream i st w)"
proof -
  have gate: "gate_inv (m_config setup i) (n_streams w i)" using w by (simp add: streams_fine_def)
  note step = gate_step [OF gate e(1), unfolded e(2)]
  have fine: "streams_fine time_ok setup (update_stream i st w)"
    using w step(1) log_ok_later [OF _ order_refl offsets] by (auto simp: streams_fine_def update_stream_def)
  have "opt_le (frontiers setup (state_of w) k) (frontiers setup (state_of (update_stream i st w)) k)" for k
    using step(2) by (simp add: frontiers_def state_of_def update_stream_def)
  with fine proper_frontiers [OF w] proper_frontiers [OF fine] show ?thesis
    by (simp add: prepared_def moved_def entered_def update_stream_def)
qed

lemma sweep_prepared:
  assumes w: "streams_fine time_ok setup w"
  shows "prepared time_ok setup None w (w\<lparr> n_streams := (\<lambda>i. refresh_stream (m_config setup i) now (n_streams w i)) \<rparr>)"
    (is "prepared _ _ _ _ ?w")
proof -
  have gate: "gate_inv (m_config setup i) (n_streams w i)" for i using w by (simp add: streams_fine_def)
  note step = gate_step [OF gate, of "Tick now", simplified]
  have offsets: "map q_next_offset (snd (refresh_stream config now st)) = map q_next_offset (snd st)" for config st
    by (cases st) simp
  have "log_ok (refresh_stream (m_config setup i) now (n_streams w i)) (n_sequence w) (n_logs w i)" for i
    using w by (intro log_ok_later [OF _ order_refl offsets]) (simp add: streams_fine_def)
  with w step(1) have fine: "streams_fine time_ok setup ?w" by (simp add: streams_fine_def)
  have "opt_le (frontiers setup (state_of w) k) (frontiers setup (state_of ?w) k)" for k
    using step(2) by (simp add: frontiers_def state_of_def)
  with fine proper_frontiers [OF w] proper_frontiers [OF fine] show ?thesis
    by (simp add: prepared_def moved_def entered_def)
qed

text \<open>A record gets the next numbers; when it is taken in, it lies beyond the frontier.\<close>

lemma publish_prepared:
  assumes w: "streams_fine time_ok setup w" and t: "valid64 t" "time_ok t" and n: "unat (n_sequence w) + 1 < 2 ^ 64"
    and run: "publish_record setup i part t key val kind now w = Some w'"
  obtains entry v where "prepared time_ok setup entry w v" "commit_operator setup entry v = Some w'"
    "n_sequence v = n_sequence w + 1"
proof -
  let ?config = "m_config setup i" and ?st = "n_streams w i" and ?n = "n_sequence w + 1"
  obtain d st where st: "append_record ?config part t now ?st = Inr (d, st)"
    using run by (auto simp: publish_record_def split: sum.splits)
  define r where "r = \<lparr> r_partition = part, r_offset = q_next_offset (snd ?st ! part), r_sequence = ?n,
      r_event_time = t, r_key = key, r_value = val, r_kind = kind \<rparr>"
  define u where "u = update_stream i st (w\<lparr> n_sequence := ?n \<rparr>)"
  define v where "v = (if taken d then log_record i r u else u)"
  define entry where "entry = (if taken d then Some (i, r) else None)"
  have v: "commit_operator setup entry v = Some w'"
    using run unfolding publish_record_def st entry_def v_def u_def r_def by (simp add: Let_def split: if_splits)
  have gate: "gate_inv ?config ?st" and log: "log_ok ?st (n_sequence w) (n_logs w i)" and seq: "in_sequence (n_logs w i)"
    using w by (simp_all add: streams_fine_def logs_ok_def)
  have step: "stream_step ?config ?st (Append part t now) = st" by (simp add: st committed_def)
  have new: "gate_inv ?config st" "opt_le (completeness_frontier ?config (fst ?st)) (completeness_frontier ?config (fst st))"
    using gate_step [OF gate, of "Append part t now"] t(1) by (simp_all only: step request_ok.simps)
  note next_offset = append_next_offset [OF st gate_length [OF gate]]
  have time: "mark_time t" using t(1) next_offset(3) by (rule mark_time_finite)
  have up: "n_sequence w \<le> ?n" "n_sequence w < ?n"
    using n by (simp_all add: word_le_nat_alt word_less_nat_alt unat_word_ariths(1) take_bit_nat_eq_self)
  have far: "beyond (completeness_frontier ?config (fst ?st)) t" if "taken d" "g_late_policy ?config \<noteq> Accept"
    using taken_beyond_frontier [OF _ _ t(1) that(2) st that(1)] gate by (simp add: beyond_def gate_inv_def)
  note log' = log_ok_append [OF log n next_offset(2,1), of r, simplified r_def StreamRecord.simps, OF refl refl refl time,
      folded r_def]
  have old: "r_sequence x \<le> n_sequence w" "slot_of x \<noteq> slot_of r" if "x \<in> set (n_logs w i)" for x
  proof -
    show "r_sequence x \<le> n_sequence w" using log that by (simp add: log_ok_def)
    have "inj_on slot_of (insert r (set (n_logs w i)))" using log'(2,3) by (simp add: log_ok_def)
    then show "slot_of x \<noteq> slot_of r" using log'(4) that by (auto simp: inj_on_def)
  qed
  then have put: "put_by slot_of r (n_logs w i) = n_logs w i @ [r]" by (auto simp: put_by_def)
  have less: "r_sequence x < r_sequence r" if "x \<in> set (n_logs w i)" for x
    unfolding r_def StreamRecord.simps using old(1) [OF that] up(2) by (rule le_less_trans)
  have seq': "in_sequence (n_logs w i @ [r])"
    using seq less by (simp add: in_sequence_def sorted_wrt_append)
  have r: "time_ok (r_event_time r)" "mark_time (r_event_time r)" unfolding r_def StreamRecord.simps using t(2) time by simp_all
  have other: "log_ok (n_streams w k) ?n (n_logs w k)" for k
    using w by (intro log_ok_later [OF _ up(1) refl]) (simp add: streams_fine_def)
  have v': "n_streams v = (n_streams w)(i := st)" "n_sequence v = ?n"
    "n_logs v = (if taken d then (n_logs w)(i := n_logs w i @ [r]) else n_logs w)"
    by (simp_all add: v_def u_def update_stream_def log_record_def put)
  have logs: "logs_ok time_ok (n_logs w)" and gates: "gate_inv (m_config setup k) (n_streams w k)" for k
    using w by (simp_all add: streams_fine_def)
  have "inj_on slot_of (set (n_logs w i @ [r]))"
    using log'(2,3) unfolding put log_ok_def by simp
  with logs seq' r have "logs_ok time_ok (n_logs v)"
    unfolding v' by (simp add: logs_ok_def)
  moreover have "log_ok (n_streams v k) ?n (n_logs v k)" for k
    using other [of k] log'(1,2) unfolding put by (simp add: v')
  ultimately have fine: "streams_fine time_ok setup v"
    using gates new(1) by (simp add: streams_fine_def v')
  have states: "state_of v = (state_of w)(i := fst st)"
    by (simp add: fun_eq_iff state_of_def v_def u_def update_stream_def log_record_def)
  have "opt_le (frontiers setup (state_of w) k) (frontiers setup (state_of v) k)" for k
    using new(2) by (simp add: frontiers_def states) (simp add: state_of_def)
  then have "moved (frontiers setup (state_of w)) (frontiers setup (state_of v))"
    using proper_frontiers [OF w] proper_frontiers [OF fine] by (simp add: moved_def)
  moreover have "entered (m_inputs setup) (frontiers setup (state_of w)) (n_logs w) entry (n_logs v)"
    if "list_all (\<lambda>i. g_late_policy (m_config setup i) \<noteq> Accept) (m_inputs setup)"
  proof -
    have "r_event_time r = t" by (simp add: r_def)
    with far that show ?thesis
      unfolding entered_def entry_def v' by (auto simp: list_all_iff frontiers_def state_of_def)
  qed
  ultimately have "prepared time_ok setup entry w v"
    using fine by (simp add: prepared_def v_def u_def update_stream_def log_record_def)
  then show thesis using v by (rule that) (simp add: v_def u_def update_stream_def log_record_def)
qed

section \<open>The contract\<close>

text \<open>
  \<open>reliable\<close> is what is relied on of the store, \<open>time_ok\<close> the times that records may have, and
  \<open>inv F logs op\<close> what the operator keeps when the logs of the streams are \<open>logs\<close> and their frontiers
  were \<open>F\<close> when it was last refreshed.
\<close>

locale stream_operator =
  fixes ops :: "('i, 'v, 'op) OperatorSetup"
    and reliable :: bool
    and time_ok :: "f64 \<Rightarrow> bool"
    and inv :: "('i \<Rightarrow> f64 option) \<Rightarrow> ('i \<Rightarrow> 'v StreamRecord list) \<Rightarrow> 'op \<Rightarrow> bool"
  assumes create_inv: "reliable \<Longrightarrow> logs_ok time_ok logs \<Longrightarrow> m_create ops logs = Some op \<Longrightarrow> inv (\<lambda>i. None) logs op"
    and refresh_inv: "reliable \<Longrightarrow> inv F logs op \<Longrightarrow> logs_ok time_ok logs' \<Longrightarrow> moved F (frontiers ops states)
      \<Longrightarrow> entered (m_inputs ops) F logs entry logs' \<Longrightarrow> m_refresh ops states entry op = Some op'
      \<Longrightarrow> inv (frontiers ops states) logs' op'"
begin

definition server_ok :: "('i, 'v, 'op) Server \<Rightarrow> bool" where
  "server_ok w \<longleftrightarrow> streams_fine time_ok ops w \<and> (\<forall>op. n_operator w = Some op \<longrightarrow>
     list_all (\<lambda>i. g_late_policy (m_config ops i) \<noteq> Accept) (m_inputs ops)
     \<and> inv (frontiers ops (state_of w)) (n_logs w) op)"

lemma operator_commit:
  assumes "reliable" "server_ok w" and prep: "prepared time_ok ops entry w v" and run: "commit_operator ops entry v = Some w'"
  shows "server_ok w' \<and> n_sequence w' = n_sequence v"
proof (cases "n_operator w")
  case None
  then have "n_operator v = None" using prep by (simp add: prepared_def)
  then show ?thesis using run prep by (auto simp: commit_operator_def server_ok_def prepared_def)
next
  case (Some op)
  then obtain op' where op': "m_refresh ops (state_of v) entry op = Some op'" "w' = v\<lparr> n_operator := Some op' \<rparr>"
    using run prep by (auto simp: commit_operator_def prepared_def)
  have ok: "list_all (\<lambda>i. g_late_policy (m_config ops i) \<noteq> Accept) (m_inputs ops)"
    "inv (frontiers ops (state_of w)) (n_logs w) op"
    using assms(2) Some by (simp_all add: server_ok_def)
  have "inv (frontiers ops (state_of v)) (n_logs v) op'"
    using prep ok(1) by (intro refresh_inv [OF assms(1) ok(2) _ _ _ op'(1)]) (auto simp: prepared_def streams_fine_def)
  with ok(1) prep op'(2) show ?thesis by (simp add: server_ok_def prepared_def streams_fine_def state_of_def [abs_def])
qed

lemma operator_create:
  assumes "reliable" "server_ok w" and run: "create_operator ops w = Some w'"
  shows "server_ok w' \<and> n_sequence w' = n_sequence w"
proof (cases "n_operator w")
  case None
  have policy: "list_all (\<lambda>i. g_late_policy (m_config ops i) \<noteq> Accept) (m_inputs ops)"
    using run by (auto simp: create_operator_def list_all_iff list_ex_iff split: if_splits)
  obtain op op' where op: "m_create ops (n_logs w) = Some op" "m_refresh ops (state_of w) None op = Some op'"
    and w': "w' = w\<lparr> n_operator := Some op' \<rparr>"
    using run None
    by (auto simp: create_operator_def commit_operator_def state_of_def [abs_def] split: if_splits option.splits)
  have fine: "streams_fine time_ok ops w" using assms(2) by (simp add: server_ok_def)
  then have logs: "logs_ok time_ok (n_logs w)" by (simp add: streams_fine_def)
  have "moved (\<lambda>i. None) (frontiers ops (state_of w))"
    using proper_frontiers [OF fine] by (simp add: moved_def proper_frontier_def opt_le_def)
  then have "inv (frontiers ops (state_of w)) (n_logs w) op'"
    using refresh_inv [OF assms(1) create_inv [OF assms(1) logs op(1)] logs _ _ op(2)] by (simp add: entered_def)
  with policy fine show ?thesis by (simp add: w' server_ok_def streams_fine_def state_of_def [abs_def])
next
  case (Some op)
  then show ?thesis using run assms(2) by (auto simp: create_operator_def split: if_splits)
qed

lemma operator_step:
  assumes "reliable" "server_ok w" "operator_request_ok time_ok e" and n: "unat (n_sequence w) + 1 < 2 ^ 64"
  shows "server_ok (server_step ops w e) \<and> unat (n_sequence (server_step ops w e)) \<le> unat (n_sequence w) + 1"
proof (cases "server_transaction ops w e")
  case None
  with assms(2) show ?thesis by (simp add: server_step_def)
next
  case (Some w')
  have w': "server_step ops w e = w'" using Some by (simp add: server_step_def)
  have fine: "streams_fine time_ok ops w" using assms(2) by (simp add: server_ok_def)
  note commit = operator_commit [OF assms(1,2)]
  show ?thesis
  proof (cases e)
    case (Publish i part t key val kind now)
    then have t: "valid64 t" "time_ok t" and run: "publish_record ops i part t key val kind now w = Some w'"
      using assms(3) Some by simp_all
    obtain entry v where "prepared time_ok ops entry w v" "commit_operator ops entry v = Some w'"
      "n_sequence v = n_sequence w + 1"
      using publish_prepared [of time_ok, OF fine t n run] .
    with commit show ?thesis unfolding w' using n by (auto simp: unat_word_ariths(1) take_bit_nat_eq_self)
  next
    case (Announce i part x now)
    then obtain st where st: "advance_stream (m_config ops i) part x now (n_streams w i) = Inr st"
      and run: "commit_operator ops None (update_stream i st w) = Some w'"
      using Some by (auto split: sum.splits)
    have "prepared time_ok ops None w (update_stream i st w)"
      by (rule update_prepared [OF fine, of "Advance part x now"])
        (use assms(3) Announce advance_next_offset [OF st] in \<open>simp_all add: st committed_def\<close>)
    from commit [OF this run] show ?thesis unfolding w' by (simp add: update_stream_def)
  next
    case (Close i part now)
    then obtain st where st: "seal_partition (m_config ops i) part now (n_streams w i) = Inr st"
      and run: "commit_operator ops None (update_stream i st w) = Some w'"
      using Some by (auto split: sum.splits)
    have "prepared time_ok ops None w (update_stream i st w)"
      by (rule update_prepared [OF fine, of "Seal part now"])
        (use seal_next_offset [OF st] in \<open>simp_all add: st committed_def\<close>)
    from commit [OF this run] show ?thesis unfolding w' by (simp add: update_stream_def)
  next
    case (Sweep now)
    from commit [OF sweep_prepared [OF fine, of now]] Some Sweep show ?thesis unfolding w' by simp
  next
    case Deploy
    with operator_create [OF assms(1,2)] Some show ?thesis unfolding w' by simp
  qed
qed

lemma operator_new: "\<forall>i. validate_config (m_config ops i) \<Longrightarrow> server_ok (new_server ops now)"
  using open_gated
  by (auto simp: server_ok_def streams_fine_def logs_ok_def in_sequence_def new_server_def gate_inv_def log_ok_def
      open_stream_def new_partition_def)

lemma operator_run_from:
  assumes "reliable" "list_all (operator_request_ok time_ok) es" "server_ok w" "unat (n_sequence w) + length es < 2 ^ 64"
  shows "server_ok (foldl (server_step ops) w es)"
  using assms(2-4)
proof (induction es arbitrary: w)
  case (Cons e es)
  have "server_ok (server_step ops w e)" "unat (n_sequence (server_step ops w e)) \<le> unat (n_sequence w) + 1"
    using operator_step [OF assms(1) Cons.prems(2), of e] Cons.prems by auto
  with Cons.IH Cons.prems show ?case by simp
qed simp

text \<open>What the operator keeps holds of every run of fewer than \<open>2 ^ 64\<close> requests.\<close>

lemma operator_run:
  assumes "reliable" "\<forall>i. validate_config (m_config ops i)" "list_all (operator_request_ok time_ok) es" "length es < 2 ^ 64"
    and "n_operator (foldl (server_step ops) (new_server ops now) es) = Some op"
  shows "inv (frontiers ops (state_of (foldl (server_step ops) (new_server ops now) es)))
      (n_logs (foldl (server_step ops) (new_server ops now) es)) op"
    and "logs_ok time_ok (n_logs (foldl (server_step ops) (new_server ops now) es))"
proof -
  have "unat (n_sequence (new_server ops now)) + length es < 2 ^ 64" using assms(4) by (simp add: new_server_def)
  from operator_run_from [OF assms(1,3) operator_new [OF assms(2)] this]
  have ok: "server_ok (foldl (server_step ops) (new_server ops now) es)" .
  then show "inv (frontiers ops (state_of (foldl (server_step ops) (new_server ops now) es)))
      (n_logs (foldl (server_step ops) (new_server ops now) es)) op"
    using assms(5) by (simp add: server_ok_def)
  show "logs_ok time_ok (n_logs (foldl (server_step ops) (new_server ops now) es))"
    using ok by (simp add: server_ok_def streams_fine_def)
qed

end

section \<open>Examples\<close>

text \<open>A stream of one partition, for the runs that the properties are tried on.\<close>

definition one_stream :: "'i \<Rightarrow> StreamConfig" where
  "one_stream i = \<lparr> g_partitions = 1, g_watermark_mode = Bounded, g_max_out_of_orderness = num 5, g_idle_timeout = None,
     g_allowed_lateness = num 0, g_alignment_max_drift = None, g_late_policy = Drop \<rparr>"

lemma one_stream_valid: "validate_config (one_stream i)"
  by (simp add: one_stream_def validate_config_def non_negative_def num_def)

text \<open>What evaluates a run of the server.\<close>

lemmas run_simps = server_step_def create_operator_def one_stream_def commit_operator_def new_server_def state_of_def
  open_stream_def new_stream_def new_partition_def completeness_frontier_def publish_record_def append_record_def
  watermark_delay_def ensure_watermark_alignment_def observe_def refresh_stream_def refresh_def mark_idle_def least_active_def
  active_partitions_def reduce_def raise_to_def rs_max_def opt_feq_def disposition_def is_too_late_def is_late_def taken_def
  feq_def Let_def fsub_num fadd_num num_not_NaN upt_rec List.map_filter_simps update_stream_def log_record_def keyed_def
  is_addition_def weight_def put_by_def get_by_def delete_by_def slot_of_def

end
