(* ===== verification/Deduplicate.thy ===== *)
theory Deduplicate
  imports StreamServer
begin

text \<open>
  Deduplication of the server: \<open>index_deduplicate_record\<close> and \<open>refresh_deduplicates\<close> of
  \<open>crates/server/src/operators.rs\<close> with \<open>Deduplicate\<close> and \<open>DeduplicateOutput\<close> of \<open>streaming.rs\<close>, and
  \<open>create_deduplicate\<close> of \<open>stream_api.rs\<close>. Records wait until the stream is complete through their time;
  then, in the order of time and sequence, the first of each key is emitted and the rest are suppressed.

  The abstract specification is \<open>first_of_key\<close>: of all records of a key, the least by time and sequence.
  The code is proved to emit exactly those up to the frontier, whatever arrives later.
\<close>

section \<open>The operator\<close>

record 'v DeduplicateOutput =
  t_record :: "'v StreamRecord"
  t_canonical :: bool
  t_canonical_record :: "'v StreamRecord"
  t_workflow :: "slot option"

record 'v Deduplicate =
  b_buffer :: "'v StreamRecord list"
  b_state :: "'v StreamRecord list"
  b_outputs :: "'v DeduplicateOutput list"
  b_changes :: "'v StreamRecord list"
  b_records_received :: "64 word"
  b_records_emitted :: "64 word"
  b_duplicates_suppressed :: "64 word"

definition new_deduplicate :: "'v Deduplicate" where
  "new_deduplicate = \<lparr> b_buffer = [], b_state = [], b_outputs = [], b_changes = [], b_records_received = 0,
     b_records_emitted = 0, b_duplicates_suppressed = 0 \<rparr>"

text \<open>The error for a record without a key, or one that is not an insertion, is \<open>None\<close>.\<close>

definition index_deduplicate_record :: "'v StreamRecord \<Rightarrow> 'v Deduplicate \<Rightarrow> 'v Deduplicate option" where
  "index_deduplicate_record r d =
     (if \<not> keyed r \<or> \<not> is_addition (r_kind r) then None
      else Some (d\<lparr> b_buffer := put_by slot_of r (b_buffer d), b_records_received := b_records_received d + 1 \<rparr>))"

text \<open>The key under which an output is stored is the slot of its record.\<close>

definition output_slot :: "'v DeduplicateOutput \<Rightarrow> slot" where
  "output_slot x = slot_of (t_record x)"

definition release_record :: "'v Deduplicate \<Rightarrow> 'v StreamRecord \<Rightarrow> 'v Deduplicate" where
  "release_record d r =
     (let existing = get_by r_key (r_key r) (b_state d);
          canonical = (case existing of None \<Rightarrow> r | Some c \<Rightarrow> c);
          workflow = (if existing = None then Some (slot_of r) else None);
          d = (if existing = None
               then d\<lparr> b_state := put_by r_key r (b_state d), b_changes := b_changes d @ [r],
                       b_records_emitted := b_records_emitted d + 1 \<rparr>
               else d\<lparr> b_duplicates_suppressed := b_duplicates_suppressed d + 1 \<rparr>)
      in d\<lparr> b_outputs := put_by output_slot \<lparr> t_record = r, t_canonical = (workflow \<noteq> None), t_canonical_record = canonical,
             t_workflow = workflow \<rparr> (b_outputs d),
           b_buffer := delete_by slot_of r (b_buffer d) \<rparr>)"

definition refresh_deduplicate :: "('v StreamRecord list \<Rightarrow> 'v StreamRecord list) \<Rightarrow> StreamConfig \<Rightarrow> StreamState
    \<Rightarrow> 'v Deduplicate \<Rightarrow> 'v Deduplicate" where
  "refresh_deduplicate scan config state d =
     (case completeness_frontier config state of
        None \<Rightarrow> d
      | Some frontier \<Rightarrow>
          let due_records = sort_by version_le (filter (\<lambda>r. fle (r_event_time r) frontier) (scan (b_buffer d)));
              d' = foldl release_record d due_records
          in if z_finalized state then d'\<lparr> b_state := [] \<rparr> else d')"

definition refresh_deduplicates :: "('v StreamRecord list \<Rightarrow> 'v StreamRecord list) \<Rightarrow> 'i \<Rightarrow> StreamConfig
    \<Rightarrow> ('i \<Rightarrow> StreamState) \<Rightarrow> ('i \<times> 'v StreamRecord) option \<Rightarrow> 'v Deduplicate \<Rightarrow> 'v Deduplicate option" where
  "refresh_deduplicates scan input config states entry d =
     map_option (refresh_deduplicate scan config (states input))
       (case entry of None \<Rightarrow> Some d | Some (i, r) \<Rightarrow> if i = input then index_deduplicate_record r d else Some d)"

fun index_deduplicate_records :: "'v StreamRecord list \<Rightarrow> 'v Deduplicate \<Rightarrow> 'v Deduplicate option" where
  "index_deduplicate_records [] d = Some d"
| "index_deduplicate_records (r # rs) d = Option.bind (index_deduplicate_record r d) (index_deduplicate_records rs)"

text \<open>\<open>create_deduplicate\<close>.\<close>

definition create_deduplicate :: "('v StreamRecord list \<Rightarrow> 'v StreamRecord list) \<Rightarrow> 'i \<Rightarrow> ('i \<Rightarrow> 'v StreamRecord list)
    \<Rightarrow> 'v Deduplicate option" where
  "create_deduplicate scan input logs = index_deduplicate_records (scan (logs input)) new_deduplicate"

definition deduplicating :: "('v StreamRecord list \<Rightarrow> 'v StreamRecord list) \<Rightarrow> 'i \<Rightarrow> ('i \<Rightarrow> StreamConfig)
    \<Rightarrow> ('i, 'v, 'v Deduplicate) OperatorSetup" where
  "deduplicating scan input configs = \<lparr> m_config = configs, m_inputs = [input], m_create = create_deduplicate scan input,
     m_refresh = refresh_deduplicates scan input (configs input) \<rparr>"

section \<open>The specification\<close>

definition earlier_record :: "'v StreamRecord \<Rightarrow> 'v StreamRecord \<Rightarrow> 'v StreamRecord" where
  "earlier_record a b = (if version_le a b then a else b)"

definition first_of_key :: "'v StreamRecord list \<Rightarrow> jsstr option \<Rightarrow> 'v StreamRecord option" where
  "first_of_key rs k = reduce earlier_record (filter (\<lambda>r. r_key r = k) rs)"

definition is_first :: "'v StreamRecord list \<Rightarrow> 'v StreamRecord \<Rightarrow> bool" where
  "is_first rs r \<longleftrightarrow> first_of_key rs (r_key r) = Some r"

text \<open>The output for a record, as all records of its stream determine it.\<close>

definition deduplicated :: "'v StreamRecord list \<Rightarrow> 'v StreamRecord \<Rightarrow> 'v DeduplicateOutput" where
  "deduplicated rs r = \<lparr> t_record = r, t_canonical = is_first rs r,
     t_canonical_record = (case first_of_key rs (r_key r) of None \<Rightarrow> r | Some c \<Rightarrow> c),
     t_workflow = (if is_first rs r then Some (slot_of r) else None) \<rparr>"

lemma foldl_earlier_record:
  "foldl earlier_record a xs \<in> insert a (set xs) \<and> (\<forall>x \<in> insert a (set xs). version_le (foldl earlier_record a xs) x)"
proof (induction xs arbitrary: a)
  case (Cons x xs)
  have "version_le (earlier_record a x) a" "version_le (earlier_record a x) x" "earlier_record a x \<in> {a, x}"
    using version_le_total [of a x] by (auto simp: earlier_record_def)
  with Cons.IH [of "earlier_record a x"] show ?case using version_le_trans by auto
qed simp

lemma first_of_key_iff:
  assumes inj: "inj_on r_sequence (set rs)"
  shows "first_of_key rs k = Some c \<longleftrightarrow> c \<in> set rs \<and> r_key c = k \<and> (\<forall>x \<in> set rs. r_key x = k \<longrightarrow> version_le c x)"
    (is "_ \<longleftrightarrow> ?least c")
proof -
  have least: "?least c" if "first_of_key rs k = Some c" for c
  proof -
    obtain y ys where ys: "filter (\<lambda>r. r_key r = k) rs = y # ys" "c = foldl earlier_record y ys"
      using \<open>first_of_key rs k = Some c\<close> by (auto simp: first_of_key_def reduce_def split: list.splits)
    have "set (y # ys) = {r \<in> set rs. r_key r = k}" unfolding ys(1) [symmetric] by simp
    with foldl_earlier_record [of y ys] show ?thesis unfolding ys(2) by auto
  qed
  have "first_of_key rs k = Some c" if "?least c"
  proof -
    have "first_of_key rs k \<noteq> None" using that by (auto simp: first_of_key_def filter_empty_conv)
    then obtain b where b: "first_of_key rs k = Some b" by blast
    then have "version_le b c" "version_le c b" "b \<in> set rs" using least [OF b] that by auto
    then have "b = c" using version_le_antisym inj that by (metis inj_onD)
    with b show ?thesis by simp
  qed
  with least show ?thesis by blast
qed

lemma is_first_iff:
  "inj_on r_sequence (set rs) \<Longrightarrow> is_first rs r \<longleftrightarrow> r \<in> set rs \<and> (\<forall>x \<in> set rs. r_key x = r_key r \<longrightarrow> version_le r x)"
  by (simp add: is_first_def first_of_key_iff)

lemma first_exists:
  assumes "inj_on r_sequence (set rs)" "r \<in> set rs"
  obtains c where "first_of_key rs (r_key r) = Some c" "is_first rs c" "r_key c = r_key r" "version_le c r"
proof -
  have "first_of_key rs (r_key r) \<noteq> None" using assms(2) by (auto simp: first_of_key_def filter_empty_conv)
  then obtain c where c: "first_of_key rs (r_key r) = Some c" by blast
  then have "r_key c = r_key r" "version_le c r" using first_of_key_iff [OF assms(1)] assms(2) by blast+
  with c show thesis by (intro that) (simp_all add: is_first_def)
qed

section \<open>What is released is what the specification says\<close>

text \<open>Every record that was received was emitted, was suppressed, or waits.\<close>

definition balanced :: "'v Deduplicate \<Rightarrow> bool" where
  "balanced d \<longleftrightarrow> b_records_received d = b_records_emitted d + b_duplicates_suppressed d + of_nat (length (b_buffer d))"

text \<open>\<open>P\<close> are the records released so far: with a record they hold the earlier ones of its key.\<close>

definition earlier_closed :: "'v StreamRecord list \<Rightarrow> 'v StreamRecord set \<Rightarrow> bool" where
  "earlier_closed rs P \<longleftrightarrow> P \<subseteq> set rs \<and> (\<forall>p \<in> P. \<forall>x \<in> set rs. r_key x = r_key p \<longrightarrow> version_le x p \<longrightarrow> x \<in> P)"

definition released :: "'v StreamRecord list \<Rightarrow> 'v StreamRecord set \<Rightarrow> 'v Deduplicate \<Rightarrow> bool" where
  "released rs P d \<longleftrightarrow> distinct (b_buffer d) \<and> set (b_buffer d) = set rs - P
     \<and> set (b_outputs d) = deduplicated rs ` P
     \<and> distinct (b_changes d) \<and> set (b_changes d) = {r \<in> P. is_first rs r}
     \<and> b_records_received d = of_nat (length rs)
     \<and> b_records_emitted d = of_nat (length (b_changes d))
     \<and> balanced d"

definition remembered :: "'v StreamRecord list \<Rightarrow> 'v StreamRecord set \<Rightarrow> 'v Deduplicate \<Rightarrow> bool" where
  "remembered rs P d \<longleftrightarrow> distinct (map r_key (b_state d)) \<and> set (b_state d) = {r \<in> P. is_first rs r}"

definition numbered :: "'v StreamRecord list \<Rightarrow> bool" where
  "numbered rs \<longleftrightarrow> distinct rs \<and> inj_on r_sequence (set rs) \<and> inj_on slot_of (set rs)"

lemma release_existing:
  assumes rs: "numbered rs" and P: "earlier_closed rs P" and d: "remembered rs P d"
    and r: "r \<in> set rs" "r \<notin> P" "\<And>x. x \<in> set rs \<Longrightarrow> r_key x = r_key r \<Longrightarrow> version_le x r \<Longrightarrow> x \<in> insert r P"
  shows "get_by r_key (r_key r) (b_state d) = (if is_first rs r then None else first_of_key rs (r_key r))"
proof -
  have inj: "inj_on r_sequence (set rs)" using rs by (simp add: numbered_def)
  obtain c where c: "first_of_key rs (r_key r) = Some c" "is_first rs c" "r_key c = r_key r" "version_le c r"
    using first_exists [OF inj r(1)] .
  show ?thesis
  proof (cases "is_first rs r")
    case True
    have "get_by r_key (r_key r) (b_state d) = None"
    proof (rule ccontr)
      assume "get_by r_key (r_key r) (b_state d) \<noteq> None"
      then obtain x where "get_by r_key (r_key r) (b_state d) = Some x" by blast
      then have x: "x \<in> P" "is_first rs x" "r_key x = r_key r" using get_by_Some [of r_key "r_key r"] d by (auto simp: remembered_def)
      then have "x = r" using True by (simp add: is_first_def)
      with x(1) r(2) show False by simp
    qed
    with True show ?thesis by simp
  next
    case False
    then have "c \<noteq> r" using c(2) by blast
    have "c \<in> set rs" using c(2) is_first_iff [OF inj] by blast
    then have "c \<in> P" using r(3) c(3,4) \<open>c \<noteq> r\<close> by blast
    then have "c \<in> set (b_state d)" using d c(2) by (simp add: remembered_def)
    then have "get_by r_key (r_key r) (b_state d) = Some c"
      using get_by_in [of c "b_state d" r_key] d c(3) by (simp add: remembered_def)
    with False c(1) show ?thesis by simp
  qed
qed

lemma release_record_released:
  assumes rs: "numbered rs" and P: "earlier_closed rs P" and d: "released rs P d" "remembered rs P d"
    and r: "r \<in> set rs" "r \<notin> P" "\<And>x. x \<in> set rs \<Longrightarrow> r_key x = r_key r \<Longrightarrow> version_le x r \<Longrightarrow> x \<in> insert r P"
  shows "released rs (insert r P) (release_record d r)" "remembered rs (insert r P) (release_record d r)"
    "earlier_closed rs (insert r P)"
proof -
  have slot: "x = y" if "x \<in> set rs" "y \<in> set rs" "slot_of x = slot_of y" for x y
    using rs that by (auto simp: numbered_def dest: inj_onD)
  note existing = release_existing [OF rs P d(2) r]
  have sub: "P \<subseteq> set rs" using P by (simp add: earlier_closed_def)
  show "earlier_closed rs (insert r P)" using P r(1,3) unfolding earlier_closed_def by blast
  have buffer: "delete_by slot_of r (b_buffer d) = remove1 r (b_buffer d)"
  proof -
    have "filter (\<lambda>x. slot_of x \<noteq> slot_of r) (b_buffer d) = filter ((\<noteq>) r) (b_buffer d)"
      using d(1) slot r(1) by (intro filter_cong) (auto simp: released_def)
    then show ?thesis using d(1) by (simp add: delete_by_def released_def distinct_remove1_removeAll removeAll_filter_not_eq)
  qed
  have in_buffer: "r \<in> set (b_buffer d)" using d(1) r by (simp add: released_def)
  then have shorter: "length (b_buffer d) = Suc (length (remove1 r (b_buffer d)))"
    by (simp add: length_remove1) (metis Suc_pred length_pos_if_in_set)
  have fresh: "filter (\<lambda>x. output_slot x \<noteq> slot_of r) (b_outputs d) = b_outputs d"
  proof (unfold filter_id_conv, intro ballI notI)
    fix x
    assume "x \<in> set (b_outputs d)" and same: "output_slot x = slot_of r"
    then obtain q where q: "q \<in> P" "x = deduplicated rs q" using d(1) by (auto simp: released_def)
    then have "slot_of q = slot_of r" using same by (simp add: output_slot_def deduplicated_def)
    then have "q = r" using slot q(1) r(1) sub by blast
    with q(1) r(2) show False by simp
  qed
  let ?o = "deduplicated rs r"
  obtain c where c: "first_of_key rs (r_key r) = Some c"
    using first_exists [of rs r] rs r(1) by (auto simp: numbered_def)
  have step: "release_record d r = (if is_first rs r
      then d\<lparr> b_state := put_by r_key r (b_state d), b_changes := b_changes d @ [r], b_records_emitted := b_records_emitted d + 1,
              b_outputs := b_outputs d @ [?o], b_buffer := remove1 r (b_buffer d) \<rparr>
      else d\<lparr> b_duplicates_suppressed := b_duplicates_suppressed d + 1,
              b_outputs := b_outputs d @ [?o], b_buffer := remove1 r (b_buffer d) \<rparr>)"
    using c fresh
    by (simp add: release_record_def existing buffer put_by_def [of output_slot] output_slot_def deduplicated_def is_first_def Let_def)
  have lists: "distinct (remove1 r (b_buffer d))" "set (remove1 r (b_buffer d)) = set rs - insert r P"
    "r \<notin> set (b_changes d)" "distinct (b_changes d)" "set (b_changes d) = {r \<in> P. is_first rs r}"
    "set (b_outputs d) = deduplicated rs ` P"
    using d(1) r(2) by (auto simp: released_def)
  have counts: "b_records_received d = of_nat (length rs)" "b_records_emitted d = of_nat (length (b_changes d))" "balanced d"
    using d(1) by (simp_all add: released_def)
  have "balanced (release_record d r)"
    using counts(3) unfolding step balanced_def shorter by (simp add: add_ac)
  show "released rs (insert r P) (release_record d r)"
  proof (cases "is_first rs r")
    case True
    then have "set (b_changes d @ [r]) = {x \<in> insert r P. is_first rs x}" using lists(5) by auto
    with True lists(1-4,6) counts(1,2) \<open>balanced (release_record d r)\<close> show ?thesis by (simp add: step released_def)
  next
    case False
    then have "set (b_changes d) = {x \<in> insert r P. is_first rs x}" using lists(5) by auto
    with False lists(1,2,4,6) counts(1,2) \<open>balanced (release_record d r)\<close> show ?thesis by (simp add: step released_def)
  qed
  show "remembered rs (insert r P) (release_record d r)"
  proof (cases "is_first rs r")
    case True
    have "r_key r \<notin> r_key ` set (b_state d)"
      using existing True by (simp add: get_by_None)
    then have "put_by r_key r (b_state d) = b_state d @ [r]" by (auto simp: put_by_def filter_id_conv image_iff)
    then have state: "b_state (release_record d r) = b_state d @ [r]" using True by (simp add: step)
    have "{x \<in> insert r P. is_first rs x} = insert r {x \<in> P. is_first rs x}" using True by blast
    with d(2) \<open>r_key r \<notin> r_key ` set (b_state d)\<close> show ?thesis by (simp add: remembered_def state)
  next
    case False
    then have "b_state (release_record d r) = b_state d" "{x \<in> insert r P. is_first rs x} = {x \<in> P. is_first rs x}"
      by (auto simp: step)
    with d(2) show ?thesis by (simp add: remembered_def)
  qed
qed

lemma release_records_released:
  assumes "numbered rs" "earlier_closed rs P" "released rs P d" "remembered rs P d"
    and "sorted_wrt version_le ds" "distinct ds" "set ds \<subseteq> set rs - P" "earlier_closed rs (P \<union> set ds)"
  shows "released rs (P \<union> set ds) (foldl release_record d ds) \<and> remembered rs (P \<union> set ds) (foldl release_record d ds)"
  using assms
proof (induction ds arbitrary: P d)
  case (Cons r ds)
  have r: "r \<in> set rs" "r \<notin> P" using Cons.prems(7) by auto
  have inj: "inj_on r_sequence (set rs)" using Cons.prems(1) by (simp add: numbered_def)
  have before: "x \<in> insert r P" if x: "x \<in> set rs" "r_key x = r_key r" "version_le x r" for x
  proof (rule ccontr)
    assume no: "x \<notin> insert r P"
    have "r \<in> P \<union> set (r # ds)" by simp
    then have "x \<in> P \<union> set (r # ds)" using Cons.prems(8) x unfolding earlier_closed_def by blast
    with no have "version_le r x" using Cons.prems(5) by auto
    with x inj r(1) have "x = r" using version_le_antisym by (metis inj_onD)
    with no show False by simp
  qed
  note step = release_record_released [OF Cons.prems(1-4) r before]
  have all: "P \<union> set (r # ds) = insert r P \<union> set ds" by simp
  have "sorted_wrt version_le ds" "distinct ds" "set ds \<subseteq> set rs - insert r P" using Cons.prems(5-7) by auto
  from Cons.IH [OF Cons.prems(1) step(3,1,2) this Cons.prems(8)[unfolded all]] show ?case
    unfolding all foldl_Cons .
qed simp

section \<open>The contract of the server\<close>

text \<open>The records at or before the frontier are released, and the others wait.\<close>

definition reached :: "f64 option \<Rightarrow> 'v StreamRecord list \<Rightarrow> 'v StreamRecord set" where
  "reached F rs = {r \<in> set rs. \<not> beyond F (r_event_time r)}"

definition deduplicate_inv :: "'i \<Rightarrow> ('i \<Rightarrow> f64 option) \<Rightarrow> ('i \<Rightarrow> 'v StreamRecord list) \<Rightarrow> 'v Deduplicate \<Rightarrow> bool" where
  "deduplicate_inv input F logs d \<longleftrightarrow> released (logs input) (reached (F input) (logs input)) d
     \<and> (F input \<noteq> Some f64_max \<longrightarrow> remembered (logs input) (reached (F input) (logs input)) d)"

lemma logs_numbered: "logs_ok time_ok logs \<Longrightarrow> numbered (logs i)"
  using in_sequence_distinct [of "logs i"]
  by (auto simp: logs_ok_def numbered_def in_sequence_def sorted_wrt_iff_nth_less inj_on_def in_set_conv_nth)
    (metis less_irrefl nat_neq_iff)

lemma version_le_not_after: "version_le x y \<Longrightarrow> fle (r_event_time y) f \<Longrightarrow> fle (r_event_time x) f"
  using total_le_fle fle_not_NaN by (auto simp: version_le_def split: if_splits)

lemma reached_closed: "earlier_closed rs (reached F rs)"
  using version_le_not_after by (auto simp: earlier_closed_def reached_def beyond_def)

lemma index_records_released:
  assumes "index_deduplicate_records rs d = Some d'" "distinct rs" "inj_on slot_of (set (b_buffer d) \<union> set rs)"
    "set rs \<inter> set (b_buffer d) = {}"
  shows "d' = d\<lparr> b_buffer := b_buffer d @ rs, b_records_received := b_records_received d + of_nat (length rs) \<rparr>"
  using assms
proof (induction rs arbitrary: d)
  case (Cons r rs)
  have "filter (\<lambda>x. slot_of x \<noteq> slot_of r) (b_buffer d) = b_buffer d"
    using Cons.prems(3,4) by (auto simp: filter_id_conv inj_on_def)
  with Cons.prems(1) have "index_deduplicate_records rs
      (d\<lparr> b_buffer := b_buffer d @ [r], b_records_received := b_records_received d + 1 \<rparr>) = Some d'"
    by (auto simp: index_deduplicate_record_def put_by_def split: if_splits)
  from Cons.IH [OF this] Cons.prems(2-4) show ?case by (auto simp: ac_simps)
qed simp

lemma index_records_keyed:
  "index_deduplicate_records rs d = Some d' \<Longrightarrow> \<forall>r \<in> set rs. keyed r \<and> is_addition (r_kind r)"
  by (induction rs arbitrary: d) (auto simp: index_deduplicate_record_def Option.bind_eq_Some_conv split: if_splits)

lemma index_deduplicate_record_inv:
  assumes d: "deduplicate_inv input F logs d" and run: "index_deduplicate_record r d = Some d'"
    and logs: "numbered (logs input @ [r])" and far: "beyond (F input) (r_event_time r)"
    and time: "mark_time (r_event_time r)" "proper_frontier (F input)"
  shows "deduplicate_inv input F (logs(input := logs input @ [r])) d'"
proof -
  let ?rs = "logs input" and ?P = "reached (F input) (logs input)"
  have rs: "numbered ?rs"
    using logs unfolding numbered_def by (auto intro: inj_on_subset [of _ "set (?rs @ [r])"])
  have inj: "inj_on r_sequence (set ?rs)" "inj_on r_sequence (set (?rs @ [r]))"
    using rs logs by (simp_all only: numbered_def)
  have P: "reached (F input) (?rs @ [r]) = ?P" using far by (auto simp: reached_def)
  have old: "version_le p r" if p: "p \<in> ?P" for p
  proof -
    obtain f where f: "F input = Some f" "fle (r_event_time p) f" using p by (auto simp: reached_def beyond_def)
    have "\<not> fle (r_event_time r) (r_event_time p)" using far f fle_trans by (auto simp: beyond_def)
    moreover have "r_event_time p \<noteq> NaN" "r_event_time r \<noteq> NaN"
      using f(2) fle_not_NaN time(1) by (auto simp: mark_time_def)
    ultimately have "flt (r_event_time p) (r_event_time r)" by (simp add: flt_iff_not_fle)
    then show ?thesis by (auto simp: version_le_def total_le_def flt_def feq_def)
  qed
  have first: "first_of_key (?rs @ [r]) (r_key p) = first_of_key ?rs (r_key p)" if "p \<in> ?P" for p
  proof -
    have "p \<in> set ?rs" using that by (simp add: reached_def)
    then obtain c where c: "first_of_key ?rs (r_key p) = Some c" "version_le c p" using first_exists [OF inj(1)] by metis
    have "version_le c r" using c(2) old [OF that] version_le_trans by blast
    then have "first_of_key (?rs @ [r]) (r_key p) = Some c"
      using c(1) first_of_key_iff [OF inj(1), of "r_key p" c] first_of_key_iff [OF inj(2), of "r_key p" c] by auto
    with c(1) show ?thesis by simp
  qed
  then have same: "is_first (?rs @ [r]) p = is_first ?rs p" "deduplicated (?rs @ [r]) p = deduplicated ?rs p" if "p \<in> ?P" for p
    using that by (simp_all add: is_first_def deduplicated_def)
  then have sets: "deduplicated (?rs @ [r]) ` ?P = deduplicated ?rs ` ?P"
    "{p \<in> ?P. is_first (?rs @ [r]) p} = {p \<in> ?P. is_first ?rs p}" by auto
  have rel: "released ?rs ?P d" using d by (simp add: deduplicate_inv_def)
  have "filter (\<lambda>x. slot_of x \<noteq> slot_of r) (b_buffer d) = b_buffer d"
    using rel logs by (auto simp: filter_id_conv released_def numbered_def inj_on_def)
  then have d': "d' = d\<lparr> b_buffer := b_buffer d @ [r], b_records_received := b_records_received d + 1 \<rparr>"
    using run by (simp add: index_deduplicate_record_def put_by_def split: if_splits)
  have bal: "balanced d" using rel by (simp add: released_def)
  then have "balanced d'" unfolding balanced_def d' by (simp add: add_ac)
  moreover have "r \<notin> set ?rs" "r \<notin> ?P" using logs by (auto simp: numbered_def reached_def)
  ultimately have "released (?rs @ [r]) ?P d'"
    using rel unfolding released_def sets by (auto simp: d')
  then show ?thesis using d unfolding deduplicate_inv_def by (simp add: P remembered_def sets d')
qed

lemma refresh_deduplicate_inv:
  assumes d: "deduplicate_inv input F logs d" and scan: "scans scan" and logs: "logs_ok time_ok logs"
    and F': "completeness_frontier config state = F' input" "opt_le (F input) (F' input)" "proper_frontier (F input)" "proper_frontier (F' input)"
  shows "deduplicate_inv input F' logs (refresh_deduplicate scan config state d)"
proof (cases "F' input")
  case None
  then have "F input = None" using F'(2) by (auto simp: opt_le_def split: option.splits)
  with d None F'(1) show ?thesis by (simp add: deduplicate_inv_def refresh_deduplicate_def)
next
  case (Some f)
  let ?rs = "logs input" and ?P = "reached (F input) (logs input)" and ?P' = "reached (F' input) (logs input)"
  let ?due = "sort_by version_le (filter (\<lambda>r. fle (r_event_time r) f) (scan (b_buffer d)))"
  have rel: "released ?rs ?P d" using d by (simp add: deduplicate_inv_def)
  have rs: "numbered ?rs" using logs by (rule logs_numbered)
  have forward: "fle g f" if "F input = Some g" for g
    using F'(2,3) Some that opt_le_Some [of g "F' input"] by (auto simp: proper_frontier_def)
  have buffer: "set ?due = {r \<in> set ?rs - ?P. fle (r_event_time r) f}"
    using rel set_scans [OF scan, of "b_buffer d"] by (auto simp: released_def simp flip: set_mset_mset)
  have "distinct (scan (b_buffer d))"
    using rel scan unfolding released_def scans_def by (metis mset_eq_imp_distinct_iff)
  then have dist: "distinct ?due" by (metis distinct_filter mset_sort_by mset_eq_imp_distinct_iff)
  have sorted: "sorted_wrt version_le ?due" using version_ordering [of UNIV] by (rule sorted_sort_by) simp
  have all: "?P \<union> set ?due = ?P'"
    using forward fle_trans unfolding buffer by (auto simp: reached_def beyond_def Some)
  have run: "refresh_deduplicate scan config state d = (let d' = foldl release_record d ?due in
      if z_finalized state then d'\<lparr> b_state := [] \<rparr> else d')"
    by (simp add: refresh_deduplicate_def F'(1) Some Let_def)
  have fin: "f = f64_max" if "z_finalized state"
    using that F'(1) Some by (simp add: completeness_frontier_def)
  have forget: "released ?rs P (d'\<lparr> b_state := [] \<rparr>) = released ?rs P d'" for P d'
    by (simp add: released_def balanced_def)
  show ?thesis
  proof (cases "F input = Some f64_max")
    case True
    then have f: "f = f64_max" using forward [of f64_max] F'(4) Some fle_antisym by (simp add: proper_frontier_def)
    have "fle (r_event_time r) f64_max" if "r \<in> set ?rs" for r
      using logs that by (intro mark_time_le_max) (simp add: logs_ok_def)
    then have "set ?due = {}" unfolding buffer by (auto simp: reached_def beyond_def True)
    then have "?due = []" "?P' = ?P" using all by simp_all
    with rel show ?thesis unfolding run deduplicate_inv_def by (simp add: forget Some f)
  next
    case False
    then have rem: "remembered ?rs ?P d" using d by (simp add: deduplicate_inv_def)
    have "set ?due \<subseteq> set ?rs - ?P" unfolding buffer by blast
    moreover have "earlier_closed ?rs (?P \<union> set ?due)" unfolding all by (rule reached_closed)
    ultimately have "released ?rs ?P' (foldl release_record d ?due) \<and> remembered ?rs ?P' (foldl release_record d ?due)"
      using release_records_released [OF rs reached_closed rel rem sorted dist] unfolding all by blast
    then show ?thesis unfolding run deduplicate_inv_def Let_def using fin
      by (cases "z_finalized state") (simp_all add: forget Some)
  qed
qed

lemma create_deduplicate_inv:
  assumes logs: "logs_ok time_ok logs" and scan: "scans scan" and run: "create_deduplicate scan input logs = Some d"
  shows "deduplicate_inv input (\<lambda>i. None) logs d"
proof -
  have rs: "numbered (logs input)" using logs by (rule logs_numbered)
  have same: "mset (scan (logs input)) = mset (logs input)" using scan by (simp add: scans_def)
  have "distinct (scan (logs input))" using rs same unfolding numbered_def by (metis mset_eq_imp_distinct_iff)
  moreover have "inj_on slot_of (set (scan (logs input)))" using rs set_scans [OF scan] by (simp add: numbered_def)
  ultimately have d: "d = new_deduplicate\<lparr> b_buffer := scan (logs input), b_records_received := of_nat (length (scan (logs input))) \<rparr>"
    using index_records_released [of "scan (logs input)" new_deduplicate d] run
    by (simp add: create_deduplicate_def new_deduplicate_def)
  have "length (scan (logs input)) = length (logs input)" using same by (rule mset_eq_length)
  with \<open>distinct (scan (logs input))\<close> show ?thesis
    by (simp add: deduplicate_inv_def released_def remembered_def reached_def beyond_def balanced_def d new_deduplicate_def
        set_scans [OF scan])
qed

interpretation deduplicate: stream_operator "deduplicating scan input configs" "scans scan" "\<lambda>t. True"
  "\<lambda>F logs d. deduplicate_inv input F logs d \<and> list_all (\<lambda>r. keyed r \<and> is_addition (r_kind r)) (logs input)"
  for scan :: "'v StreamRecord list \<Rightarrow> 'v StreamRecord list" and input :: 'i and configs
proof unfold_locales
  fix logs and op :: "'v Deduplicate"
  assume scan: "scans scan" and logs: "logs_ok (\<lambda>t. True) logs" and run: "m_create (deduplicating scan input configs) logs = Some op"
  then have run: "create_deduplicate scan input logs = Some op" by (simp add: deduplicating_def)
  have "\<forall>r \<in> set (scan (logs input)). keyed r \<and> is_addition (r_kind r)"
    using run by (simp add: create_deduplicate_def index_records_keyed)
  with create_deduplicate_inv [OF logs scan run] set_scans [OF scan, of "logs input"]
  show "deduplicate_inv input (\<lambda>i. None) logs op \<and> list_all (\<lambda>r. keyed r \<and> is_addition (r_kind r)) (logs input)"
    by (simp add: list_all_iff)
next
  let ?ops = "deduplicating scan input configs"
  fix F logs logs' states entry and op op' :: "'v Deduplicate"
  assume scan: "scans scan" and inv: "deduplicate_inv input F logs op \<and> list_all (\<lambda>r. keyed r \<and> is_addition (r_kind r)) (logs input)"
    and logs': "logs_ok (\<lambda>t. True) logs'" and F: "moved F (frontiers ?ops states)"
    and rec: "entered (m_inputs ?ops) F logs entry logs'" and run: "m_refresh ?ops states entry op = Some op'"
  obtain mid where mid: "(case entry of None \<Rightarrow> Some op | Some (i, r) \<Rightarrow> if i = input then index_deduplicate_record r op else Some op) = Some mid"
    and op': "op' = refresh_deduplicate scan (configs input) (states input) mid"
    using run by (auto simp: deduplicating_def refresh_deduplicates_def)
  have proper: "proper_frontier (F input)" "proper_frontier (frontiers ?ops states input)"
    "opt_le (F input) (frontiers ?ops states input)" using F by (simp_all add: moved_def)
  have "deduplicate_inv input F logs' mid \<and> list_all (\<lambda>r. keyed r \<and> is_addition (r_kind r)) (logs' input)"
  proof (cases entry)
    case None
    with inv rec mid show ?thesis by (simp add: entered_def)
  next
    case (Some e)
    obtain i r where e: "entry = Some (i, r)" using Some by fastforce
    then have logs_r: "logs' = logs(i := logs i @ [r])" using rec by (simp add: entered_def)
    show ?thesis
    proof (cases "i = input")
      case True
      have "r \<in> set (logs' input)" by (simp add: logs_r True)
      then have "mark_time (r_event_time r)" using logs' unfolding logs_ok_def by blast
      then have r: "beyond (F input) (r_event_time r)" "index_deduplicate_record r op = Some mid" "mark_time (r_event_time r)"
        using rec mid by (auto simp: e True entered_def deduplicating_def)
      then have "keyed r \<and> is_addition (r_kind r)" by (simp add: index_deduplicate_record_def split: if_splits)
      with index_deduplicate_record_inv [where F = F and input = input and logs = logs, OF _ r(2) _ r(1,3) proper(1)] inv
        logs_numbered [OF logs', of input]
      show ?thesis by (simp add: logs_r True)
    next
      case False
      with inv mid show ?thesis by (simp add: e logs_r deduplicate_inv_def)
    qed
  qed
  with refresh_deduplicate_inv [where F = F and F' = "frontiers ?ops states" and input = input,
      OF _ scan logs' _ proper(3,1,2), of mid "configs input" "states input"]
  show "deduplicate_inv input (frontiers ?ops states) logs' op' \<and> list_all (\<lambda>r. keyed r \<and> is_addition (r_kind r)) (logs' input)"
    by (simp add: op' frontiers_def deduplicating_def)
qed

section \<open>First wins\<close>

text \<open>
  C8. Deduplication emits the first record of each key, and that for good. Over any requests, in any order, accepted
  or refused (fewer than \<open>2 ^ 64\<close>), with the operator created at any time: exactly the records at or
  before the frontier have an output, the one that all records of the stream give, those recorded after
  it was written included; the changes are, once each, the first records of their keys by time and
  sequence; the others wait; and every record that was received was emitted, suppressed, or waits.
\<close>

theorem deduplicate_refines:
  assumes "scans scan" "\<forall>i. validate_config (configs i)" "list_all (operator_request_ok (\<lambda>t. True)) es" "length es < 2 ^ 64"
    and "w = foldl (server_step (deduplicating scan input configs)) (new_server (deduplicating scan input configs) now) es"
    and "n_operator w = Some d"
  shows "let records = n_logs w input; F = completeness_frontier (configs input) (state_of w input);
             complete = filter (\<lambda>r. \<not> beyond F (r_event_time r)) records
    in set (b_outputs d) = deduplicated records ` set complete
      \<and> mset (b_changes d) = mset (filter (is_first records) complete)
      \<and> mset (b_buffer d) = mset (filter (\<lambda>r. beyond F (r_event_time r)) records)
      \<and> list_all (\<lambda>r. keyed r \<and> is_addition (r_kind r)) records
      \<and> b_records_received d = of_nat (length records) \<and> balanced d"
proof -
  let ?ops = "deduplicating scan input configs"
  have config: "m_config ?ops = configs" by (simp add: deduplicating_def)
  note run = deduplicate.operator_run [where scan = scan and input = input and configs = configs and es = es and now = now and op = d,
      unfolded config assms(5) [symmetric], OF assms(1,2,3,4,6)]
  let ?F = "completeness_frontier (configs input) (state_of w input)" and ?rs = "n_logs w input"
  have F: "frontiers ?ops (state_of w) input = ?F" by (simp add: frontiers_def config)
  have rel: "released ?rs (reached ?F ?rs) d" and keys: "list_all (\<lambda>r. keyed r \<and> is_addition (r_kind r)) ?rs"
    using run(1) by (simp_all add: deduplicate_inv_def F)
  have dist: "distinct ?rs" using logs_numbered [OF run(2), of input] by (simp add: numbered_def)
  have sets: "mset xs = mset (filter P ?rs)" if "distinct xs" "set xs = {r \<in> set ?rs. P r}" for xs P
    by (rule set_eq_iff_mset_eq_distinct [THEN iffD1]) (use that dist in simp_all)
  have "mset (b_changes d) = mset (filter (is_first ?rs) (filter (\<lambda>r. \<not> beyond ?F (r_event_time r)) ?rs))"
    unfolding filter_filter using rel by (intro sets) (auto simp: released_def reached_def)
  moreover have "mset (b_buffer d) = mset (filter (\<lambda>r. beyond ?F (r_event_time r)) ?rs)"
    using rel by (intro sets) (auto simp: released_def reached_def)
  moreover have "set (b_outputs d) = deduplicated ?rs ` set (filter (\<lambda>r. \<not> beyond ?F (r_event_time r)) ?rs)"
    "b_records_received d = of_nat (length ?rs)" "balanced d"
    using rel by (simp_all add: released_def reached_def)
  ultimately show ?thesis using keys unfolding Let_def by blast
qed

text \<open>The record of the key that comes second has the earlier time.\<close>

definition disordered :: "(unit, nat) OperatorRequest list" where
  "disordered = [Deploy, Publish () 0 (num 8) (Some [1]) 1 Insert (num 1),
     Publish () 0 (num 6) (Some [1]) 2 Insert (num 2), Publish () 0 (num 20) (Some [2]) 3 Insert (num 3)]"

lemma disordered_run:
  "\<exists>d. n_operator (foldl (server_step (deduplicating (\<lambda>rs. rs) () one_stream))
     (new_server (deduplicating (\<lambda>rs. rs) () one_stream) (num 0)) disordered) = Some d \<and> map r_value (b_changes d) = [2]
     \<and> map t_canonical (b_outputs d) = [True, False]"
  by (simp add: disordered_def run_simps deduplicating_def create_deduplicate_def refresh_deduplicates_def refresh_deduplicate_def
    new_deduplicate_def index_deduplicate_record_def release_record_def output_slot_def version_le_def total_le_def)

text \<open>The record at time \<open>6\<close> came second and is emitted; the one at time \<open>8\<close> is its duplicate.\<close>

lemma deduplicate_refines_witness:
  "\<exists>w d. w = foldl (server_step (deduplicating (\<lambda>rs. rs) () one_stream)) (new_server (deduplicating (\<lambda>rs. rs) () one_stream) (num 0)) disordered
     \<and> n_operator w = Some d \<and> map r_value (b_changes d) = [2] \<and> balanced d
     \<and> mset (b_changes d) = mset (filter (is_first (n_logs w ())) (filter (\<lambda>r. \<not> beyond (completeness_frontier (one_stream ()) (state_of w ())) (r_event_time r)) (n_logs w ())))"
proof -
  obtain d where d: "n_operator (foldl (server_step (deduplicating (\<lambda>rs. rs) () one_stream))
      (new_server (deduplicating (\<lambda>rs. rs) () one_stream) (num 0)) disordered) = Some d" "map r_value (b_changes d) = [2]"
    by (rule exE [OF disordered_run]) (elim conjE, rule that)
  have "scans (\<lambda>rs. rs)" by (simp add: scans_def)
  moreover have "\<forall>i. validate_config (one_stream i)" by (simp add: one_stream_valid)
  moreover have "list_all (operator_request_ok (\<lambda>t. True)) disordered" "length disordered < 2 ^ 64"
    by (simp_all add: disordered_def valid64_num)
  ultimately show ?thesis using deduplicate_refines [OF _ _ _ _ refl d(1)] d unfolding Let_def by (intro exI conjI refl) (rule d | blast)+
qed

end
