(* ===== verification/IntervalJoin.thy ===== *)
theory IntervalJoin
  imports StreamServer
begin

text \<open>
  Interval joins of the server: \<open>index_interval_join_record\<close>, \<open>retract_interval_join_record\<close>,
  \<open>emit_interval_join_pair\<close> and \<open>refresh_interval_joins\<close> of \<open>crates/server/src/operators.rs\<close>,
  \<open>IntervalJoin\<close> and \<open>interval_contains\<close> of \<open>streaming.rs\<close>, and \<open>create_interval_join\<close> of
  \<open>stream_api.rs\<close>. Each record is paired, as it arrives, with the records of the other stream that are
  kept; records that no later record can be paired with are deleted.

  The specification is the join of all records at once: \<open>joined\<close>, over the records of each stream that
  have not been taken back (\<open>surviving\<close>). The code is proved to give it for two streams, in any order of
  arrival; a stream joined with itself is in \<open>SelfJoin\<close>.
\<close>

section \<open>The operator\<close>

datatype join_side = LeftSide | RightSide

record 'v JoinedPair =
  h_left :: "'v StreamRecord"
  h_right :: "'v StreamRecord"

record ('i, 'v) IntervalJoin =
  i_left_stream :: 'i
  i_right_stream :: 'i
  i_lower_bound :: f64
  i_upper_bound :: f64
  i_left :: "'v StreamRecord list"
  i_right :: "'v StreamRecord list"
  i_outputs :: "'v JoinedPair list"
  i_changes :: "(ChangeKind \<times> 'v JoinedPair) list"
  i_left_received :: "64 word"
  i_right_received :: "64 word"
  i_pairs_emitted :: "64 word"

definition validate_interval_join :: "('i, 'v) IntervalJoin \<Rightarrow> bool" where
  "validate_interval_join j \<longleftrightarrow> finite64 (i_lower_bound j) \<and> finite64 (i_upper_bound j)
     \<and> \<not> flt (i_upper_bound j) (i_lower_bound j)
     \<and> (i_left_stream j = i_right_stream j \<longrightarrow> \<not> flt (i_lower_bound j) (num 0))"

definition new_interval_join :: "'i \<Rightarrow> 'i \<Rightarrow> f64 \<Rightarrow> f64 \<Rightarrow> ('i, 'v) IntervalJoin" where
  "new_interval_join left right lower upper = \<lparr> i_left_stream = left, i_right_stream = right, i_lower_bound = lower,
     i_upper_bound = upper, i_left = [], i_right = [], i_outputs = [], i_changes = [], i_left_received = 0,
     i_right_received = 0, i_pairs_emitted = 0 \<rparr>"

definition interval_contains :: "f64 \<Rightarrow> f64 \<Rightarrow> f64 \<Rightarrow> f64 \<Rightarrow> bool" where
  "interval_contains left_event_time right_event_time lower_bound upper_bound \<longleftrightarrow>
     fle (fadd left_event_time lower_bound) right_event_time \<and> fle right_event_time (fadd left_event_time upper_bound)"

definition kept_records :: "join_side \<Rightarrow> ('i, 'v) IntervalJoin \<Rightarrow> 'v StreamRecord list" where
  "kept_records side j = (case side of LeftSide \<Rightarrow> i_left j | RightSide \<Rightarrow> i_right j)"

definition set_kept :: "join_side \<Rightarrow> 'v StreamRecord list \<Rightarrow> ('i, 'v) IntervalJoin \<Rightarrow> ('i, 'v) IntervalJoin" where
  "set_kept side rs j = (case side of LeftSide \<Rightarrow> j\<lparr> i_left := rs \<rparr> | RightSide \<Rightarrow> j\<lparr> i_right := rs \<rparr>)"

definition count_received :: "join_side \<Rightarrow> ('i, 'v) IntervalJoin \<Rightarrow> ('i, 'v) IntervalJoin" where
  "count_received side j = (case side of LeftSide \<Rightarrow> j\<lparr> i_left_received := i_left_received j + 1 \<rparr>
     | RightSide \<Rightarrow> j\<lparr> i_right_received := i_right_received j + 1 \<rparr>)"

text \<open>The keys of a side (\<open>interval_join_side_key\<close>) and of the outputs (\<open>interval_join_output_key\<close>).\<close>

definition side_key :: "'v StreamRecord \<Rightarrow> jsstr option \<times> slot" where
  "side_key r = (r_key r, slot_of r)"

definition pair_key :: "'v JoinedPair \<Rightarrow> slot \<times> slot" where
  "pair_key p = (slot_of (h_left p), slot_of (h_right p))"

text \<open>The workflow of a pair is named after the slots of its records, like its output.\<close>

definition emit_interval_join_pair :: "('i, 'v) IntervalJoin \<Rightarrow> 'v StreamRecord \<Rightarrow> 'v StreamRecord \<Rightarrow> ('i, 'v) IntervalJoin" where
  "emit_interval_join_pair j left right =
     (let pair = \<lparr> h_left = left, h_right = right \<rparr>
      in if get_by pair_key (pair_key pair) (i_outputs j) \<noteq> None then j
         else j\<lparr> i_outputs := put_by pair_key pair (i_outputs j), i_changes := i_changes j @ [(Insert, pair)],
                i_pairs_emitted := i_pairs_emitted j + 1 \<rparr>)"

definition taken_back :: "'v StreamRecord \<Rightarrow> 'v StreamRecord \<Rightarrow> bool" where
  "taken_back r candidate \<longleftrightarrow> r_key candidate = r_key r \<and> feq (r_event_time candidate) (r_event_time r)
     \<and> r_value candidate = r_value r"

definition on_side :: "join_side \<Rightarrow> 'v JoinedPair \<Rightarrow> 'v StreamRecord" where
  "on_side side p = (case side of LeftSide \<Rightarrow> h_left p | RightSide \<Rightarrow> h_right p)"

definition retract_interval_join_record :: "('v StreamRecord list \<Rightarrow> 'v StreamRecord list)
    \<Rightarrow> ('v JoinedPair list \<Rightarrow> 'v JoinedPair list) \<Rightarrow> join_side \<Rightarrow> 'v StreamRecord \<Rightarrow> ('i, 'v) IntervalJoin \<Rightarrow> ('i, 'v) IntervalJoin" where
  "retract_interval_join_record scan scan_pairs side r j =
     (case List.find (taken_back r) (scan (filter (\<lambda>c. r_key c = r_key r) (kept_records side j))) of
        None \<Rightarrow> j
      | Some arranged \<Rightarrow>
          let gone = filter (\<lambda>p. slot_of (on_side side p) = slot_of arranged) (scan_pairs (i_outputs j));
              j = set_kept side (delete_by side_key arranged (kept_records side j)) j
          in j\<lparr> i_outputs := filter (\<lambda>p. pair_key p \<notin> pair_key ` set gone) (i_outputs j),
                i_changes := i_changes j @ map (Pair Delete) gone \<rparr>)"

definition pair_up :: "join_side \<Rightarrow> 'v StreamRecord \<Rightarrow> ('i, 'v) IntervalJoin \<Rightarrow> 'v StreamRecord \<Rightarrow> ('i, 'v) IntervalJoin" where
  "pair_up side r j candidate =
     (let (left, right) = (case side of LeftSide \<Rightarrow> (r, candidate) | RightSide \<Rightarrow> (candidate, r))
      in if interval_contains (r_event_time left) (r_event_time right) (i_lower_bound j) (i_upper_bound j)
         then emit_interval_join_pair j left right else j)"

definition opposite :: "join_side \<Rightarrow> join_side" where
  "opposite side = (case side of LeftSide \<Rightarrow> RightSide | RightSide \<Rightarrow> LeftSide)"

text \<open>A stream joined with itself: only records that arrived before are candidates, and only earlier ones.\<close>

definition pair_prior :: "'v StreamRecord \<Rightarrow> ('i, 'v) IntervalJoin \<Rightarrow> 'v StreamRecord \<Rightarrow> ('i, 'v) IntervalJoin" where
  "pair_prior r j prior =
     (if flt (r_event_time prior) (r_event_time r)
        \<and> interval_contains (r_event_time prior) (r_event_time r) (i_lower_bound j) (i_upper_bound j)
      then emit_interval_join_pair j prior r else j)"

text \<open>\<open>None\<close> is the error for a missing key.\<close>

definition index_interval_join_record :: "('v StreamRecord list \<Rightarrow> 'v StreamRecord list)
    \<Rightarrow> ('v JoinedPair list \<Rightarrow> 'v JoinedPair list) \<Rightarrow> 'i \<Rightarrow> 'v StreamRecord \<Rightarrow> ('i, 'v) IntervalJoin
    \<Rightarrow> ('i, 'v) IntervalJoin option" where
  "index_interval_join_record scan scan_pairs i r j =
     (if i_left_stream j = i_right_stream j then
        (if i \<noteq> i_left_stream j then Some j
         else if \<not> keyed r then None
         else Some (count_received RightSide (count_received LeftSide
           (if \<not> is_addition (r_kind r) then retract_interval_join_record scan scan_pairs LeftSide r j
            else let j = foldl (pair_prior r) j (scan (filter (\<lambda>c. r_key c = r_key r) (i_left j)))
                 in set_kept LeftSide (put_by side_key r (kept_records LeftSide j)) j))))
      else if i \<noteq> i_left_stream j \<and> i \<noteq> i_right_stream j then Some j
      else if \<not> keyed r then None
      else let side = (if i = i_left_stream j then LeftSide else RightSide)
           in Some (count_received side
             (if \<not> is_addition (r_kind r) then retract_interval_join_record scan scan_pairs side r j
              else let j = foldl (pair_up side r) j (scan (filter (\<lambda>c. r_key c = r_key r) (kept_records (opposite side) j)))
                   in set_kept side (put_by side_key r (kept_records side j)) j)))"

text \<open>The records that no later record can be paired with.\<close>

definition settled_left :: "('i, 'v) IntervalJoin \<Rightarrow> f64 \<Rightarrow> f64 \<Rightarrow> 'v StreamRecord \<Rightarrow> bool" where
  "settled_left j left_frontier right_frontier l \<longleftrightarrow>
     fle (fadd (r_event_time l) (i_upper_bound j)) right_frontier \<and> fle (r_event_time l) left_frontier"

definition settled_right :: "('i, 'v) IntervalJoin \<Rightarrow> f64 \<Rightarrow> f64 \<Rightarrow> 'v StreamRecord \<Rightarrow> bool" where
  "settled_right j left_frontier right_frontier r \<longleftrightarrow>
     fle (fsub (r_event_time r) (i_lower_bound j)) left_frontier \<and> fle (r_event_time r) right_frontier"

definition drop_settled :: "f64 option \<Rightarrow> f64 option \<Rightarrow> ('i, 'v) IntervalJoin \<Rightarrow> ('i, 'v) IntervalJoin" where
  "drop_settled left_frontier right_frontier j = (case (left_frontier, right_frontier) of
     (Some lf, Some rf) \<Rightarrow> j\<lparr> i_left := filter (\<lambda>l. \<not> settled_left j lf rf l) (i_left j),
       i_right := filter (\<lambda>r. \<not> settled_right j lf rf r) (i_right j) \<rparr>
   | _ \<Rightarrow> j)"

definition refresh_interval_joins :: "('v StreamRecord list \<Rightarrow> 'v StreamRecord list)
    \<Rightarrow> ('v JoinedPair list \<Rightarrow> 'v JoinedPair list) \<Rightarrow> ('i \<Rightarrow> StreamConfig) \<Rightarrow> ('i \<Rightarrow> StreamState)
    \<Rightarrow> ('i \<times> 'v StreamRecord) option \<Rightarrow> ('i, 'v) IntervalJoin \<Rightarrow> ('i, 'v) IntervalJoin option" where
  "refresh_interval_joins scan scan_pairs configs states entry j =
     map_option
       (\<lambda>j. drop_settled (completeness_frontier (configs (i_left_stream j)) (states (i_left_stream j)))
              (completeness_frontier (configs (i_right_stream j)) (states (i_right_stream j))) j)
       (case entry of None \<Rightarrow> Some j | Some (i, r) \<Rightarrow>
          if i = i_left_stream j \<or> i = i_right_stream j then index_interval_join_record scan scan_pairs i r j else Some j)"

fun index_interval_join_records :: "('v StreamRecord list \<Rightarrow> 'v StreamRecord list)
    \<Rightarrow> ('v JoinedPair list \<Rightarrow> 'v JoinedPair list) \<Rightarrow> ('i \<times> 'v StreamRecord) list \<Rightarrow> ('i, 'v) IntervalJoin
    \<Rightarrow> ('i, 'v) IntervalJoin option" where
  "index_interval_join_records scan scan_pairs [] j = Some j"
| "index_interval_join_records scan scan_pairs ((i, r) # es) j =
     Option.bind (index_interval_join_record scan scan_pairs i r j) (index_interval_join_records scan scan_pairs es)"

definition create_interval_join :: "('v StreamRecord list \<Rightarrow> 'v StreamRecord list)
    \<Rightarrow> ('v JoinedPair list \<Rightarrow> 'v JoinedPair list) \<Rightarrow> ('i, 'v) IntervalJoin \<Rightarrow> ('i \<Rightarrow> 'v StreamRecord list)
    \<Rightarrow> ('i, 'v) IntervalJoin option" where
  "create_interval_join scan scan_pairs j logs =
     (let left = i_left_stream j; right = i_right_stream j;
          left_records = sort_key r_sequence (scan (logs left));
          right_records = (if left = right then [] else sort_key r_sequence (scan (logs right)))
      in if \<not> validate_interval_join j then None
         else index_interval_join_records scan scan_pairs (map (Pair left) left_records @ map (Pair right) right_records) j)"

definition interval_joining :: "('v StreamRecord list \<Rightarrow> 'v StreamRecord list)
    \<Rightarrow> ('v JoinedPair list \<Rightarrow> 'v JoinedPair list) \<Rightarrow> ('i, 'v) IntervalJoin \<Rightarrow> ('i \<Rightarrow> StreamConfig)
    \<Rightarrow> ('i, 'v, ('i, 'v) IntervalJoin) OperatorSetup" where
  "interval_joining scan scan_pairs j configs = \<lparr> m_config = configs, m_inputs = [i_left_stream j, i_right_stream j],
     m_create = create_interval_join scan scan_pairs j, m_refresh = refresh_interval_joins scan scan_pairs configs \<rparr>"


section \<open>The specification\<close>

text \<open>The records that can be left of a log when its retractions are taken: each takes back one record of
  the same key, time and value, if there is one. Which, when there are several, is not determined.\<close>

definition survive :: "'v StreamRecord \<Rightarrow> 'v StreamRecord list \<Rightarrow> 'v StreamRecord list list" where
  "survive r live = (if is_addition (r_kind r) then [live @ [r]]
     else case filter (taken_back r) live of [] \<Rightarrow> [live] | cs \<Rightarrow> map (\<lambda>c. remove1 c live) cs)"

definition survivals :: "'v StreamRecord list \<Rightarrow> 'v StreamRecord list list" where
  "survivals rs = foldl (\<lambda>lives r. concat (map (survive r) lives)) [[]] rs"

definition joined :: "f64 \<Rightarrow> f64 \<Rightarrow> 'v JoinedPair \<Rightarrow> bool" where
  "joined lower upper p \<longleftrightarrow> r_key (h_left p) = r_key (h_right p)
     \<and> interval_contains (r_event_time (h_left p)) (r_event_time (h_right p)) lower upper"

definition join_all :: "f64 \<Rightarrow> f64 \<Rightarrow> 'v StreamRecord list \<Rightarrow> 'v StreamRecord list \<Rightarrow> 'v JoinedPair list" where
  "join_all lower upper ls rs = filter (joined lower upper) (concat (map (\<lambda>l. map (\<lambda>r. \<lparr> h_left = l, h_right = r \<rparr>) rs) ls))"

definition of_kind :: "ChangeKind \<Rightarrow> (ChangeKind \<times> 'a) list \<Rightarrow> 'a list" where
  "of_kind kind changes = map snd (filter (\<lambda>c. fst c = kind) changes)"

lemma of_kind_simps [simp]: "of_kind k [] = []" "of_kind k (xs @ ys) = of_kind k xs @ of_kind k ys"
  "of_kind k (map (Pair k') ps) = (if k = k' then ps else [])"
  "of_kind k ((k', p) # xs) = (if k = k' then [p] else []) @ of_kind k xs"
  by (auto simp: of_kind_def filter_map o_def)

lemma survivals_simps [simp]: "survivals [] = [[]]" "survivals (rs @ [r]) = concat (map (survive r) (survivals rs))"
  by (simp_all add: survivals_def)

lemma survivals_additions: "list_all (\<lambda>r. is_addition (r_kind r)) rs \<Longrightarrow> survivals rs = [rs]"
  by (induction rs rule: rev_induct) (simp_all add: survive_def)

lemma survivals_within: "ls \<in> set (survivals rs) \<Longrightarrow> mset ls \<subseteq># mset rs"
proof (induction rs arbitrary: ls rule: rev_induct)
  case (snoc r rs)
  then obtain ms where ms: "ms \<in> set (survivals rs)" "ls \<in> set (survive r ms)" by auto
  have "mset ms - {#c#} \<subseteq># add_mset r (mset ms)" for c
    by (metis add_mset_add_single diff_subset_eq_self mset_subset_eq_add_left subset_mset.order_trans)
  then have "mset ls \<subseteq># mset (ms @ [r])" using ms(2) by (auto simp: survive_def split: if_splits list.splits)
  with snoc.IH [OF ms(1)] show ?case using subset_mset.order_trans by fastforce
qed simp

lemma survivals_sub:
  assumes "ls \<in> set (survivals rs)" "distinct rs"
  shows "set ls \<subseteq> set rs" and "distinct ls"
proof -
  have sub: "mset ls \<subseteq># mset rs" using assms(1) by (rule survivals_within)
  then show "set ls \<subseteq> set rs" by (rule set_mset_mono [of "mset ls" "mset rs", simplified])
  from sub obtain zs where "mset rs = mset (ls @ zs)" by (metis mset_append mset_subset_eq_exists_conv ex_mset)
  with assms(2) show "distinct ls" by (metis distinct_append mset_eq_imp_distinct_iff)
qed

text \<open>A side of the join, of its stream and of a pair.\<close>

definition side_stream :: "join_side \<Rightarrow> ('i, 'v) IntervalJoin \<Rightarrow> 'i" where
  "side_stream side j = (case side of LeftSide \<Rightarrow> i_left_stream j | RightSide \<Rightarrow> i_right_stream j)"

definition make_pair :: "join_side \<Rightarrow> 'v StreamRecord \<Rightarrow> 'v StreamRecord \<Rightarrow> 'v JoinedPair" where
  "make_pair side r c = (case side of LeftSide \<Rightarrow> \<lparr> h_left = r, h_right = c \<rparr> | RightSide \<Rightarrow> \<lparr> h_left = c, h_right = r \<rparr>)"

lemma opposite_simps [simp]: "opposite LeftSide = RightSide" "opposite RightSide = LeftSide" "opposite (opposite side) = side"
  "opposite side \<noteq> side" "side \<noteq> opposite side"
  by (cases side; simp add: opposite_def)+

lemma make_pair_simps [simp]: "on_side side (make_pair side r c) = r" "on_side (opposite side) (make_pair side r c) = c"
  by (cases side; simp add: on_side_def make_pair_def)+

lemma pair_eq_iff: "p = q \<longleftrightarrow> on_side side p = on_side side q \<and> on_side (opposite side) p = on_side (opposite side) (q :: 'v JoinedPair)"
  by (cases side) (auto simp: on_side_def)

lemma all_sides: "(\<forall>s. P s) \<longleftrightarrow> P side \<and> P (opposite side)"
  by (cases side) (auto; metis join_side.exhaust)+

lemma kept_set_kept [simp]: "kept_records s (set_kept side rs j) = (if s = side then rs else kept_records s j)"
  by (cases s; cases side) (simp_all add: kept_records_def set_kept_def)

definition statics :: "('i, 'v) IntervalJoin \<Rightarrow> ('i \<times> 'i) \<times> f64 \<times> f64" where
  "statics j = ((i_left_stream j, i_right_stream j), i_lower_bound j, i_upper_bound j)"

definition received :: "join_side \<Rightarrow> ('i, 'v) IntervalJoin \<Rightarrow> 64 word" where
  "received side j = (case side of LeftSide \<Rightarrow> i_left_received j | RightSide \<Rightarrow> i_right_received j)"

lemma set_kept_same [simp]: "statics (set_kept side rs j) = statics j" "i_outputs (set_kept side rs j) = i_outputs j"
  "i_changes (set_kept side rs j) = i_changes j" "i_pairs_emitted (set_kept side rs j) = i_pairs_emitted j"
  "received s (set_kept side rs j) = received s j"
  by (cases side; cases s; simp add: set_kept_def statics_def received_def)+

lemma count_received_same [simp]: "statics (count_received side j) = statics j" "i_outputs (count_received side j) = i_outputs j"
  "i_changes (count_received side j) = i_changes j" "i_pairs_emitted (count_received side j) = i_pairs_emitted j"
  "kept_records s (count_received side j) = kept_records s j"
  "received s (count_received side j) = received s j + (if s = side then 1 else 0)"
  by (cases side; cases s; simp add: count_received_def statics_def received_def kept_records_def)+

section \<open>What the join keeps\<close>

text \<open>A record that no later record of the other stream can be paired with.\<close>

definition settled_at :: "join_side \<Rightarrow> ('i \<Rightarrow> f64 option) \<Rightarrow> ('i, 'v) IntervalJoin \<Rightarrow> 'v StreamRecord \<Rightarrow> bool" where
  "settled_at side F j r \<longleftrightarrow> (\<exists>lf rf. F (i_left_stream j) = Some lf \<and> F (i_right_stream j) = Some rf
     \<and> (case side of LeftSide \<Rightarrow> settled_left j lf rf r | RightSide \<Rightarrow> settled_right j lf rf r))"

definition pairs_of :: "('i, 'v) IntervalJoin \<Rightarrow> (join_side \<Rightarrow> 'v StreamRecord set) \<Rightarrow> 'v JoinedPair set" where
  "pairs_of j live = {p. (\<forall>side. on_side side p \<in> live side) \<and> joined (i_lower_bound j) (i_upper_bound j) p}"

definition whole :: "f64 \<Rightarrow> bool" where
  "whole t \<longleftrightarrow> (\<exists>n. \<bar>n\<bar> \<le> 2 ^ 50 \<and> t = num n)"

definition outputs_ok :: "(join_side \<Rightarrow> 'v StreamRecord set) \<Rightarrow> ('i, 'v) IntervalJoin \<Rightarrow> bool" where
  "outputs_ok live j \<longleftrightarrow> distinct (i_outputs j) \<and> set (i_outputs j) = pairs_of j live
     \<and> mset (of_kind Insert (i_changes j)) = mset (i_outputs j) + mset (of_kind Delete (i_changes j))
     \<and> i_pairs_emitted j = of_nat (length (of_kind Insert (i_changes j)))"

definition side_ok :: "join_side \<Rightarrow> ('i \<Rightarrow> f64 option) \<Rightarrow> 'v StreamRecord list \<Rightarrow> 'v StreamRecord list \<Rightarrow> ('i, 'v) IntervalJoin \<Rightarrow> bool" where
  "side_ok side F rs live j \<longleftrightarrow> live \<in> set (survivals rs) \<and> set (kept_records side j) \<subseteq> set live
     \<and> distinct (kept_records side j) \<and> (\<forall>r \<in> set live - set (kept_records side j). settled_at side F j r)
     \<and> received side j = of_nat (length rs)"

definition interval_inv :: "('i \<Rightarrow> f64 option) \<Rightarrow> ('i \<Rightarrow> 'v StreamRecord list) \<Rightarrow> ('i, 'v) IntervalJoin \<Rightarrow> bool" where
  "interval_inv F logs j \<longleftrightarrow> (\<exists>live. (\<forall>side. side_ok side F (logs (side_stream side j)) (live side) j)
     \<and> outputs_ok (set \<circ> live) j)"

lemma joined_make_pair: "joined lower upper (make_pair side r c) \<longleftrightarrow> r_key c = r_key r
    \<and> (case side of LeftSide \<Rightarrow> interval_contains (r_event_time r) (r_event_time c) lower upper
       | RightSide \<Rightarrow> interval_contains (r_event_time c) (r_event_time r) lower upper)"
  by (cases side) (auto simp: joined_def make_pair_def)

text \<open>A new record is beyond every record that is no longer kept.\<close>

lemma settled_not_joined:
  assumes c: "settled_at (opposite side) F j c" and r: "beyond (F (side_stream side j)) (r_event_time r)"
    and whole: "whole (i_lower_bound j)" "whole (r_event_time c)" "whole (r_event_time r)"
  shows "\<not> joined (i_lower_bound j) (i_upper_bound j) (make_pair side r c)"
proof (cases side)
  case LeftSide
  obtain n l m where n: "i_lower_bound j = num n" "\<bar>n\<bar> \<le> 2 ^ 50" "r_event_time r = num l" "\<bar>l\<bar> \<le> 2 ^ 50"
    "r_event_time c = num m" "\<bar>m\<bar> \<le> 2 ^ 50" using whole by (auto simp: whole_def)
  obtain lf where lf: "F (i_left_stream j) = Some lf" "fle (fsub (num m) (num n)) lf"
    using c by (auto simp: LeftSide settled_at_def settled_right_def n)
  have "\<not> fle (num l) lf" using r lf(1) by (simp add: LeftSide side_stream_def beyond_def n)
  moreover have "fle (num l) lf" if "fle (fadd (num l) (num n)) (num m)"
  proof (rule fle_trans [OF _ lf(2)])
    have "l + n \<le> m" using that n by (simp add: fadd_num)
    then show "fle (num l) (fsub (num m) (num n))" using n by (simp add: fsub_num)
  qed
  ultimately show ?thesis by (auto simp: LeftSide joined_make_pair interval_contains_def n)
next
  case RightSide
  obtain rf where "F (i_right_stream j) = Some rf" "fle (fadd (r_event_time c) (i_upper_bound j)) rf"
    using c by (auto simp: RightSide settled_at_def settled_left_def)
  then show ?thesis using r fle_trans
    by (auto simp: RightSide joined_make_pair interval_contains_def side_stream_def beyond_def)
qed

lemma settled_not_taken_back:
  assumes c: "settled_at side F j c" and r: "beyond (F (side_stream side j)) (r_event_time r)"
  shows "\<not> taken_back r c"
  using assms by (cases side) (auto simp: taken_back_def feq_def settled_at_def settled_left_def settled_right_def
      side_stream_def beyond_def)

lemma settled_later:
  assumes "settled_at side F j r" "moved F F'" "statics j' = statics j"
  shows "settled_at side F' j' r"
proof -
  have later: "\<exists>g. F' i = Some g \<and> fle f g" if "F i = Some f" for i f
  proof -
    have "opt_le (Some f) (F' i)" "f \<noteq> NaN" using assms(2) that by (auto simp: moved_def proper_frontier_def dest: spec [of _ i])
    then show ?thesis by (rule opt_le_Some)
  qed
  obtain lf rf where f: "F (i_left_stream j) = Some lf" "F (i_right_stream j) = Some rf"
    "case side of LeftSide \<Rightarrow> settled_left j lf rf r | RightSide \<Rightarrow> settled_right j lf rf r"
    using assms(1) by (auto simp: settled_at_def)
  obtain lg rg where g: "F' (i_left_stream j) = Some lg" "fle lf lg" "F' (i_right_stream j) = Some rg" "fle rf rg"
    using later [OF f(1)] later [OF f(2)] by blast
  with f(3) assms(3) show ?thesis
    by (cases side) (auto simp: settled_at_def statics_def settled_left_def settled_right_def intro: fle_trans)
qed

section \<open>Emission\<close>

lemma pair_key_iff: "pair_key p = pair_key q \<longleftrightarrow> (\<forall>side. slot_of (on_side side p) = slot_of (on_side side q))"
  by (simp add: all_sides [of _ LeftSide] pair_key_def on_side_def)

lemma emit_new:
  assumes "pair_key p \<notin> pair_key ` set (i_outputs j)"
  shows "emit_interval_join_pair j (h_left p) (h_right p) = j\<lparr> i_outputs := i_outputs j @ [p], i_changes := i_changes j @ [(Insert, p)],
    i_pairs_emitted := i_pairs_emitted j + 1 \<rparr>"
proof -
  have "filter (\<lambda>x. pair_key x \<noteq> pair_key p) (i_outputs j) = i_outputs j" using assms by (simp add: filter_id_conv) (metis image_eqI)
  moreover have "\<lparr> h_left = h_left p, h_right = h_right p \<rparr> = p" by simp
  moreover have "get_by pair_key (pair_key p) (i_outputs j) = None" using assms by (simp only: get_by_None not_False_eq_True)
  ultimately show ?thesis unfolding emit_interval_join_pair_def Let_def by (simp only:) (simp add: put_by_def)
qed

definition emitted :: "'v JoinedPair list \<Rightarrow> ('i, 'v) IntervalJoin \<Rightarrow> ('i, 'v) IntervalJoin" where
  "emitted ps j = j\<lparr> i_outputs := i_outputs j @ ps, i_changes := i_changes j @ map (Pair Insert) ps,
     i_pairs_emitted := i_pairs_emitted j + of_nat (length ps) \<rparr>"

lemma pair_up_make_pair: "pair_up side r j c = (let p = make_pair side r c in
    if interval_contains (r_event_time (h_left p)) (r_event_time (h_right p)) (i_lower_bound j) (i_upper_bound j)
    then emit_interval_join_pair j (h_left p) (h_right p) else j)"
  by (cases side) (simp_all add: pair_up_def make_pair_def)

text \<open>The candidates of a new record are emitted, each once.\<close>

lemma pair_up_all:
  assumes "\<forall>p \<in> set (i_outputs j). \<forall>c \<in> set cs. pair_key p \<noteq> pair_key (make_pair side r c)"
    and "distinct cs" "inj_on slot_of (set cs)" "\<forall>c \<in> set cs. r_key c = r_key r"
  shows "foldl (pair_up side r) j cs = emitted (filter (joined (i_lower_bound j) (i_upper_bound j)) (map (make_pair side r) cs)) j"
  using assms
proof (induction cs arbitrary: j)
  case (Cons c cs)
  let ?p = "make_pair side r c"
  have other: "pair_key ?p \<noteq> pair_key (make_pair side r x)" if "x \<in> set cs" for x
  proof -
    have "slot_of x \<noteq> slot_of c" using Cons.prems(2,3) that by (auto simp: inj_on_def)
    then show ?thesis by (auto simp: pair_key_iff all_sides [of _ side])
  qed
  have keys: "r_key (h_left ?p) = r_key (h_right ?p)" using Cons.prems(4) by (cases side) (auto simp: make_pair_def)
  show ?case
  proof (cases "joined (i_lower_bound j) (i_upper_bound j) ?p")
    case True
    then have step: "pair_up side r j c = emitted [?p] j"
      using Cons.prems(1) by (simp add: pair_up_make_pair joined_def Let_def emitted_def) (subst emit_new, auto)
    have "\<forall>p \<in> set (i_outputs (emitted [?p] j)). \<forall>x \<in> set cs. pair_key p \<noteq> pair_key (make_pair side r x)"
      using Cons.prems(1) other by (auto simp: emitted_def)
    from Cons.IH [OF this] Cons.prems(2-4) True show ?thesis by (simp add: step emitted_def)
  next
    case False
    then have "pair_up side r j c = j" using keys by (simp add: pair_up_make_pair joined_def Let_def)
    with Cons False show ?thesis by simp
  qed
qed (simp add: emitted_def)

section \<open>A record that arrives\<close>

definition fit :: "'v StreamRecord list \<Rightarrow> bool" where
  "fit rs \<longleftrightarrow> distinct rs \<and> inj_on slot_of (set rs) \<and> (\<forall>r \<in> set rs. whole (r_event_time r))"

lemma fit_slot: "fit rs \<Longrightarrow> x \<in> set rs \<Longrightarrow> y \<in> set rs \<Longrightarrow> slot_of x = slot_of y \<Longrightarrow> x = y"
  by (auto simp: fit_def dest: inj_onD)

lemma fit_prefix: "fit (rs @ [r]) \<Longrightarrow> fit rs"
  by (auto simp: fit_def inj_on_def)

lemma pairs_of_insert: "pairs_of j (L(side := insert r (L side)))
    = pairs_of j L \<union> {p \<in> make_pair side r ` L (opposite side). joined (i_lower_bound j) (i_upper_bound j) p}"
  by (auto simp: pairs_of_def all_sides [of _ side] image_iff pair_eq_iff [of _ _ side])

lemma pairs_of_remove: "pairs_of j (L(side := L side - {c})) = {p \<in> pairs_of j L. on_side side p \<noteq> c}"
  by (auto simp: pairs_of_def all_sides [of _ side])

lemma statics_same:
  assumes "statics j' = statics j"
  shows "settled_at side F j' = settled_at side F j" "pairs_of j' = pairs_of j" "side_stream side j' = side_stream side j"
    "i_lower_bound j' = i_lower_bound j" "i_upper_bound j' = i_upper_bound j"
  using assms by (auto simp: statics_def fun_eq_iff settled_at_def settled_left_def settled_right_def pairs_of_def side_stream_def
      split: join_side.splits)

lemma emitted_same [simp]: "statics (emitted ps j) = statics j" "kept_records s (emitted ps j) = kept_records s j"
  "received s (emitted ps j) = received s j"
  by (cases s; simp add: emitted_def statics_def kept_records_def received_def)+

lemma outputs_ok_cong: "i_outputs j' = i_outputs j \<Longrightarrow> i_changes j' = i_changes j \<Longrightarrow> i_pairs_emitted j' = i_pairs_emitted j
    \<Longrightarrow> statics j' = statics j \<Longrightarrow> outputs_ok L j' = outputs_ok L j"
  unfolding outputs_ok_def by (metis statics_same(2))

lemma outputs_ok_emitted:
  assumes "outputs_ok L j" "pairs_of j L' = pairs_of j L \<union> set ps" "distinct ps" "pairs_of j L \<inter> set ps = {}"
  shows "outputs_ok L' (emitted ps j)"
proof -
  have "distinct (i_outputs j @ ps)" "set (i_outputs j @ ps) = pairs_of j L'" using assms by (auto simp: outputs_ok_def)
  moreover have "i_outputs (emitted ps j) = i_outputs j @ ps" "i_changes (emitted ps j) = i_changes j @ map (Pair Insert) ps"
    "i_pairs_emitted (emitted ps j) = i_pairs_emitted j + of_nat (length ps)" by (simp_all add: emitted_def)
  ultimately show ?thesis
    using assms(1) unfolding outputs_ok_def statics_same(2) [OF emitted_same(1)] by simp
qed

text \<open>What is kept of a log can be told apart by the slot.\<close>

lemma side_ok_within: "side_ok side F rs live j \<Longrightarrow> fit rs \<Longrightarrow> set live \<subseteq> set rs \<and> distinct live \<and> set (kept_records side j) \<subseteq> set rs"
  using survivals_sub [of live rs] by (auto simp: side_ok_def fit_def)

lemma addition_inv:
  assumes live: "\<forall>s. side_ok s F (logs (side_stream s j)) (live s) j" and out: "outputs_ok (set \<circ> live) j"
    and new: "is_addition (r_kind r)" "fit (logs (side_stream side j) @ [r])" "fit (logs (side_stream (opposite side) j))"
    and far: "beyond (F (side_stream side j)) (r_event_time r)" and low: "whole (i_lower_bound j)"
    and streams: "side_stream side j \<noteq> side_stream (opposite side) j" and scan: "scans scan"
  shows "interval_inv F (logs(side_stream side j := logs (side_stream side j) @ [r]))
    (count_received side (set_kept side (put_by side_key r (kept_records side j))
      (foldl (pair_up side r) j (scan (filter (\<lambda>c. r_key c = r_key r) (kept_records (opposite side) j))))))"
    (is "interval_inv F ?logs (count_received side (set_kept side ?kept (foldl _ j ?cs)))")
proof -
  let ?i = "side_stream side j" and ?k = "side_stream (opposite side) j"
  let ?joined = "joined (i_lower_bound j) (i_upper_bound j)"
  define ps where "ps = filter ?joined (map (make_pair side r) ?cs)"
  have old: "fit (logs ?i)" using new(2) by (rule fit_prefix)
  have mine: "set (live side) \<subseteq> set (logs ?i)" "set (kept_records side j) \<subseteq> set (logs ?i)"
    and theirs: "set (live (opposite side)) \<subseteq> set (logs ?k)" "set (kept_records (opposite side) j) \<subseteq> set (live (opposite side))"
    using live side_ok_within old new(3) unfolding side_ok_def by meson+
  have fresh: "slot_of x \<noteq> slot_of r" if "x \<in> set (logs ?i)" for x
    using fit_slot [OF new(2), of x r] new(2) that by (auto simp: fit_def)
  have kept: "?kept = kept_records side j @ [r]"
    using mine fresh by (auto simp: put_by_def side_key_def filter_id_conv)
  have "distinct (filter (\<lambda>c. r_key c = r_key r) (kept_records (opposite side) j))"
    using live[rule_format, of "opposite side"] by (simp add: side_ok_def)
  then have cs: "set ?cs = {c \<in> set (kept_records (opposite side) j). r_key c = r_key r}" "distinct ?cs"
    using scan set_scans [OF scan, of "filter (\<lambda>c. r_key c = r_key r) (kept_records (opposite side) j)"]
    unfolding scans_def by (auto dest: mset_eq_imp_distinct_iff)
  have outputs: "set (i_outputs j) = pairs_of j (set \<circ> live)" using out by (simp add: outputs_ok_def)
  have apart: "pair_key p \<noteq> pair_key (make_pair side r c)" if "p \<in> set (i_outputs j)" for p c
  proof -
    have "on_side side p \<in> set (live side)" using that outputs by (simp add: pairs_of_def)
    then show ?thesis using fresh mine(1) by (auto simp: pair_key_iff all_sides [of _ side])
  qed
  have "inj_on slot_of (set ?cs)"
    using new(3) theirs cs(1) by (auto simp: fit_def intro: inj_on_subset)
  then have fold: "foldl (pair_up side r) j ?cs = emitted ps j"
    unfolding ps_def using apart cs by (intro pair_up_all) auto
  have "?joined (make_pair side r c) \<longleftrightarrow> c \<in> set ?cs \<and> ?joined (make_pair side r c)" if c: "c \<in> set (live (opposite side))" for c
  proof -
    have "whole (r_event_time c)" "whole (r_event_time r)" using c theirs(1) new(2,3) by (auto simp: fit_def)
    then have "\<not> ?joined (make_pair side r c)" if "c \<notin> set (kept_records (opposite side) j)"
      using settled_not_joined [where F = F and side = side and j = j and r = r, OF _ far low] live[rule_format, of "opposite side"] c that by (auto simp: side_ok_def)
    then show ?thesis by (auto simp: cs(1) joined_make_pair)
  qed
  then have set_ps: "set ps = {p \<in> make_pair side r ` set (live (opposite side)). ?joined p}"
    using cs(1) theirs(2) by (auto simp: ps_def)
  have "inj_on (make_pair side r) (set ?cs)" by (rule inj_onI) (metis make_pair_simps(2))
  then have dist: "distinct ps" using cs(2) by (simp add: ps_def distinct_map)
  have "pairs_of j (set \<circ> live) \<inter> set ps = {}"
  proof -
    have "p \<notin> set (i_outputs j)" if "p \<in> set ps" for p using that apart [of p] by (auto simp: ps_def)
    then show ?thesis unfolding outputs [symmetric] by blast
  qed
  then have out': "outputs_ok ((set \<circ> live)(side := insert r (set (live side)))) (emitted ps j)"
    using outputs_ok_emitted [OF out _ dist] pairs_of_insert [of j "set \<circ> live" side r] set_ps by simp
  let ?j = "count_received side (set_kept side (kept_records side j @ [r]) (emitted ps j))" and ?live = "live(side := live side @ [r])"
  have same: "statics ?j = statics j" by simp
  have "set \<circ> ?live = (set \<circ> live)(side := insert r (set (live side)))" by (simp add: fun_eq_iff)
  with out' have "outputs_ok (set \<circ> ?live) ?j" using outputs_ok_cong [of ?j "emitted ps j"] by simp
  moreover have "side_ok side F (logs ?i @ [r]) (?live side) ?j"
    using live[rule_format, of side] new(1,2) mine
    by (auto simp: side_ok_def statics_same(1) [OF same] survive_def fit_def)
  moreover have "side_ok (opposite side) F (logs ?k) (?live (opposite side)) ?j"
    using live[rule_format, of "opposite side"] by (auto simp: side_ok_def statics_same(1) [OF same])
  ultimately show ?thesis unfolding interval_inv_def fold kept
    by (intro exI [of _ ?live]) (use streams in \<open>simp add: all_sides [of _ side] statics_same(3) [OF same]\<close>)
qed

text \<open>A retraction leaves the records \<open>l\<close> of those that were left, and the outputs whose record on its side is one of them.\<close>

lemma retract_effect:
  assumes rs: "inj_on slot_of (set rs)" and live: "set live \<subseteq> set rs" "distinct live" "set (kept_records side j) \<subseteq> set live"
    and on: "\<And>p. p \<in> set (i_outputs j) \<Longrightarrow> on_side side p \<in> set live"
    and settled: "\<And>c. c \<in> set live \<Longrightarrow> c \<notin> set (kept_records side j) \<Longrightarrow> \<not> taken_back r c"
    and new: "\<not> is_addition (r_kind r)" and scan: "scans scan" "scans scan_pairs"
    and j': "j' = retract_interval_join_record scan scan_pairs side r j"
  obtains l where "l \<in> set (survive r live)" "set l \<subseteq> set live" "statics j' = statics j" "\<And>s. received s j' = received s j"
    "\<And>s. kept_records s j' = (if s = side then filter (\<lambda>x. x \<in> set l) (kept_records side j) else kept_records s j)"
    "i_outputs j' = filter (\<lambda>p. on_side side p \<in> set l) (i_outputs j)" "i_pairs_emitted j' = i_pairs_emitted j"
    "of_kind Insert (i_changes j') = of_kind Insert (i_changes j)"
    "mset (of_kind Delete (i_changes j')) + mset (i_outputs j') = mset (of_kind Delete (i_changes j)) + mset (i_outputs j)"
proof (cases "List.find (taken_back r) (scan (filter (\<lambda>c. r_key c = r_key r) (kept_records side j)))")
  case None
  then have "\<not> taken_back r c" if "c \<in> set (kept_records side j)" for c
    using that set_scans [OF scan(1)] by (auto simp: find_None_iff taken_back_def)
  then have "filter (taken_back r) live = []" using settled by (auto simp: filter_empty_conv)
  moreover have "filter (\<lambda>x. x \<in> set live) (kept_records side j) = kept_records side j"
    "filter (\<lambda>p. on_side side p \<in> set live) (i_outputs j) = i_outputs j"
    using live(3) on by (auto simp: filter_id_conv)
  moreover have "j' = j" using None by (simp add: j' retract_interval_join_record_def)
  ultimately show thesis using new by (intro that [of live]) (simp_all add: survive_def)
next
  case (Some c)
  let ?l = "remove1 c live"
  have c: "c \<in> set (kept_records side j)" "taken_back r c" using find_SomeD [OF Some] set_scans [OF scan(1)] by auto
  have slot: "slot_of x = slot_of c \<longleftrightarrow> x = c" if "x \<in> set live" for x
    using inj_onD [OF rs] live that c(1) by (metis subsetD)
  have in_l: "x \<in> set ?l \<longleftrightarrow> x \<noteq> c" if "x \<in> set live" for x using that live(2) by simp
  define gone where "gone = filter (\<lambda>p. slot_of (on_side side p) = slot_of c) (scan_pairs (i_outputs j))"
  have gone: "set gone = {p \<in> set (i_outputs j). on_side side p = c}" "mset gone = mset (filter (\<lambda>p. on_side side p = c) (i_outputs j))"
  proof -
    have "mset gone = mset (filter (\<lambda>p. slot_of (on_side side p) = slot_of c) (i_outputs j))"
      using scan(2) by (simp add: gone_def scans_def)
    also have "filter (\<lambda>p. slot_of (on_side side p) = slot_of c) (i_outputs j) = filter (\<lambda>p. on_side side p = c) (i_outputs j)"
      using on slot by (intro filter_cong) auto
    finally show "mset gone = mset (filter (\<lambda>p. on_side side p = c) (i_outputs j))" .
    then show "set gone = {p \<in> set (i_outputs j). on_side side p = c}" by (metis mset_eq_setD set_filter)
  qed
  have stay: "filter (\<lambda>p. pair_key p \<notin> pair_key ` set gone) (i_outputs j) = filter (\<lambda>p. on_side side p \<in> set ?l) (i_outputs j)"
  proof (rule filter_cong [OF refl])
    fix p
    assume p: "p \<in> set (i_outputs j)"
    have "on_side side p = c" if "q \<in> set gone" "pair_key p = pair_key q" for q
      using that slot [OF on [OF p]] unfolding gone(1) pair_key_iff by auto
    with p show "pair_key p \<notin> pair_key ` set gone \<longleftrightarrow> on_side side p \<in> set ?l" unfolding gone(1) in_l [OF on [OF p]] by auto
  qed
  have kept: "delete_by side_key c (kept_records side j) = filter (\<lambda>x. x \<in> set ?l) (kept_records side j)"
    unfolding delete_by_def using slot in_l live(3) by (intro filter_cong) (auto simp: side_key_def)
  have j: "j' = (set_kept side (filter (\<lambda>x. x \<in> set ?l) (kept_records side j)) j)\<lparr>
      i_outputs := filter (\<lambda>p. on_side side p \<in> set ?l) (i_outputs j), i_changes := i_changes j @ map (Pair Delete) gone \<rparr>"
    using Some stay by (simp add: j' retract_interval_join_record_def kept gone_def Let_def)
  have same: "statics j' = statics j" "received s j' = received s j"
    "kept_records s j' = (if s = side then filter (\<lambda>x. x \<in> set ?l) (kept_records side j) else kept_records s j)"
    "i_outputs j' = filter (\<lambda>p. on_side side p \<in> set ?l) (i_outputs j)" "i_changes j' = i_changes j @ map (Pair Delete) gone"
    "i_pairs_emitted j' = i_pairs_emitted j" for s
    unfolding j by (cases side; cases s; simp add: set_kept_def statics_def received_def kept_records_def)+
  have others: "filter (\<lambda>p. on_side side p \<in> set ?l) (i_outputs j) = filter (\<lambda>p. on_side side p \<noteq> c) (i_outputs j)"
    using on in_l by (intro filter_cong) auto
  have parts: "mset gone + mset (i_outputs j') = mset (i_outputs j)"
    unfolding same(4) others gone(2) mset_filter by (rule multiset_partition [symmetric])
  have "c \<in> set (filter (taken_back r) live)" using c live(3) by auto
  moreover from this have "survive r live = map (\<lambda>c. remove1 c live) (filter (taken_back r) live)"
    using new by (cases "filter (taken_back r) live") (simp_all add: survive_def del: set_filter)
  ultimately have "?l \<in> set (survive r live)" by simp
  then show thesis using same parts by (intro that [of ?l]) (simp_all add: set_remove1_subset add.assoc)
qed

lemma retraction_inv:
  assumes live: "\<forall>s. side_ok s F (logs (side_stream s j)) (live s) j" and out: "outputs_ok (set \<circ> live) j"
    and new: "\<not> is_addition (r_kind r)" "fit (logs (side_stream side j))"
    and far: "beyond (F (side_stream side j)) (r_event_time r)"
    and streams: "side_stream side j \<noteq> side_stream (opposite side) j" and scan: "scans scan" "scans scan_pairs"
  shows "interval_inv F (logs(side_stream side j := logs (side_stream side j) @ [r]))
    (count_received side (retract_interval_join_record scan scan_pairs side r j))"
    (is "interval_inv F ?logs (count_received side ?j)")
proof -
  let ?i = "side_stream side j" and ?k = "side_stream (opposite side) j"
  have mine: "set (live side) \<subseteq> set (logs ?i)" "distinct (live side)" "set (kept_records side j) \<subseteq> set (live side)"
    using side_ok_within [OF live[rule_format, of side] new(2)] live[rule_format, of side] by (auto simp: side_ok_def)
  have settled: "\<not> taken_back r c" if "c \<in> set (live side)" "c \<notin> set (kept_records side j)" for c
    using settled_not_taken_back [where side = side and F = F and j = j, OF _ far] live[rule_format, of side] that by (auto simp: side_ok_def)
  have outputs: "set (i_outputs j) = pairs_of j (set \<circ> live)" using out by (simp add: outputs_ok_def)
  then have on: "on_side side p \<in> set (live side)" if "p \<in> set (i_outputs j)" for p using that by (simp add: pairs_of_def)
  obtain l where l: "l \<in> set (survive r (live side))" "set l \<subseteq> set (live side)"
    and j': "statics ?j = statics j" "\<And>s. received s ?j = received s j"
      "\<And>s. kept_records s ?j = (if s = side then filter (\<lambda>x. x \<in> set l) (kept_records side j) else kept_records s j)"
    and o': "i_outputs ?j = filter (\<lambda>p. on_side side p \<in> set l) (i_outputs j)" "i_pairs_emitted ?j = i_pairs_emitted j"
      "of_kind Insert (i_changes ?j) = of_kind Insert (i_changes j)"
      "mset (of_kind Delete (i_changes ?j)) + mset (i_outputs ?j) = mset (of_kind Delete (i_changes j)) + mset (i_outputs j)"
    using retract_effect [OF _ mine on settled new(1) scan refl] new(2) unfolding fit_def by blast
  let ?c = "count_received side ?j" and ?live = "live(side := l)"
  have same: "statics ?c = statics j" using j'(1) by simp
  have "pairs_of j (set \<circ> ?live) = {p \<in> pairs_of j (set \<circ> live). on_side side p \<in> set l}"
    using l(2) by (auto simp: pairs_of_def all_sides [of _ side])
  then have "set (i_outputs ?j) = pairs_of ?j (set \<circ> ?live)" unfolding o'(1) statics_same(2) [OF j'(1)] by (simp add: outputs)
  moreover have "mset (of_kind Insert (i_changes j)) = mset (i_outputs ?j) + mset (of_kind Delete (i_changes ?j))"
    unfolding add.commute [of "mset (i_outputs ?j)"] o'(4) using out by (simp add: outputs_ok_def add.commute)
  moreover have "distinct (i_outputs ?j)" using out unfolding o'(1) by (simp add: outputs_ok_def)
  moreover have "i_pairs_emitted ?j = of_nat (length (of_kind Insert (i_changes ?j)))"
    unfolding o'(2,3) using out by (simp add: outputs_ok_def)
  ultimately have "outputs_ok (set \<circ> ?live) ?j" unfolding outputs_ok_def o'(3) by blast
  then have "outputs_ok (set \<circ> ?live) ?c" using outputs_ok_cong [of ?c ?j] by simp
  moreover have "side_ok side F (logs ?i @ [r]) (?live side) ?c"
    using live[rule_format, of side] l by (auto simp: side_ok_def statics_same(1) [OF same] j'(2,3))
  moreover have "side_ok (opposite side) F (logs ?k) (?live (opposite side)) ?c"
    using live[rule_format, of "opposite side"] by (auto simp: side_ok_def statics_same(1) [OF same] j'(2,3))
  ultimately show ?thesis unfolding interval_inv_def
    by (intro exI [of _ ?live]) (use streams in \<open>simp add: all_sides [of _ side] statics_same(3) [OF same]\<close>)
qed

section \<open>The contract\<close>

definition inputs_fit :: "('i, 'v) IntervalJoin \<Rightarrow> ('i \<Rightarrow> 'v StreamRecord list) \<Rightarrow> bool" where
  "inputs_fit j logs \<longleftrightarrow> fit (logs (i_left_stream j)) \<and> fit (logs (i_right_stream j))"

lemma retract_statics [simp]: "statics (retract_interval_join_record scan scan_pairs side r j) = statics j"
  by (cases side) (auto simp: retract_interval_join_record_def Let_def set_kept_def statics_def split: option.splits)

lemma pair_up_statics [simp]: "statics (foldl (pair_up side r) j cs) = statics j"
proof (induction cs arbitrary: j)
  case (Cons c cs)
  have "statics (pair_up side r j c) = statics j"
    by (cases side) (auto simp: pair_up_def emit_interval_join_pair_def Let_def statics_def)
  with Cons show ?case by simp
qed simp

lemma logs_ok_fit: "logs_ok whole logs \<Longrightarrow> fit (logs i)"
  using in_sequence_distinct by (auto simp: logs_ok_def fit_def)

lemma index_interval_join_record_inv:
  assumes j: "interval_inv F logs j" and run: "index_interval_join_record scan scan_pairs i r j = Some j'"
    and two: "i_left_stream j \<noteq> i_right_stream j" and low: "whole (i_lower_bound j)"
    and new: "inputs_fit j (logs(i := logs i @ [r]))" and far: "i \<in> {i_left_stream j, i_right_stream j} \<Longrightarrow> beyond (F i) (r_event_time r)"
    and scan: "scans scan" "scans scan_pairs"
  shows "interval_inv F (logs(i := logs i @ [r])) j' \<and> statics j' = statics j"
proof (cases "i \<in> {i_left_stream j, i_right_stream j}")
  case False
  with run have "j' = j" using two by (simp add: index_interval_join_record_def)
  moreover have "side_stream side j \<noteq> i" for side using False by (cases side) (auto simp: side_stream_def)
  ultimately show ?thesis using j by (simp add: interval_inv_def)
next
  case True
  define side where "side = (if i = i_left_stream j then LeftSide else RightSide)"
  have i: "side_stream side j = i" "side_stream (opposite side) j \<noteq> i"
    using True two by (auto simp: side_def side_stream_def)
  have fits: "fit (logs i @ [r])" "fit (logs i)" "fit (logs (side_stream (opposite side) j))"
    using new True two fit_prefix [of "logs i" r] by (auto simp: inputs_fit_def side_def side_stream_def split: if_splits)
  obtain live where live: "\<forall>side. side_ok side F (logs (side_stream side j)) (live side) j" "outputs_ok (set \<circ> live) j"
    using j by (auto simp: interval_inv_def)
  have j': "j' = count_received side (if \<not> is_addition (r_kind r) then retract_interval_join_record scan scan_pairs side r j
      else set_kept side (put_by side_key r (kept_records side j))
        (foldl (pair_up side r) j (scan (filter (\<lambda>c. r_key c = r_key r) (kept_records (opposite side) j)))))"
  proof -
    have "kept_records side (foldl (pair_up side r) j cs) = kept_records side j" for cs
    proof (induction cs arbitrary: j)
      case (Cons c cs)
      have "kept_records side (pair_up side r j c) = kept_records side j" for j :: "('a, 'b) IntervalJoin"
        by (cases side) (auto simp: pair_up_def emit_interval_join_pair_def Let_def kept_records_def)
      with Cons show ?case by simp
    qed simp
    with run True two show ?thesis
      by (auto simp: index_interval_join_record_def Let_def side_def split: if_splits)
  qed
  have far: "beyond (F (side_stream side j)) (r_event_time r)" using far True i(1) by simp
  have streams: "side_stream side j \<noteq> side_stream (opposite side) j" using i by simp
  show ?thesis
  proof (cases "is_addition (r_kind r)")
    case True
    from addition_inv [OF live True _ fits(3) far low streams scan(1), unfolded i(1), OF fits(1)] True show ?thesis by (simp add: j')
  next
    case False
    from retraction_inv [OF live False _ far streams scan, unfolded i(1), OF fits(2)] False show ?thesis by (simp add: j')
  qed
qed

lemma drop_settled_inv:
  assumes j: "interval_inv F logs j" and F: "moved F F'"
  shows "interval_inv F' logs (drop_settled (F' (i_left_stream j)) (F' (i_right_stream j)) j)"
    (is "interval_inv F' logs ?j")
proof -
  obtain live where live: "\<forall>side. side_ok side F (logs (side_stream side j)) (live side) j" "outputs_ok (set \<circ> live) j"
    using j by (auto simp: interval_inv_def)
  have same: "statics ?j = statics j" "i_outputs ?j = i_outputs j" "i_changes ?j = i_changes j"
    "i_pairs_emitted ?j = i_pairs_emitted j" "received side ?j = received side j" for side
    by (auto simp: drop_settled_def statics_def received_def split: option.splits join_side.splits)
  have kept: "kept_records side ?j = filter (\<lambda>r. \<not> settled_at side F' j r) (kept_records side j)" for side
    by (cases side) (auto simp: drop_settled_def settled_at_def kept_records_def split: option.splits)
  have "side_ok side F' (logs (side_stream side ?j)) (live side) ?j" for side
    using live(1)[rule_format, of side] settled_later [OF _ F, of side j _ j]
    by (auto simp: side_ok_def same(5) kept statics_same(1,3) [OF same(1)])
  moreover have "outputs_ok (set \<circ> live) ?j" using live(2) outputs_ok_cong [of ?j j] same by simp
  ultimately show ?thesis by (auto simp: interval_inv_def)
qed

definition logs_with :: "('i \<Rightarrow> 'v StreamRecord list) \<Rightarrow> ('i \<times> 'v StreamRecord) list \<Rightarrow> 'i \<Rightarrow> 'v StreamRecord list" where
  "logs_with logs es = foldl (\<lambda>logs (i, r). logs(i := logs i @ [r])) logs es"

lemma logs_with_apply: "logs_with logs es i = logs i @ map snd (filter (\<lambda>e. fst e = i) es)"
  by (induction es arbitrary: logs) (auto simp: logs_with_def)

lemma fit_append: "fit (xs @ ys) \<Longrightarrow> fit xs"
  by (induction ys rule: rev_induct) (auto dest: fit_prefix simp flip: append_assoc)

lemma index_interval_join_records_inv:
  assumes "interval_inv (\<lambda>i. None) logs j" "index_interval_join_records scan scan_pairs es j = Some j'"
    "i_left_stream j \<noteq> i_right_stream j" "whole (i_lower_bound j)" "inputs_fit j (logs_with logs es)" "scans scan" "scans scan_pairs"
  shows "interval_inv (\<lambda>i. None) (logs_with logs es) j' \<and> statics j' = statics j"
  using assms(1-5)
proof (induction es arbitrary: j logs)
  case (Cons e es)
  obtain i r where e: "e = (i, r)" by fastforce
  let ?logs = "logs(i := logs i @ [r])"
  obtain m where m: "index_interval_join_record scan scan_pairs i r j = Some m" "index_interval_join_records scan scan_pairs es m = Some j'"
    using Cons.prems(2) by (auto simp: e Option.bind_eq_Some_conv)
  have rest: "logs_with logs (e # es) = logs_with ?logs es" by (simp add: logs_with_def e)
  have "inputs_fit j ?logs"
    using Cons.prems(5) fit_append unfolding inputs_fit_def rest logs_with_apply [of ?logs] by blast
  then have step: "interval_inv (\<lambda>i. None) ?logs m" "statics m = statics j"
    using index_interval_join_record_inv [OF Cons.prems(1) m(1) Cons.prems(3,4) _ _ assms(6,7)] by (auto simp: beyond_def)
  then have "interval_inv (\<lambda>i. None) (logs_with ?logs es) j' \<and> statics j' = statics m"
    using Cons.prems(3-5) m(2) unfolding rest by (intro Cons.IH) (auto simp: statics_def inputs_fit_def simp del: fun_upd_apply)
  with step(2) show ?case unfolding rest by simp
qed (simp add: logs_with_def)

lemma new_interval_inv: "interval_inv (\<lambda>i. None) (\<lambda>i. []) (new_interval_join left right lower upper)"
  unfolding interval_inv_def
  by (rule exI [of _ "\<lambda>side. []"])
    (auto simp: side_ok_def outputs_ok_def pairs_of_def new_interval_join_def kept_records_def received_def split: join_side.splits)

definition interval_reliable :: "('v StreamRecord list \<Rightarrow> 'v StreamRecord list)
    \<Rightarrow> ('v JoinedPair list \<Rightarrow> 'v JoinedPair list) \<Rightarrow> 'i \<Rightarrow> 'i \<Rightarrow> f64 \<Rightarrow> bool" where
  "interval_reliable scan scan_pairs left right lower \<longleftrightarrow> scans scan \<and> scans scan_pairs \<and> left \<noteq> right \<and> whole lower"

lemma create_interval_inv:
  assumes run: "create_interval_join scan scan_pairs (new_interval_join left right lower upper) logs = Some j"
    and logs: "logs_ok whole logs" and ok: "interval_reliable scan scan_pairs left right lower"
  shows "interval_inv (\<lambda>i. None) logs j \<and> statics j = ((left, right), lower, upper)"
proof -
  let ?new = "new_interval_join left right lower upper"
  let ?es = "map (Pair left) (sort_key r_sequence (scan (logs left))) @ map (Pair right) (sort_key r_sequence (scan (logs right)))"
  have ok': "scans scan" "scans scan_pairs" "left \<noteq> right" "whole lower" using ok by (simp_all add: interval_reliable_def)
  have new: "i_left_stream ?new = left" "i_right_stream ?new = right" "i_lower_bound ?new = lower"
    "statics ?new = ((left, right), lower, upper)" by (simp_all add: new_interval_join_def statics_def)
  have "in_sequence (logs i)" "mset (scan (logs i)) = mset (logs i)" for i
    using logs ok'(1) by (simp_all add: logs_ok_def scans_def)
  then have order: "sort_key r_sequence (scan (logs i)) = logs i" for i by (rule in_sequence_sort)
  have same: "logs_with (\<lambda>i. []) ?es left = logs left" "logs_with (\<lambda>i. []) ?es right = logs right"
    using ok'(3) by (simp_all add: logs_with_apply order filter_map o_def)
  have run: "index_interval_join_records scan scan_pairs ?es ?new = Some j"
    using run ok'(3) by (auto simp: create_interval_join_def new Let_def split: if_splits)
  have "interval_inv (\<lambda>i. None) (logs_with (\<lambda>i. []) ?es) j \<and> statics j = ((left, right), lower, upper)"
    using index_interval_join_records_inv [OF new_interval_inv run _ _ _ ok'(1,2)] ok'(3,4) logs_ok_fit [OF logs]
    by (simp add: new inputs_fit_def same)
  moreover from this have "logs_with (\<lambda>i. []) ?es (side_stream side j) = logs (side_stream side j)" for side
    using same by (cases side) (auto simp: statics_def side_stream_def)
  ultimately show ?thesis by (simp add: interval_inv_def)
qed

interpretation interval: stream_operator "interval_joining scan scan_pairs (new_interval_join left right lower upper) configs"
  "interval_reliable scan scan_pairs left right lower" whole
  "\<lambda>F logs j. interval_inv F logs j \<and> statics j = ((left, right), lower, upper)"
  for scan :: "'v StreamRecord list \<Rightarrow> 'v StreamRecord list" and scan_pairs and left right :: 'i and lower upper configs
proof unfold_locales
  fix logs and op :: "('i, 'v) IntervalJoin"
  assume "interval_reliable scan scan_pairs left right lower" "logs_ok whole logs"
    "m_create (interval_joining scan scan_pairs (new_interval_join left right lower upper) configs) logs = Some op"
  then show "interval_inv (\<lambda>i. None) logs op \<and> statics op = ((left, right), lower, upper)"
    using create_interval_inv by (simp add: interval_joining_def)
next
  let ?ops = "interval_joining scan scan_pairs (new_interval_join left right lower upper) configs"
  fix F logs logs' states entry and op op' :: "('i, 'v) IntervalJoin"
  assume ok: "interval_reliable scan scan_pairs left right lower"
    and inv: "interval_inv F logs op \<and> statics op = ((left, right), lower, upper)"
    and logs': "logs_ok whole logs'" and F: "moved F (frontiers ?ops states)"
    and rec: "entered (m_inputs ?ops) F logs entry logs'" and run: "m_refresh ?ops states entry op = Some op'"
  let ?F = "frontiers ?ops states"
  have streams: "i_left_stream op = left" "i_right_stream op = right" "i_lower_bound op = lower" using inv by (simp_all add: statics_def)
  have inputs: "m_inputs ?ops = [left, right]" by (simp add: interval_joining_def new_interval_join_def)
  obtain mid where mid: "(case entry of None \<Rightarrow> Some op | Some (i, r) \<Rightarrow>
        if i = left \<or> i = right then index_interval_join_record scan scan_pairs i r op else Some op) = Some mid"
    and op': "op' = drop_settled (completeness_frontier (configs (i_left_stream mid)) (states (i_left_stream mid)))
        (completeness_frontier (configs (i_right_stream mid)) (states (i_right_stream mid))) mid"
    using run unfolding interval_joining_def refresh_interval_joins_def OperatorSetup.simps streams(1,2) by auto
  have "interval_inv F logs' mid \<and> statics mid = ((left, right), lower, upper)"
  proof (cases entry)
    case None
    with inv rec mid show ?thesis by (simp add: entered_def)
  next
    case (Some e)
    obtain i r where e: "entry = Some (i, r)" using Some by fastforce
    then have logs_r: "logs' = logs(i := logs i @ [r])" and far: "i \<in> {left, right} \<Longrightarrow> beyond (F i) (r_event_time r)"
      using rec unfolding inputs by (auto simp: entered_def)
    have fit: "inputs_fit op logs'" using logs_ok_fit [OF logs'] by (simp add: inputs_fit_def)
    show ?thesis
    proof (cases "i = left \<or> i = right")
      case True
      then have "index_interval_join_record scan scan_pairs i r op = Some mid" using mid by (simp add: e)
      with index_interval_join_record_inv [of F logs op scan scan_pairs i r mid] inv far fit ok streams
      show ?thesis unfolding logs_r by (auto simp: interval_reliable_def)
    next
      case False
      then have "mid = op" using mid by (simp add: e)
      moreover have "side_stream side op \<noteq> i" for side using False streams by (cases side) (auto simp: side_stream_def)
      ultimately show ?thesis using inv by (simp add: interval_inv_def logs_r)
    qed
  qed
  moreover from this have "op' = drop_settled (?F (i_left_stream mid)) (?F (i_right_stream mid)) mid"
    by (simp add: op' frontiers_def interval_joining_def)
  ultimately show "interval_inv ?F logs' op' \<and> statics op' = ((left, right), lower, upper)"
    using drop_settled_inv [OF _ F, of logs' mid] by (auto simp: drop_settled_def statics_def split: option.splits)
qed

section \<open>The join is exact\<close>

lemma set_join_all: "set (join_all lower upper ls rs) = {p. h_left p \<in> set ls \<and> h_right p \<in> set rs \<and> joined lower upper p}"
  by (auto simp: join_all_def image_iff) (metis JoinedPair.surjective old.unit.exhaust)

text \<open>
  C7. An interval join of two streams emits the join of all their records, in whatever order they came. Over any
  requests, accepted or refused (fewer than \<open>2 ^ 64\<close>), with the join created at any time, and for whole
  event times and a whole lower bound: there are records left of each stream when its retractions are
  taken, such that the outputs are, once each, the pairs of them that the interval allows, though
  most records have been deleted by then. The changes give the same: the pairs inserted are those of
  the outputs and those deleted; the counts are those of the records and of the insertions.
\<close>

theorem interval_join_exact:
  assumes "scans scan" "scans scan_pairs" "left \<noteq> right" "whole lower"
    and "\<forall>i. validate_config (configs i)" "list_all (operator_request_ok whole) es" "length es < 2 ^ 64"
    and "ops = interval_joining scan scan_pairs (new_interval_join left right lower upper) configs"
    and "w = foldl (server_step ops) (new_server ops now) es" "n_operator w = Some j"
  shows "\<exists>ls \<in> set (survivals (n_logs w left)). \<exists>rs \<in> set (survivals (n_logs w right)).
      distinct (i_outputs j) \<and> set (i_outputs j) = set (join_all lower upper ls rs)
      \<and> mset (of_kind Insert (i_changes j)) = mset (i_outputs j) + mset (of_kind Delete (i_changes j))
      \<and> i_pairs_emitted j = of_nat (length (of_kind Insert (i_changes j)))
      \<and> i_left_received j = of_nat (length (n_logs w left)) \<and> i_right_received j = of_nat (length (n_logs w right))"
proof -
  have config: "m_config ops = configs" by (simp add: assms(8) interval_joining_def)
  have ok: "interval_reliable scan scan_pairs left right lower" using assms(1-4) by (simp add: interval_reliable_def)
  have j: "interval_inv (frontiers ops (state_of w)) (n_logs w) j" "statics j = ((left, right), lower, upper)"
    using interval.operator_run(1) [where scan = scan and ?scan_pairs = scan_pairs and left = left and right = right and lower = lower
      and configs = configs and upper = upper and es = es and now = now and op = j,
      folded assms(8), unfolded config, OF ok assms(5-7)] assms(9,10) by simp_all
  obtain live where live: "\<And>side. side_ok side (frontiers ops (state_of w)) (n_logs w (side_stream side j)) (live side) j"
    and out: "outputs_ok (set \<circ> live) j" using j(1) by (auto simp: interval_inv_def)
  have fields: "side_stream LeftSide j = left" "side_stream RightSide j = right" "i_lower_bound j = lower" "i_upper_bound j = upper"
    using j(2) by (simp_all add: statics_def side_stream_def)
  have "live LeftSide \<in> set (survivals (n_logs w left))" "live RightSide \<in> set (survivals (n_logs w right))"
    "i_left_received j = of_nat (length (n_logs w left))" "i_right_received j = of_nat (length (n_logs w right))"
    using live[of LeftSide] live[of RightSide] by (simp_all add: side_ok_def fields received_def)
  moreover have "pairs_of j (set \<circ> live) = set (join_all lower upper (live LeftSide) (live RightSide))"
    by (auto simp: set_join_all pairs_of_def all_sides [of _ LeftSide] on_side_def fields)
  ultimately show ?thesis using out by (auto simp: outputs_ok_def)
qed

text \<open>The values of the pairs that a run leaves, and of the records that are kept on a side.\<close>

definition pair_values :: "('i, 'v) IntervalJoin \<Rightarrow> ('v \<times> 'v) list" where
  "pair_values j = map (\<lambda>p. (r_value (h_left p), r_value (h_right p))) (i_outputs j)"

lemmas join_simps = run_simps interval_joining_def new_interval_join_def create_interval_join_def validate_interval_join_def
  refresh_interval_joins_def drop_settled_def settled_left_def settled_right_def index_interval_join_record_def
  retract_interval_join_record_def taken_back_def count_received_def set_kept_def kept_records_def opposite_def side_key_def
  pair_up_def pair_prior_def emit_interval_join_pair_def interval_contains_def pair_key_def on_side_def pair_values_def

text \<open>Left records at times \<open>8\<close> and \<open>4\<close>, right ones at \<open>9\<close> and \<open>6\<close>; the last request takes back the left one
  at \<open>8\<close>, with its pair. Each joins what came before it, the join itself created after the first.\<close>

definition two_streams :: "(bool, nat) OperatorRequest list" where
  "two_streams = [Publish False 0 (num 8) (Some [1]) 1 Insert (num 1), Deploy,
     Publish True 0 (num 9) (Some [1]) 2 Insert (num 2), Publish True 0 (num 6) (Some [1]) 3 Insert (num 3),
     Publish False 0 (num 4) (Some [1]) 4 Insert (num 4), Publish False 0 (num 8) (Some [1]) 1 Delete (num 5)]"

definition two_joined :: "(bool, nat, (bool, nat) IntervalJoin) OperatorSetup" where
  "two_joined = interval_joining (\<lambda>rs. rs) (\<lambda>ps. ps) (new_interval_join False True (num 0) (num 3)) one_stream"

lemma two_streams_run:
  "\<exists>j. n_operator (foldl (server_step two_joined) (new_server two_joined (num 0)) two_streams) = Some j
     \<and> pair_values j = [(4, 3)] \<and> map fst (i_changes j) = [Insert, Insert, Delete]"
  by (simp add: two_streams_def two_joined_def join_simps)

lemma interval_join_exact_witness:
  "\<exists>w j. w = foldl (server_step two_joined) (new_server two_joined (num 0)) two_streams \<and> n_operator w = Some j
     \<and> pair_values j = [(4, 3)]
     \<and> (\<exists>ls \<in> set (survivals (n_logs w False)). \<exists>rs \<in> set (survivals (n_logs w True)).
         set (i_outputs j) = set (join_all (num 0) (num 3) ls rs))"
proof -
  obtain j where j: "n_operator (foldl (server_step two_joined) (new_server two_joined (num 0)) two_streams) = Some j"
      "pair_values j = [(4, 3)]"
    by (rule exE [OF two_streams_run]) (elim conjE, rule that)
  have "scans (\<lambda>rs :: nat StreamRecord list. rs)" "scans (\<lambda>ps :: nat JoinedPair list. ps)" by (simp_all add: scans_def)
  moreover have "whole (num n)" if "\<bar>n\<bar> \<le> 2 ^ 50" for n using that by (auto simp: whole_def)
  then have "whole (num 0)" "list_all (operator_request_ok whole) two_streams" "length two_streams < 2 ^ 64"
    by (simp_all add: two_streams_def valid64_num)
  ultimately show ?thesis
    using interval_join_exact [where es = two_streams, OF _ _ _ _ _ _ _ two_joined_def refl j(1)] j one_stream_valid
    by (intro exI [of _ "foldl (server_step two_joined) (new_server two_joined (num 0)) two_streams"] exI [of _ j]) auto
qed

section \<open>Times in fractions\<close>

text \<open>
  Whole times are needed. A pair is found by \<open>left + lower\<close>, a right record is deleted by \<open>right - lower\<close>; in
  doubles the two differ. With a lower bound of \<open>0.3\<close>, a right record at \<open>0.6 + 0.3\<close> is deleted once the left
  stream is complete through the double below \<open>0.6\<close>, and the left record at \<open>0.6\<close> comes too late for its
  pair, although it is not late.
\<close>

definition left_time :: f64 where
  "left_time = Fin (5404319552844595 / 9007199254740992)"

definition right_time :: f64 where
  "right_time = Fin (8106479329266892 / 9007199254740992)"

definition before_left :: f64 where
  "before_left = Fin (5404319552844594 / 9007199254740992)"

definition fraction_bound :: f64 where
  "fraction_bound = Fin (5404319552844595 / 18014398509481984)"

lemmas fraction_defs = left_time_def right_time_def before_left_def fraction_bound_def

lemma fraction_sums: "fadd left_time fraction_bound = right_time" "fsub right_time fraction_bound = before_left"
  "fsub before_left (num 0) = before_left"
  using mk64_nearest [of "- 53" "16212958658533785 / 18014398509481984" 8106479329266892]
    mk64_nearest [of "- 53" "10808639105689189 / 18014398509481984" 5404319552844594]
    mk64_nearest [of "- 53" "5404319552844594 / 9007199254740992" 5404319552844594]
  by (simp_all add: fraction_defs fsub_def num_def pow2_def nearest_def)

lemma fraction_upper: "fle right_time (fadd left_time (num 1))"
proof -
  have "fle (Fin (64 / 64)) (fadd left_time (num 1))" using mk64_ge [of 64] by (simp add: left_time_def num_def)
  then show ?thesis by (cases "fadd left_time (num 1)") (auto simp: right_time_def)
qed

lemma fraction_order: "\<not> fle left_time before_left" "\<not> flt left_time before_left" "fle right_time (num 1)" "fle right_time right_time"
  "fle before_left before_left" "finite64 before_left" "finite64 left_time" "finite64 right_time" "finite64 fraction_bound"
  "\<not> flt (num 1) fraction_bound" "left_time \<noteq> NaN" "right_time \<noteq> NaN" "before_left \<noteq> NaN" "right_time \<noteq> num 1"
  by (simp_all add: fraction_defs flt_def num_def)

definition managed_stream :: "'i \<Rightarrow> StreamConfig" where
  "managed_stream i = (one_stream i)\<lparr> g_watermark_mode := SourceManaged \<rparr>"

definition fraction_joined :: "(bool, nat, (bool, nat) IntervalJoin) OperatorSetup" where
  "fraction_joined = interval_joining (\<lambda>rs. rs) (\<lambda>ps. ps) (new_interval_join False True fraction_bound (num 1)) managed_stream"

definition fraction_run :: "(bool, nat) OperatorRequest list" where
  "fraction_run = [Deploy, Publish True 0 right_time (Some [1]) 2 Insert (num 1), Announce True 0 (num 1) (num 2),
     Announce False 0 before_left (num 3), Publish False 0 left_time (Some [1]) 1 Insert (num 4)]"

lemma fractional_pair_lost:
  "\<exists>j. n_operator (foldl (server_step fraction_joined) (new_server fraction_joined (num 0)) fraction_run) = Some j
     \<and> i_left_received j = 1 \<and> i_right_received j = 1 \<and> i_outputs j = []
     \<and> interval_contains left_time right_time (i_lower_bound j) (i_upper_bound j)"
  using fraction_sums fraction_upper fraction_order
  by (simp add: fraction_run_def fraction_joined_def managed_stream_def join_simps advance_stream_def advance_watermark_def)

end
