(* ===== verification/SelfJoin.thy ===== *)
theory SelfJoin
  imports IntervalJoin
begin

text \<open>
  An interval join of a stream with itself, the first branch of \<open>index_interval_join_record\<close> in
  \<open>crates/server/src/operators.rs\<close>: a new record is paired with the kept records that arrived before it and
  have an earlier event time, and a retraction takes back the pairs of which its record is the left.

  The specification \<open>self_joined\<close> says which pairs of the log that is; unlike the join of two streams it
  depends on the order of arrival. It is proved over the server by the contract \<open>stream_operator\<close>.
\<close>

section \<open>The specification\<close>

text \<open>The left record survives the retractions; the right one is an addition of the log, taken back or not, that
  arrived later and has a later time within the bounds.\<close>

definition self_joined :: "f64 \<Rightarrow> f64 \<Rightarrow> 'v StreamRecord list \<Rightarrow> 'v StreamRecord list \<Rightarrow> 'v JoinedPair \<Rightarrow> bool" where
  "self_joined lower upper live rs p \<longleftrightarrow> h_left p \<in> set live \<and> h_right p \<in> set rs \<and> is_addition (r_kind (h_right p))
     \<and> r_sequence (h_left p) < r_sequence (h_right p) \<and> flt (r_event_time (h_left p)) (r_event_time (h_right p))
     \<and> joined lower upper p"

definition self_outputs :: "'v StreamRecord list \<Rightarrow> 'v StreamRecord list \<Rightarrow> ('i, 'v) IntervalJoin \<Rightarrow> bool" where
  "self_outputs live rs j \<longleftrightarrow> distinct (i_outputs j)
     \<and> set (i_outputs j) = Collect (self_joined (i_lower_bound j) (i_upper_bound j) live rs)
     \<and> mset (of_kind Insert (i_changes j)) = mset (i_outputs j) + mset (of_kind Delete (i_changes j))
     \<and> i_pairs_emitted j = of_nat (length (of_kind Insert (i_changes j)))
     \<and> i_left_received j = of_nat (length rs) \<and> i_right_received j = of_nat (length rs)"

definition self_inv :: "('i \<Rightarrow> f64 option) \<Rightarrow> 'v StreamRecord list \<Rightarrow> ('i, 'v) IntervalJoin \<Rightarrow> bool" where
  "self_inv F rs j \<longleftrightarrow> i_right_stream j = i_left_stream j
     \<and> (\<exists>live. side_ok LeftSide F rs live j \<and> self_outputs live rs j)"

text \<open>What is relied on of a log: the order of arrival and unique slots.\<close>

definition arrived :: "'v StreamRecord list \<Rightarrow> bool" where
  "arrived rs \<longleftrightarrow> in_sequence rs \<and> inj_on slot_of (set rs)"

lemma arrived_snoc:
  assumes "arrived (rs @ [r])"
  shows "arrived rs" "\<And>x. x \<in> set rs \<Longrightarrow> r_sequence x < r_sequence r" "\<And>x. x \<in> set rs \<Longrightarrow> slot_of x \<noteq> slot_of r"
    "distinct rs" "r \<notin> set rs"
proof -
  show "arrived rs" using assms by (auto simp: arrived_def in_sequence_def sorted_wrt_append inj_on_def)
  then show "distinct rs" using in_sequence_distinct by (auto simp: arrived_def)
  show less: "r_sequence x < r_sequence r" if "x \<in> set rs" for x
    using assms that by (auto simp: arrived_def in_sequence_def sorted_wrt_append)
  then show "r \<notin> set rs" by blast
  then show "slot_of x \<noteq> slot_of r" if "x \<in> set rs" for x
    using assms that by (auto simp: arrived_def) (metis image_eqI)
qed

lemma settled_left_not_joined:
  assumes "settled_at LeftSide F j c" "i_right_stream j = i_left_stream j" "beyond (F (i_left_stream j)) (r_event_time r)"
  shows "\<not> joined (i_lower_bound j) (i_upper_bound j) (make_pair RightSide r c)"
  using assms fle_trans by (auto simp: settled_at_def settled_left_def joined_make_pair interval_contains_def beyond_def)

section \<open>A record that arrives\<close>

lemma pair_prior_up: "foldl (pair_prior r) j cs
    = foldl (pair_up RightSide r) j (filter (\<lambda>c. flt (r_event_time c) (r_event_time r)) cs)"
  by (induction cs arbitrary: j) (auto simp: pair_prior_def pair_up_def)

lemma self_addition:
  assumes j: "side_ok LeftSide F rs live j" "self_outputs live rs j" "i_right_stream j = i_left_stream j"
    and new: "is_addition (r_kind r)" "arrived (rs @ [r])" and far: "beyond (F (i_left_stream j)) (r_event_time r)"
    and scan: "scans scan"
    and j': "j' = foldl (pair_prior r) j (scan (filter (\<lambda>c. r_key c = r_key r) (i_left j)))"
  obtains ps where "j' = emitted ps j" "distinct ps" "\<And>p. p \<in> set ps \<Longrightarrow> h_right p = r"
    "set ps = {p. h_right p = r \<and> h_left p \<in> set live \<and> flt (r_event_time (h_left p)) (r_event_time r)
      \<and> joined (i_lower_bound j) (i_upper_bound j) p}"
proof -
  let ?joined = "joined (i_lower_bound j) (i_upper_bound j)"
  define cs where "cs = filter (\<lambda>c. flt (r_event_time c) (r_event_time r)) (scan (filter (\<lambda>c. r_key c = r_key r) (i_left j)))"
  define ps where "ps = filter ?joined (map (make_pair RightSide r) cs)"
  note old = arrived_snoc [OF new(2)]
  have live: "set live \<subseteq> set rs" "set (i_left j) \<subseteq> set live" "distinct (i_left j)"
    using j(1) survivals_sub [of live rs] old(4) by (auto simp: side_ok_def kept_records_def)
  have cs: "set cs = {c \<in> set (i_left j). r_key c = r_key r \<and> flt (r_event_time c) (r_event_time r)}" "distinct cs"
  proof -
    show "set cs = {c \<in> set (i_left j). r_key c = r_key r \<and> flt (r_event_time c) (r_event_time r)}"
      using set_scans [OF scan] by (auto simp: cs_def)
    have "distinct (scan (filter (\<lambda>c. r_key c = r_key r) (i_left j)))"
      using scan live(3) unfolding scans_def by (metis distinct_filter mset_eq_imp_distinct_iff)
    then show "distinct cs" by (simp add: cs_def)
  qed
  have "h_right p \<in> set rs" if "p \<in> set (i_outputs j)" for p using j(2) that by (auto simp: self_outputs_def self_joined_def)
  then have apart: "pair_key p \<noteq> pair_key (make_pair RightSide r c)" if "p \<in> set (i_outputs j)" for p c
    using old(3) that by (auto simp: pair_key_iff all_sides [of _ RightSide] on_side_def make_pair_def)
  have "inj_on slot_of (set rs)" using old(1) by (simp add: arrived_def)
  then have "inj_on slot_of (set cs)" by (rule inj_on_subset) (use live cs(1) in auto)
  then have "foldl (pair_up RightSide r) j cs = emitted ps j"
    unfolding ps_def using apart cs by (intro pair_up_all) auto
  then have fold: "j' = emitted ps j" unfolding j' pair_prior_up cs_def .
  have kept: "c \<in> set (i_left j)" if "c \<in> set live" "?joined (make_pair RightSide r c)" for c
    using settled_left_not_joined [where F = F, OF _ j(3) far] j(1) that by (auto simp: side_ok_def kept_records_def)
  have set_ps: "set ps = {p. h_right p = r \<and> h_left p \<in> set live \<and> flt (r_event_time (h_left p)) (r_event_time r) \<and> ?joined p}"
  proof (intro set_eqI iffI)
    fix p assume "p \<in> {p. h_right p = r \<and> h_left p \<in> set live \<and> flt (r_event_time (h_left p)) (r_event_time r) \<and> ?joined p}"
    then have p: "h_right p = r" "h_left p \<in> set live" "flt (r_event_time (h_left p)) (r_event_time r)" "?joined p" by auto
    then have "p = make_pair RightSide r (h_left p)" "r_key (h_left p) = r_key r" by (simp_all add: make_pair_def joined_def)
    with p kept [of "h_left p"] show "p \<in> set ps" using cs(1) by (auto simp: ps_def)
  qed (use cs(1) live(2) in \<open>auto simp: ps_def make_pair_def\<close>)
  have "inj_on (make_pair RightSide r) (set cs)" by (rule inj_onI) (simp add: make_pair_def)
  then have "distinct ps" using cs(2) by (simp add: ps_def distinct_map)
  then show thesis using fold set_ps by (intro that [of ps]) auto
qed

lemma self_addition_inv:
  assumes j: "side_ok LeftSide F rs live j" "self_outputs live rs j" "i_right_stream j = i_left_stream j"
    and new: "is_addition (r_kind r)" "arrived (rs @ [r])" and far: "beyond (F (i_left_stream j)) (r_event_time r)"
    and scan: "scans scan" and m: "m = foldl (pair_prior r) j (scan (filter (\<lambda>c. r_key c = r_key r) (i_left j)))"
  shows "self_inv F (rs @ [r]) (count_received RightSide (count_received LeftSide
    (set_kept LeftSide (put_by side_key r (kept_records LeftSide m)) m)))"
proof -
  obtain ps where ps: "m = emitted ps j" "distinct ps" "\<And>p. p \<in> set ps \<Longrightarrow> h_right p = r"
    "set ps = {p. h_right p = r \<and> h_left p \<in> set live \<and> flt (r_event_time (h_left p)) (r_event_time r)
      \<and> joined (i_lower_bound j) (i_upper_bound j) p}"
    by (rule self_addition [OF j new far scan m]) blast
  note old = arrived_snoc [OF new(2)]
  have live: "set live \<subseteq> set rs" "set (i_left j) \<subseteq> set live" "distinct (i_left j)"
    using j(1) survivals_sub [of live rs] old(4) by (auto simp: side_ok_def kept_records_def)
  have kept: "put_by side_key r (kept_records LeftSide j) = i_left j @ [r]"
  proof -
    have "slot_of x \<noteq> slot_of r" if "x \<in> set (i_left j)" for x using old(3) live that by blast
    then show ?thesis by (auto simp: put_by_def side_key_def kept_records_def filter_id_conv)
  qed
  let ?j = "count_received RightSide (count_received LeftSide (set_kept LeftSide (i_left j @ [r]) (emitted ps j)))"
  have same: "statics ?j = statics j" by simp
  have fields: "i_lower_bound ?j = i_lower_bound j" "i_upper_bound ?j = i_upper_bound j" "i_right_stream ?j = i_left_stream ?j"
    using same j(3) by (auto simp: statics_def)
  have outputs: "set (i_outputs j) = Collect (self_joined (i_lower_bound j) (i_upper_bound j) live rs)"
    using j(2) by (simp add: self_outputs_def)
  have "Collect (self_joined (i_lower_bound j) (i_upper_bound j) (live @ [r]) (rs @ [r])) = set (i_outputs j) \<union> set ps"
  proof (intro set_eqI iffI)
    fix p assume "p \<in> Collect (self_joined (i_lower_bound j) (i_upper_bound j) (live @ [r]) (rs @ [r]))"
    then have p: "h_left p \<in> set live \<or> h_left p = r" "h_right p \<in> set rs \<or> h_right p = r" "is_addition (r_kind (h_right p))"
      "r_sequence (h_left p) < r_sequence (h_right p)" "flt (r_event_time (h_left p)) (r_event_time (h_right p))"
      "joined (i_lower_bound j) (i_upper_bound j) p" by (auto simp: self_joined_def)
    have "h_left p \<in> set live" using p(1,2,4) old(2) [of "h_right p"] by (metis order.asym order.irrefl)
    with p show "p \<in> set (i_outputs j) \<union> set ps" unfolding outputs ps(4) by (auto simp: self_joined_def)
  next
    fix p assume "p \<in> set (i_outputs j) \<union> set ps"
    then show "p \<in> Collect (self_joined (i_lower_bound j) (i_upper_bound j) (live @ [r]) (rs @ [r]))"
      unfolding outputs ps(4) using new(1) old(2) live(1) by (auto simp: self_joined_def)
  qed
  moreover have "set (i_outputs j) \<inter> set ps = {}"
    using ps(3) old(5) unfolding outputs by (auto simp: self_joined_def)
  ultimately have "self_outputs (live @ [r]) (rs @ [r]) ?j"
    using j(2) ps(2) unfolding self_outputs_def fields(1,2)
    by (simp add: emitted_def count_received_def set_kept_def)
  moreover have "side_ok LeftSide F (rs @ [r]) (live @ [r]) ?j"
  proof -
    have "kept_records LeftSide ?j = kept_records LeftSide j @ [r]" "received LeftSide ?j = received LeftSide j + 1"
      by (simp, simp add: kept_records_def) simp
    with j(1) new(1) old(5) live show ?thesis
      by (auto simp: side_ok_def statics_same(1) [OF same] survive_def kept_records_def [of LeftSide j])
  qed
  ultimately show ?thesis using fields(3) unfolding self_inv_def ps(1) by (auto simp: kept)
qed

lemma self_retraction_inv:
  assumes j: "side_ok LeftSide F rs live j" "self_outputs live rs j" "i_right_stream j = i_left_stream j"
    and new: "\<not> is_addition (r_kind r)" "arrived (rs @ [r])" and far: "beyond (F (i_left_stream j)) (r_event_time r)"
    and scan: "scans scan" "scans scan_pairs"
  shows "self_inv F (rs @ [r]) (count_received RightSide (count_received LeftSide (retract_interval_join_record scan scan_pairs LeftSide r j)))"
    (is "self_inv F _ (count_received _ (count_received _ ?j))")
proof -
  note old = arrived_snoc [OF new(2)]
  have live: "set live \<subseteq> set rs" "distinct live" "set (kept_records LeftSide j) \<subseteq> set live"
    using j(1) survivals_sub [of live rs] old(4) by (auto simp: side_ok_def)
  have outputs: "set (i_outputs j) = Collect (self_joined (i_lower_bound j) (i_upper_bound j) live rs)"
    using j(2) by (simp add: self_outputs_def)
  then have on: "on_side LeftSide p \<in> set live" if "p \<in> set (i_outputs j)" for p
    using that by (simp add: self_joined_def on_side_def)
  have settled: "\<not> taken_back r c" if "c \<in> set live" "c \<notin> set (kept_records LeftSide j)" for c
    using settled_not_taken_back [of LeftSide F j c r] far j(1) that by (auto simp: side_ok_def side_stream_def)
  have slots: "inj_on slot_of (set rs)" using old(1) by (simp add: arrived_def)
  obtain l where l: "l \<in> set (survive r live)" "set l \<subseteq> set live"
    and j': "statics ?j = statics j" "\<And>s. received s ?j = received s j"
      "\<And>s. kept_records s ?j = (if s = LeftSide then filter (\<lambda>x. x \<in> set l) (kept_records LeftSide j) else kept_records s j)"
    and o': "i_outputs ?j = filter (\<lambda>p. on_side LeftSide p \<in> set l) (i_outputs j)" "i_pairs_emitted ?j = i_pairs_emitted j"
      "of_kind Insert (i_changes ?j) = of_kind Insert (i_changes j)"
      "mset (of_kind Delete (i_changes ?j)) + mset (i_outputs ?j) = mset (of_kind Delete (i_changes j)) + mset (i_outputs j)"
    using retract_effect [OF slots live on settled new(1) scan refl] by blast
  let ?c = "count_received RightSide (count_received LeftSide ?j)"
  have same: "statics ?c = statics j" using j'(1) by simp
  have fields: "i_lower_bound ?c = i_lower_bound j" "i_upper_bound ?c = i_upper_bound j" "i_right_stream ?c = i_left_stream ?c"
    using same j(3) by (auto simp: statics_def)
  have "set (i_outputs ?c) = Collect (self_joined (i_lower_bound j) (i_upper_bound j) l (rs @ [r]))"
    using l(2) new(1) by (auto simp: o'(1) outputs self_joined_def on_side_def)
  moreover have "mset (of_kind Insert (i_changes j)) = mset (i_outputs ?j) + mset (of_kind Delete (i_changes ?j))"
    unfolding add.commute [of "mset (i_outputs ?j)"] o'(4) using j(2) by (simp add: self_outputs_def add.commute)
  moreover have "distinct (i_outputs ?j)" using j(2) unfolding o'(1) by (simp add: self_outputs_def)
  moreover have "received LeftSide ?c = of_nat (length (rs @ [r]))" "received RightSide ?c = of_nat (length (rs @ [r]))"
    using j(2) j'(2) by (simp_all add: self_outputs_def) (simp_all add: received_def)
  moreover have "i_pairs_emitted ?j = of_nat (length (of_kind Insert (i_changes ?j)))"
    unfolding o'(2,3) using j(2) by (simp add: self_outputs_def)
  ultimately have "self_outputs l (rs @ [r]) ?c"
    unfolding self_outputs_def fields(1,2) by (simp add: o'(3) received_def)
  moreover have "side_ok LeftSide F (rs @ [r]) l ?c"
    using j(1) l by (auto simp: side_ok_def statics_same(1) [OF same] j'(2,3))
  ultimately show ?thesis using fields(3) unfolding self_inv_def by blast
qed

section \<open>The contract\<close>

lemma self_index_inv:
  assumes j: "self_inv F rs j" and i: "i = i_left_stream j" and run: "index_interval_join_record scan scan_pairs i r j = Some j'"
    and new: "arrived (rs @ [r])" and far: "beyond (F i) (r_event_time r)" and scan: "scans scan" "scans scan_pairs"
  shows "self_inv F (rs @ [r]) j' \<and> statics j' = statics j"
proof -
  have streams: "i_right_stream j = i_left_stream j" using j by (simp add: self_inv_def)
  obtain live where live: "side_ok LeftSide F rs live j" "self_outputs live rs j" using j by (auto simp: self_inv_def)
  define m where "m = foldl (pair_prior r) j (scan (filter (\<lambda>c. r_key c = r_key r) (i_left j)))"
  have j': "j' = count_received RightSide (count_received LeftSide (if \<not> is_addition (r_kind r)
      then retract_interval_join_record scan scan_pairs LeftSide r j
      else set_kept LeftSide (put_by side_key r (kept_records LeftSide m)) m))"
    using run streams i by (auto simp: index_interval_join_record_def Let_def m_def split: if_splits)
  have m: "statics m = statics j" by (simp add: m_def pair_prior_up)
  show ?thesis
    using self_addition_inv [OF live streams _ new far[unfolded i] scan(1) m_def]
      self_retraction_inv [OF live streams _ new far[unfolded i] scan]
    by (simp add: j' m)
qed

lemma self_drop_inv:
  assumes j: "self_inv F rs j" and F: "moved F F'"
  shows "self_inv F' rs (drop_settled (F' (i_left_stream j)) (F' (i_right_stream j)) j)" (is "self_inv F' rs ?j")
proof -
  obtain live where live: "side_ok LeftSide F rs live j" "self_outputs live rs j" and streams: "i_right_stream j = i_left_stream j"
    using j by (auto simp: self_inv_def)
  have same: "statics ?j = statics j" "i_outputs ?j = i_outputs j" "i_changes ?j = i_changes j" "i_right_stream ?j = i_left_stream ?j"
    "i_pairs_emitted ?j = i_pairs_emitted j" "i_left_received ?j = i_left_received j" "i_right_received ?j = i_right_received j"
    using streams by (auto simp: drop_settled_def statics_def split: option.splits)
  have kept: "kept_records LeftSide ?j = filter (\<lambda>r. \<not> settled_at LeftSide F' j r) (kept_records LeftSide j)"
    "received LeftSide ?j = received LeftSide j"
    by (auto simp: drop_settled_def settled_at_def kept_records_def received_def split: option.splits)
  have "side_ok LeftSide F' rs live ?j"
    using live(1) settled_later [OF _ F, of LeftSide j _ j] by (auto simp: side_ok_def kept statics_same(1) [OF same(1)])
  moreover have "self_outputs live rs ?j"
    using live(2) by (simp add: self_outputs_def same statics_same(4,5) [OF same(1)])
  ultimately show ?thesis using same(4) by (auto simp: self_inv_def)
qed

lemma self_index_all:
  assumes "self_inv (\<lambda>i. None) rs j" "i = i_left_stream j" "index_interval_join_records scan scan_pairs (map (Pair i) new) j = Some j'"
    "arrived (rs @ new)" "scans scan" "scans scan_pairs"
  shows "self_inv (\<lambda>i. None) (rs @ new) j' \<and> statics j' = statics j"
  using assms(1-4)
proof (induction new arbitrary: j rs)
  case (Cons r new)
  obtain m where m: "index_interval_join_record scan scan_pairs i r j = Some m"
      "index_interval_join_records scan scan_pairs (map (Pair i) new) m = Some j'"
    using Cons.prems(3) by (auto simp: Option.bind_eq_Some_conv)
  have "arrived (rs @ [r])" using Cons.prems(4) by (auto simp: arrived_def in_sequence_def sorted_wrt_append inj_on_def)
  then have step: "self_inv (\<lambda>i. None) (rs @ [r]) m" "statics m = statics j"
    using self_index_inv [OF Cons.prems(1,2) m(1) _ _ assms(5,6)] by (auto simp: beyond_def)
  then have "self_inv (\<lambda>i. None) ((rs @ [r]) @ new) j' \<and> statics j' = statics m"
    using Cons.prems(2,4) m(2) by (intro Cons.IH) (auto simp: statics_def)
  with step(2) show ?case by simp
qed simp

definition self_reliable :: "('v StreamRecord list \<Rightarrow> 'v StreamRecord list)
    \<Rightarrow> ('v JoinedPair list \<Rightarrow> 'v JoinedPair list) \<Rightarrow> bool" where
  "self_reliable scan scan_pairs \<longleftrightarrow> scans scan \<and> scans scan_pairs"

lemma logs_arrived: "logs_ok P logs \<Longrightarrow> arrived (logs i)"
  by (simp add: logs_ok_def arrived_def)

interpretation selfjoin: stream_operator "interval_joining scan scan_pairs (new_interval_join i i lower upper) configs"
  "self_reliable scan scan_pairs" "\<lambda>_. True" "\<lambda>F logs j. self_inv F (logs i) j \<and> statics j = ((i, i), lower, upper)"
  for scan :: "'v StreamRecord list \<Rightarrow> 'v StreamRecord list" and scan_pairs and i :: 'i and lower upper configs
proof unfold_locales
  let ?new = "new_interval_join i i lower upper"
  fix logs and op :: "('i, 'v) IntervalJoin"
  assume ok: "self_reliable scan scan_pairs" and logs: "logs_ok (\<lambda>_. True) logs"
    and run: "m_create (interval_joining scan scan_pairs ?new configs) logs = Some op"
  have scans: "scans scan" "scans scan_pairs" using ok by (simp_all add: self_reliable_def)
  have "sort_key r_sequence (scan (logs i)) = logs i"
    using logs scans(1) by (intro in_sequence_sort) (simp_all add: logs_ok_def scans_def)
  then have all: "index_interval_join_records scan scan_pairs (map (Pair i) (logs i)) ?new = Some op"
    using run by (auto simp: interval_joining_def create_interval_join_def new_interval_join_def Let_def split: if_splits)
  have new: "self_inv (\<lambda>i. None) [] ?new" "i = i_left_stream ?new" "statics ?new = ((i, i), lower, upper)"
    by (auto simp: self_inv_def side_ok_def self_outputs_def self_joined_def new_interval_join_def kept_records_def received_def statics_def)
  show "self_inv (\<lambda>i. None) (logs i) op \<and> statics op = ((i, i), lower, upper)"
    using self_index_all [OF new(1,2) all _ scans] logs_arrived [OF logs, of i] new(3) by simp
next
  fix F logs and op op' :: "('i, 'v) IntervalJoin" and logs' states entry
  let ?ops = "interval_joining scan scan_pairs (new_interval_join i i lower upper) configs"
  let ?F = "frontiers ?ops states"
  assume ok: "self_reliable scan scan_pairs" and inv: "self_inv F (logs i) op \<and> statics op = ((i, i), lower, upper)"
    and logs': "logs_ok (\<lambda>_. True) logs'" and F: "moved F ?F" and e: "entered (m_inputs ?ops) F logs entry logs'"
    and run: "m_refresh ?ops states entry op = Some op'"
  have scans: "scans scan" "scans scan_pairs" using ok by (simp_all add: self_reliable_def)
  have streams: "i_left_stream op = i" "i_right_stream op = i" using inv by (simp_all add: statics_def)
  obtain mid where mid: "(case entry of None \<Rightarrow> Some op | Some (k, r) \<Rightarrow>
      if k = i_left_stream op \<or> k = i_right_stream op then index_interval_join_record scan scan_pairs k r op else Some op) = Some mid"
    and op': "op' = drop_settled (completeness_frontier (configs (i_left_stream mid)) (states (i_left_stream mid)))
      (completeness_frontier (configs (i_right_stream mid)) (states (i_right_stream mid))) mid"
    using run by (auto simp: interval_joining_def refresh_interval_joins_def)
  have "self_inv F (logs' i) mid \<and> statics mid = ((i, i), lower, upper)"
  proof (cases "\<exists>r. entry = Some (i, r)")
    case True
    then obtain r where r: "entry = Some (i, r)" by blast
    then have "logs' i = logs i @ [r]" "beyond (F i) (r_event_time r)" using e by (simp_all add: entered_def interval_joining_def new_interval_join_def)
    moreover have "index_interval_join_record scan scan_pairs i r op = Some mid" using mid r streams by simp
    ultimately show ?thesis
      using self_index_inv [OF _ streams(1) [symmetric] _ _ _ scans, of F "logs i" r mid] inv logs_arrived [OF logs', of i] by simp
  next
    case False
    then have "mid = op" "logs' i = logs i" using mid e streams by (auto simp: entered_def split: option.splits if_splits)
    with inv show ?thesis by simp
  qed
  moreover from this have "op' = drop_settled (?F (i_left_stream mid)) (?F (i_right_stream mid)) mid"
    by (simp add: op' frontiers_def interval_joining_def)
  ultimately show "self_inv ?F (logs' i) op' \<and> statics op' = ((i, i), lower, upper)"
    using self_drop_inv [OF _ F, of "logs' i" mid] by (auto simp: drop_settled_def statics_def split: option.splits)
qed

section \<open>Properties\<close>

text \<open>
  C32. A stream joined with itself gives the pairs that its order of arrival allows. Over any requests, accepted or
  refused (fewer than \<open>2 ^ 64\<close>), with the join created at any time, for any times and bounds: there are
  records left of the stream when its retractions are taken, such that the outputs are, once each, the
  pairs whose left record is one of those and whose right one is any record of the stream, taken back
  or not, that arrived after the left one with a later event time within the bounds; so a record that comes
  after one with a later event time is never paired with it, and retracting the right record of a pair leaves the
  pair. The pairs inserted are those of the outputs and those deleted, and every record counts for both sides.
\<close>

theorem self_join_exact:
  assumes "scans scan" "scans scan_pairs"
    and "\<forall>i. validate_config (configs i)" "list_all (operator_request_ok (\<lambda>_. True)) es" "length es < 2 ^ 64"
    and "ops = interval_joining scan scan_pairs (new_interval_join i i lower upper) configs"
    and "w = foldl (server_step ops) (new_server ops now) es" "n_operator w = Some j"
  shows "\<exists>live \<in> set (survivals (n_logs w i)).
      distinct (i_outputs j)
      \<and> set (i_outputs j) = {p. h_left p \<in> set live \<and> h_right p \<in> set (n_logs w i) \<and> is_addition (r_kind (h_right p))
          \<and> r_sequence (h_left p) < r_sequence (h_right p) \<and> flt (r_event_time (h_left p)) (r_event_time (h_right p))
          \<and> joined lower upper p}
      \<and> mset (of_kind Insert (i_changes j)) = mset (i_outputs j) + mset (of_kind Delete (i_changes j))
      \<and> i_pairs_emitted j = of_nat (length (of_kind Insert (i_changes j)))
      \<and> i_left_received j = of_nat (length (n_logs w i)) \<and> i_right_received j = of_nat (length (n_logs w i))"
proof -
  have config: "m_config ops = configs" by (simp add: assms(6) interval_joining_def)
  have ok: "self_reliable scan scan_pairs" using assms(1,2) by (simp add: self_reliable_def)
  have j: "self_inv (frontiers ops (state_of w)) (n_logs w i) j" "statics j = ((i, i), lower, upper)"
    using selfjoin.operator_run(1) [where scan = scan and ?scan_pairs = scan_pairs and i = i and lower = lower
      and configs = configs and upper = upper and es = es and now = now and op = j,
      folded assms(6), unfolded config, OF ok assms(3-5)] assms(7,8) by simp_all
  then show ?thesis by (auto simp: self_inv_def side_ok_def self_outputs_def self_joined_def statics_def)
qed

section \<open>Examples\<close>

definition self_joining :: "(unit, nat, (unit, nat) IntervalJoin) OperatorSetup" where
  "self_joining = interval_joining (\<lambda>rs. rs) (\<lambda>ps. ps) (new_interval_join () () (num 0) (num 10)) one_stream"

definition self_publish :: "int \<Rightarrow> nat \<Rightarrow> ChangeKind \<Rightarrow> (unit, nat) OperatorRequest" where
  "self_publish t val kind = Publish () 0 (num t) (Some [1]) val kind (num 0)"

definition self_join_run :: "(unit, nat) OperatorRequest list \<Rightarrow> (nat \<times> nat) list" where
  "self_join_run es = (case n_operator (foldl (server_step self_joining) (new_server self_joining (num 0)) (Deploy # es)) of
     None \<Rightarrow> [] | Some j \<Rightarrow> pair_values j)"

text \<open>
  Records at times \<open>3\<close> and \<open>5\<close> within the disorder that the stream admits are a pair when they come in
  order, and none when the later comes first; after the one at \<open>5\<close> is retracted its pair is still
  there, while the retraction of the one at \<open>3\<close> takes it back.
\<close>

lemma self_join_depends_on_arrival:
  "self_join_run [self_publish 3 1 Insert, self_publish 5 2 Insert] = [(1, 2)]
   \<and> self_join_run [self_publish 5 2 Insert, self_publish 3 1 Insert] = []
   \<and> self_join_run [self_publish 3 1 Insert, self_publish 5 2 Insert, self_publish 5 2 Delete] = [(1, 2)]
   \<and> self_join_run [self_publish 3 1 Insert, self_publish 5 2 Insert, self_publish 3 1 Delete] = []"
  by (simp add: self_join_run_def self_publish_def self_joining_def join_simps)

definition kept_pair :: "(unit, nat) OperatorRequest list" where
  "kept_pair = [Deploy, self_publish 3 1 Insert, self_publish 5 2 Insert, self_publish 5 2 Delete]"

lemma kept_pair_run:
  "\<exists>j. n_operator (foldl (server_step self_joining) (new_server self_joining (num 0)) kept_pair) = Some j \<and> pair_values j = [(1, 2)]"
  by (simp add: kept_pair_def self_publish_def self_joining_def join_simps)

lemma self_join_exact_witness:
  "\<exists>w j. w = foldl (server_step self_joining) (new_server self_joining (num 0)) kept_pair \<and> n_operator w = Some j
     \<and> pair_values j = [(1, 2)] \<and> i_left_received j = of_nat (length (n_logs w ()))
     \<and> (\<forall>p \<in> set (i_outputs j). r_sequence (h_left p) < r_sequence (h_right p))"
proof -
  obtain j where j: "n_operator (foldl (server_step self_joining) (new_server self_joining (num 0)) kept_pair) = Some j"
      "pair_values j = [(1, 2)]"
    by (rule exE [OF kept_pair_run]) (elim conjE, rule that)
  have "scans (\<lambda>rs :: nat StreamRecord list. rs)" "scans (\<lambda>ps :: nat JoinedPair list. ps)" by (simp_all add: scans_def)
  moreover have "list_all (operator_request_ok (\<lambda>_. True)) kept_pair" "length kept_pair < 2 ^ 64"
    by (simp_all add: kept_pair_def self_publish_def valid64_num)
  moreover have "\<forall>i :: unit. validate_config (one_stream i)" using one_stream_valid by blast
  ultimately show ?thesis
    using self_join_exact [where es = kept_pair, OF _ _ _ _ _ self_joining_def refl j(1)] j
    by (intro exI [of _ "foldl (server_step self_joining) (new_server self_joining (num 0)) kept_pair"] exI [of _ j]) auto
qed

end
