(* ===== verification/SourceIngest.thy ===== *)
theory SourceIngest
  imports StreamServer JsText
begin

text \<open>
  How records come into a stream: \<open>append_stream_record_transaction\<close>, \<open>append_stream_record\<close>,
  \<open>append_stream_records\<close>, \<open>record_stream_batch\<close> and \<open>claim_source\<close> of \<open>crates/server/src/stream_api.rs\<close>,
  \<open>claim_source_partition\<close> of \<open>keyspace.rs\<close>, and what \<open>process.rs\<close> deletes when a process that discards its
  input has completed a record. A request carries an event identifier or its place in a
  source (or both); what was taken in under an identifier is answered from what is stored, a source's
  offsets are taken in turn, and a lease with an epoch fences off a writer that has been replaced.

  The specification is the history of a source: the records at its offsets \<open>0, 1, \<dots>\<close>, each once, in
  order. The log is proved to hold it whatever the clients retry, reorder or batch, less what was discarded;
  a duplicate identifier is shown to stop a source until the record that holds it is discarded.
\<close>

section \<open>What is stored\<close>

record 'v IngestRecord =
  ir_record :: "'v StreamRecord"
  ir_event_id :: "jsstr option"
  ir_source :: "(jsstr \<times> nat \<times> 64 word) option"
  ir_late :: bool
  ir_too_late :: bool

record SourceCursor =
  cursor_next_offset :: "64 word"
  cursor_checkpoint :: "jsstr option"

record SourceLease =
  lease_source :: jsstr
  lease_epoch :: "64 word"
  lease_expires :: f64

record StreamBatchCommit =
  batch_first_sequence :: "64 word"
  batch_last_sequence :: "64 word"
  batch_records :: "64 word"

text \<open>What is stored of a stream: cursors by source and its partition, leases by partition of the stream.\<close>

record 'v Ingest =
  u_stream :: stream
  u_log :: "'v IngestRecord list"
  u_late :: "'v IngestRecord list"
  u_ids :: "jsstr \<rightharpoonup> 'v IngestRecord"
  u_cursors :: "jsstr \<times> nat \<rightharpoonup> SourceCursor"
  u_leases :: "nat \<rightharpoonup> SourceLease"
  u_sequence :: "64 word"
  u_batches :: "StreamBatchCommit list"

record 'v AppendRequest =
  a_partition :: nat
  a_event_time :: f64
  a_key :: "jsstr option"
  a_value :: 'v
  a_kind :: ChangeKind
  a_event_id :: "jsstr option"
  a_source_id :: "jsstr option"
  a_source_partition :: "nat option"
  a_source_offset :: "64 word option"
  a_source_epoch :: "64 word option"
  a_source_checkpoint :: "jsstr option"

text \<open>What a transaction finds outside the stream: the clock, whether the node owns the key group of the
  record, whether the processes that read the stream have room, and whether what depends on the stream
  accepts the record; any of them may fail the transaction.\<close>

record Surroundings =
  e_now :: f64
  e_owned :: bool
  e_room :: bool
  e_downstream :: bool
  e_lease_seconds :: f64

datatype IngestError = OutsidePartitions | NotOwned | IncompleteSource | BadCheckpoint
  | OwnedBy jsstr "64 word" | LeaseFenced | EmptyEventId | ChangedContents | ExpectedOffset "64 word"
  | NoRoom | Refused refusal | OffsetOverflow | DownstreamFailed | BadBatch | BadLease

section \<open>Operations\<close>

text \<open>\<open>str::trim\<close> leaves nothing: white space of Unicode.\<close>

definition rust_blank :: "jsstr \<Rightarrow> bool" where
  "rust_blank s \<longleftrightarrow> list_all (\<lambda>u. (9 \<le> u \<and> u \<le> 13) \<or> u = 32 \<or> u = 0x85 \<or> u = 0xA0 \<or> u = 0x1680
     \<or> (0x2000 \<le> u \<and> u \<le> 0x200A) \<or> u = 0x2028 \<or> u = 0x2029 \<or> u = 0x202F \<or> u = 0x205F \<or> u = 0x3000) s"

definition rust_len :: "jsstr \<Rightarrow> nat" where
  "rust_len s = length (concat (map utf8 (usv s)))"

definition and_then :: "'e + 'a \<Rightarrow> ('a \<Rightarrow> 'e + 'b) \<Rightarrow> 'e + 'b" where
  "and_then x f = (case x of Inl e \<Rightarrow> Inl e | Inr a \<Rightarrow> f a)"

definition ensure :: "bool \<Rightarrow> 'e \<Rightarrow> 'e + unit" where
  "ensure c e = (if c then Inr () else Inl e)"

definition source_of :: "'v AppendRequest \<Rightarrow> IngestError + (jsstr \<times> nat \<times> 64 word) option" where
  "source_of req = (case (a_source_id req, a_source_partition req, a_source_offset req) of
     (None, None, None) \<Rightarrow> Inr None
   | (Some source_id, Some part, Some offset) \<Rightarrow>
       if \<not> rust_blank source_id then Inr (Some (source_id, part, offset)) else Inl IncompleteSource
   | _ \<Rightarrow> Inl IncompleteSource)"

definition claim_source_partition :: "nat \<Rightarrow> jsstr \<Rightarrow> 64 word option \<Rightarrow> f64 \<Rightarrow> f64 \<Rightarrow> (nat \<rightharpoonup> SourceLease)
    \<Rightarrow> IngestError + (nat \<rightharpoonup> SourceLease)" where
  "claim_source_partition part source_id expected lease_seconds now leases =
     (let lease = (case leases part of
            None \<Rightarrow> \<lparr> lease_source = source_id, lease_epoch = 1, lease_expires = fadd now lease_seconds \<rparr>
          | Some lease \<Rightarrow> lease);
          expired = fle (lease_expires lease) now;
          keep = (\<lambda>lease. Inr (leases(part \<mapsto> lease\<lparr> lease_expires := rs_max (lease_expires lease) (fadd now lease_seconds) \<rparr>)))
      in if flt now (lease_expires lease) \<and> lease_source lease \<noteq> source_id
         then Inl (OwnedBy (lease_source lease) (lease_epoch lease))
         else case expected of
             Some epoch \<Rightarrow> if lease_source lease \<noteq> source_id \<or> lease_epoch lease \<noteq> epoch \<or> expired
                            then Inl LeaseFenced else keep lease
           | None \<Rightarrow> if expired \<or> lease_source lease \<noteq> source_id
                      then keep (lease\<lparr> lease_source := source_id, lease_epoch := lease_epoch lease + 1 \<rparr>) else keep lease)"

text \<open>\<open>format!("source:{source_id}:{partition}:{offset}")\<close>\<close>

definition source_event_id :: "jsstr \<times> nat \<times> 64 word \<Rightarrow> jsstr" where
  "source_event_id = (\<lambda>(source_id, part, offset).
     lit ''source:'' @ source_id @ lit '':'' @ dec (int part) @ lit '':'' @ dec (uint offset))"

definition effective_event_id :: "'v AppendRequest \<Rightarrow> (jsstr \<times> nat \<times> 64 word) option \<Rightarrow> jsstr option" where
  "effective_event_id req source = (case a_event_id req of Some x \<Rightarrow> Some x | None \<Rightarrow> map_option source_event_id source)"

definition same_contents :: "'v AppendRequest \<Rightarrow> 'v StreamRecord \<Rightarrow> bool" where
  "same_contents req r \<longleftrightarrow> r_partition r = a_partition req \<and> feq (r_event_time r) (a_event_time req)
     \<and> r_key r = a_key req \<and> r_value r = a_value req \<and> r_kind r = a_kind req"

definition next_source_offset :: "'v Ingest \<Rightarrow> jsstr \<Rightarrow> nat \<Rightarrow> 64 word" where
  "next_source_offset w source_id part =
     (case u_cursors w (source_id, part) of None \<Rightarrow> 0 | Some c \<Rightarrow> cursor_next_offset c)"

text \<open>The lease that a record from a source takes or renews.\<close>

definition claim_for :: "Surroundings \<Rightarrow> 'v AppendRequest \<Rightarrow> (jsstr \<times> nat \<times> 64 word) option \<Rightarrow> 'v Ingest
    \<Rightarrow> IngestError + 'v Ingest" where
  "claim_for env req source w = (case source of None \<Rightarrow> Inr w
   | Some (source_id, _) \<Rightarrow> and_then
       (claim_source_partition (a_partition req) source_id (a_source_epoch req) (e_lease_seconds env) (e_now env) (u_leases w))
       (\<lambda>leases. Inr (w\<lparr> u_leases := leases \<rparr>)))"

text \<open>The rest of \<open>append_stream_record_transaction\<close>: a record that has not been taken in before. The
  disposition of a duplicate is \<open>None\<close>.\<close>

definition take_in :: "StreamConfig \<Rightarrow> Surroundings \<Rightarrow> 'v AppendRequest \<Rightarrow> (jsstr \<times> nat \<times> 64 word) option
    \<Rightarrow> jsstr option \<Rightarrow> 'v Ingest \<Rightarrow> IngestError + (Disposition option \<times> 'v IngestRecord) \<times> 'v Ingest" where
  "take_in config env req source event_id w =
     and_then (case source of None \<Rightarrow> Inr () | Some (source_id, part, offset) \<Rightarrow>
         ensure (offset = next_source_offset w source_id part) (ExpectedOffset (next_source_offset w source_id part))) (\<lambda>_.
     and_then (ensure (e_room env) NoRoom) (\<lambda>_.
     case append_record config (a_partition req) (a_event_time req) (e_now env) (u_stream w) of
       Inl reason \<Rightarrow> Inl (Refused reason)
     | Inr (d, st) \<Rightarrow>
         let seq = u_sequence w + 1;
             late = is_late (fst (u_stream w)) (a_event_time req);
             too_late = is_too_late (fst (u_stream w)) (a_event_time req) (g_allowed_lateness config);
             r = \<lparr> ir_record = \<lparr> r_partition = a_partition req, r_offset = q_next_offset (snd (u_stream w) ! a_partition req),
                     r_sequence = seq, r_event_time = a_event_time req, r_key = a_key req, r_value = a_value req,
                     r_kind = a_kind req \<rparr>,
                   ir_event_id = event_id, ir_source = source, ir_late = late, ir_too_late = too_late \<rparr>;
             w = w\<lparr> u_stream := st, u_sequence := seq,
                     u_log := (if taken d then put_by (\<lambda>r. slot_of (ir_record r)) r (u_log w) else u_log w),
                     u_late := (if d = SideOutputted then put_by (\<lambda>r. r_sequence (ir_record r)) r (u_late w) else u_late w),
                     u_ids := (case event_id of None \<Rightarrow> u_ids w | Some x \<Rightarrow> (u_ids w)(x \<mapsto> r)) \<rparr>
         in and_then (case source of None \<Rightarrow> Inr w | Some (source_id, part, offset) \<Rightarrow>
              if offset = - 1 then Inl OffsetOverflow
              else Inr (w\<lparr> u_cursors := (u_cursors w)((source_id, part) \<mapsto>
                     \<lparr> cursor_next_offset = offset + 1, cursor_checkpoint = a_source_checkpoint req \<rparr>) \<rparr>)) (\<lambda>w.
            and_then (ensure (e_downstream env) DownstreamFailed) (\<lambda>_. Inr ((Some d, r), w)))))"

definition append_one :: "StreamConfig \<Rightarrow> Surroundings \<Rightarrow> 'v AppendRequest \<Rightarrow> 'v Ingest
    \<Rightarrow> IngestError + (Disposition option \<times> 'v IngestRecord) \<times> 'v Ingest" where
  "append_one config env req w =
     and_then (ensure (a_partition req < g_partitions config) OutsidePartitions) (\<lambda>_.
     and_then (ensure (e_owned env) NotOwned) (\<lambda>_.
     and_then (source_of req) (\<lambda>source.
     and_then (ensure (case a_source_checkpoint req of None \<Rightarrow> True
         | Some c \<Rightarrow> source \<noteq> None \<and> c \<noteq> [] \<and> rust_len c \<le> 4096) BadCheckpoint) (\<lambda>_.
     and_then (claim_for env req source w) (\<lambda>w.
     case effective_event_id req source of
       None \<Rightarrow> take_in config env req source None w
     | Some x \<Rightarrow>
         if rust_blank x then Inl EmptyEventId
         else case u_ids w x of
             None \<Rightarrow> take_in config env req source (Some x) w
           | Some existing \<Rightarrow> if \<not> same_contents req (ir_record existing) then Inl ChangedContents
                                else Inr ((None, existing), w))))))"

text \<open>The records of a batch, in one transaction.\<close>

fun append_all :: "StreamConfig \<Rightarrow> (Surroundings \<times> 'v AppendRequest) list \<Rightarrow> 'v Ingest
    \<Rightarrow> IngestError + (Disposition option \<times> 'v IngestRecord) list \<times> 'v Ingest" where
  "append_all config [] w = Inr ([], w)"
| "append_all config ((env, req) # reqs) w = and_then (append_one config env req w) (\<lambda>(response, w).
     and_then (append_all config reqs w) (\<lambda>(responses, w). Inr (response # responses, w)))"

text \<open>\<open>discards\<close>: a process that reads the stream discards its input on success.\<close>

definition record_stream_batch :: "bool \<Rightarrow> (Disposition option \<times> 'v IngestRecord) list \<Rightarrow> 'v Ingest \<Rightarrow> 'v Ingest" where
  "record_stream_batch discards responses w =
     (let sequences = map (\<lambda>(_, r). r_sequence (ir_record r)) (filter (\<lambda>(d, _). d \<noteq> None) responses)
      in if discards \<or> sequences = [] then w
         else w\<lparr> u_batches := put_by batch_last_sequence
           \<lparr> batch_first_sequence = hd sequences, batch_last_sequence = last sequences,
             batch_records = of_nat (length sequences) \<rparr> (u_batches w) \<rparr>)"

definition claim_source :: "StreamConfig \<Rightarrow> f64 \<Rightarrow> nat \<Rightarrow> jsstr \<Rightarrow> f64 \<Rightarrow> 'v Ingest \<Rightarrow> IngestError + 'v Ingest" where
  "claim_source config now part source_id lease_seconds w =
     and_then (ensure (\<not> fle lease_seconds (num 0)) BadLease) (\<lambda>_.
     and_then (ensure (part < g_partitions config) OutsidePartitions) (\<lambda>_.
     and_then (claim_source_partition part source_id None lease_seconds now (u_leases w)) (\<lambda>leases.
     Inr (w\<lparr> u_leases := leases \<rparr>))))"

text \<open>A process that discards its input has completed a record: the record and its identifier are deleted.\<close>

definition discard_input :: "'v IngestRecord \<Rightarrow> 'v Ingest \<Rightarrow> 'v Ingest" where
  "discard_input r w = w\<lparr> u_log := filter (\<lambda>q. slot_of (ir_record q) \<noteq> slot_of (ir_record r)) (u_log w),
     u_ids := (case ir_event_id r of None \<Rightarrow> u_ids w | Some x \<Rightarrow> (u_ids w)(x := None)) \<rparr>"

datatype 'v IngestRequest = AppendRecords bool "(Surroundings \<times> 'v AppendRequest) list"
  | ClaimSource f64 nat jsstr f64 | AdvanceStream nat f64 f64 | SealStream nat f64 | SweepStream f64
  | CompleteInput "'v IngestRecord"

definition stored_stream :: "'v Ingest \<Rightarrow> refusal + stream \<Rightarrow> IngestError + 'v Ingest" where
  "stored_stream w outcome = (case outcome of Inl reason \<Rightarrow> Inl (Refused reason) | Inr st \<Rightarrow> Inr (w\<lparr> u_stream := st \<rparr>))"

fun ingest_transaction :: "StreamConfig \<Rightarrow> 'v Ingest \<Rightarrow> 'v IngestRequest \<Rightarrow> IngestError + 'v Ingest" where
  "ingest_transaction config w (AppendRecords discards reqs) =
     and_then (ensure (reqs \<noteq> [] \<and> length reqs \<le> 1000) BadBatch) (\<lambda>_.
     and_then (append_all config reqs w) (\<lambda>(responses, w). Inr (record_stream_batch discards responses w)))"
| "ingest_transaction config w (ClaimSource now part source_id lease_seconds) =
     claim_source config now part source_id lease_seconds w"
| "ingest_transaction config w (AdvanceStream part watermark now) =
     stored_stream w (advance_stream config part watermark now (u_stream w))"
| "ingest_transaction config w (SealStream part now) = stored_stream w (seal_partition config part now (u_stream w))"
| "ingest_transaction config w (SweepStream now) = Inr (w\<lparr> u_stream := refresh_stream config now (u_stream w) \<rparr>)"
| "ingest_transaction config w (CompleteInput r) = Inr (discard_input r w)"

definition ingest_step :: "StreamConfig \<Rightarrow> 'v Ingest \<Rightarrow> 'v IngestRequest \<Rightarrow> 'v Ingest" where
  "ingest_step config w e = (case ingest_transaction config w e of Inl _ \<Rightarrow> w | Inr w' \<Rightarrow> w')"

definition new_ingest :: "StreamConfig \<Rightarrow> f64 \<Rightarrow> 'v Ingest" where
  "new_ingest config now = \<lparr> u_stream = open_stream config now, u_log = [], u_late = [], u_ids = Map.empty,
     u_cursors = Map.empty, u_leases = Map.empty, u_sequence = 0, u_batches = [] \<rparr>"

section \<open>What a request does\<close>

lemma and_then_Inr [simp]: "and_then x f = Inr b \<longleftrightarrow> (\<exists>a. x = Inr a \<and> f a = Inr b)"
  by (cases x) (auto simp: and_then_def)

lemma ensure_Inr [simp]: "ensure c e = Inr u \<longleftrightarrow> c"
  by (auto simp: ensure_def)

lemma claim_for_same:
  assumes "claim_for env req source w = Inr w'"
  shows "w' = w\<lparr> u_leases := u_leases w' \<rparr>"
  using assms by (cases source) (auto simp: claim_for_def)

text \<open>The record that a request becomes, and the state it leaves.\<close>

definition incoming :: "StreamConfig \<Rightarrow> 'v AppendRequest \<Rightarrow> (jsstr \<times> nat \<times> 64 word) option \<Rightarrow> jsstr option \<Rightarrow> 'v Ingest \<Rightarrow> 'v IngestRecord" where
  "incoming config req source event_id w =
     \<lparr> ir_record = \<lparr> r_partition = a_partition req, r_offset = q_next_offset (snd (u_stream w) ! a_partition req),
         r_sequence = u_sequence w + 1, r_event_time = a_event_time req, r_key = a_key req, r_value = a_value req,
         r_kind = a_kind req \<rparr>,
       ir_event_id = event_id, ir_source = source, ir_late = is_late (fst (u_stream w)) (a_event_time req),
       ir_too_late = is_too_late (fst (u_stream w)) (a_event_time req) (g_allowed_lateness config) \<rparr>"

definition with_record :: "Disposition \<Rightarrow> stream \<Rightarrow> (jsstr \<times> nat \<times> 64 word) option \<Rightarrow> jsstr option \<Rightarrow> jsstr option
    \<Rightarrow> 'v IngestRecord \<Rightarrow> 'v Ingest \<Rightarrow> 'v Ingest" where
  "with_record d st source checkpoint event_id r w =
     w\<lparr> u_stream := st, u_sequence := u_sequence w + 1,
         u_log := (if taken d then put_by (\<lambda>r. slot_of (ir_record r)) r (u_log w) else u_log w),
         u_late := (if d = SideOutputted then put_by (\<lambda>r. r_sequence (ir_record r)) r (u_late w) else u_late w),
         u_ids := (case event_id of None \<Rightarrow> u_ids w | Some x \<Rightarrow> (u_ids w)(x \<mapsto> r)),
         u_cursors := (case source of None \<Rightarrow> u_cursors w | Some (source_id, part, offset) \<Rightarrow>
           (u_cursors w)((source_id, part) \<mapsto> \<lparr> cursor_next_offset = offset + 1, cursor_checkpoint = checkpoint \<rparr>)) \<rparr>"

lemma take_in_cases:
  assumes "take_in config env req source event_id w = Inr ((d, r), w')"
  obtains dd st where "append_record config (a_partition req) (a_event_time req) (e_now env) (u_stream w) = Inr (dd, st)"
    "d = Some dd" "r = incoming config req source event_id w"
    "w' = with_record dd st source (a_source_checkpoint req) event_id r w"
    "\<And>s p k. source = Some (s, p, k) \<Longrightarrow> k = next_source_offset w s p \<and> k \<noteq> - 1"
  using assms
  by (cases source) (auto simp: take_in_def Let_def incoming_def with_record_def split: sum.splits prod.splits if_splits)

lemma append_one_cases:
  assumes "append_one config env req w = Inr ((d, r), w')"
  obtains source v where "source_of req = Inr source" "claim_for env req source w = Inr v" "v = w\<lparr> u_leases := u_leases v \<rparr>"
    "a_partition req < g_partitions config" "e_owned env"
    "case a_source_checkpoint req of None \<Rightarrow> True | Some c \<Rightarrow> source \<noteq> None \<and> c \<noteq> [] \<and> rust_len c \<le> 4096"
    "\<And>x. effective_event_id req source = Some x \<Longrightarrow> \<not> rust_blank x"
    "(d = None \<and> w' = v \<and> (\<exists>x. effective_event_id req source = Some x \<and> u_ids w x = Some r \<and> same_contents req (ir_record r)))
     \<or> (d \<noteq> None \<and> take_in config env req source (effective_event_id req source) v = Inr ((d, r), w')
         \<and> (\<forall>x. effective_event_id req source = Some x \<longrightarrow> u_ids w x = None))"
proof -
  from assms obtain source v where s: "source_of req = Inr source" "claim_for env req source w = Inr v"
    "a_partition req < g_partitions config" "e_owned env"
    "case a_source_checkpoint req of None \<Rightarrow> True | Some c \<Rightarrow> source \<noteq> None \<and> c \<noteq> [] \<and> rust_len c \<le> 4096"
    and rest: "(case effective_event_id req source of
       None \<Rightarrow> take_in config env req source None v
     | Some x \<Rightarrow>
         if rust_blank x then Inl EmptyEventId
         else case u_ids v x of
             None \<Rightarrow> take_in config env req source (Some x) v
           | Some existing \<Rightarrow> if \<not> same_contents req (ir_record existing) then Inl ChangedContents
                                else Inr ((None, existing), v)) = Inr ((d, r), w')"
    unfolding append_one_def by auto
  note v = claim_for_same [OF s(2)]
  have ids: "u_ids v = u_ids w" by (subst v) simp
  have some: "d \<noteq> None" if "take_in config env req source x v = Inr ((d, r), w')" for x
    using that by (rule take_in_cases) simp
  have "\<not> rust_blank x" if "effective_event_id req source = Some x" for x using rest that by (auto split: if_splits)
  then show thesis
    by (rule that [OF s(1,2) v s(3,4,5)]) (use rest some in \<open>auto simp: ids split: option.splits if_splits\<close>)
qed

section \<open>The history of a source\<close>

text \<open>The source's own records of a list, and what a request and a record hold.\<close>

definition from_source :: "jsstr \<Rightarrow> nat \<Rightarrow> 'v IngestRecord \<Rightarrow> bool" where
  "from_source source_id part r \<longleftrightarrow> (case ir_source r of None \<Rightarrow> False | Some (s, p, _) \<Rightarrow> s = source_id \<and> p = part)"

definition contents :: "'v AppendRequest \<Rightarrow> nat \<times> f64 \<times> jsstr option \<times> 'v \<times> ChangeKind" where
  "contents req = (a_partition req, a_event_time req, a_key req, a_value req, a_kind req)"

definition record_contents :: "'v StreamRecord \<Rightarrow> nat \<times> f64 \<times> jsstr option \<times> 'v \<times> ChangeKind" where
  "record_contents r = (r_partition r, r_event_time r, r_key r, r_value r, r_kind r)"

text \<open>Where the policy of the stream puts a record.\<close>

definition goes_to_log :: "StreamConfig \<Rightarrow> 'v IngestRecord \<Rightarrow> bool" where
  "goes_to_log config r \<longleftrightarrow> \<not> ir_too_late r \<or> g_late_policy config = Accept"

definition goes_aside :: "StreamConfig \<Rightarrow> 'v IngestRecord \<Rightarrow> bool" where
  "goes_aside config r \<longleftrightarrow> ir_too_late r \<and> g_late_policy config = SideOutput"

text \<open>The records of a source, in the order of its offsets: \<open>Q\<close> are the requests that were made, \<open>G\<close> the places
  of discarded records.\<close>

definition kept :: "StreamConfig \<Rightarrow> slot set \<Rightarrow> 'v IngestRecord list \<Rightarrow> 'v IngestRecord list \<Rightarrow> bool" where
  "kept config G rs l \<longleftrightarrow> (\<exists>D. D \<subseteq> set rs \<and> (slot_of \<circ> ir_record) ` D \<subseteq> G
     \<and> l = filter (\<lambda>r. goes_to_log config r \<and> r \<notin> D) rs)"

definition source_history :: "StreamConfig \<Rightarrow> 'v AppendRequest set \<Rightarrow> slot set \<Rightarrow> 'v Ingest \<Rightarrow> jsstr \<Rightarrow> nat \<Rightarrow> 'v IngestRecord list \<Rightarrow> bool" where
  "source_history config Q G w s p rs \<longleftrightarrow> length rs = unat (next_source_offset w s p)
     \<and> map ir_source rs = map (\<lambda>k. Some (s, p, of_nat k)) [0..<length rs]
     \<and> sorted_wrt (<) (map (r_sequence \<circ> ir_record) rs)
     \<and> (\<forall>r \<in> set rs. r_sequence (ir_record r) \<le> u_sequence w
          \<and> (\<exists>req \<in> Q. source_of req = Inr (ir_source r) \<and> contents req = record_contents (ir_record r)))
     \<and> kept config G rs (filter (from_source s p) (u_log w))
     \<and> filter (from_source s p) (u_late w) = filter (goes_aside config) rs"

definition ingest_inv :: "StreamConfig \<Rightarrow> 'v AppendRequest set \<Rightarrow> slot set \<Rightarrow> 'v Ingest \<Rightarrow> bool" where
  "ingest_inv config Q G w \<longleftrightarrow> gate_inv config (u_stream w)
     \<and> log_ok (u_stream w) (u_sequence w) (map ir_record (u_log w))
     \<and> (\<forall>r \<in> set (u_late w). r_sequence (ir_record r) \<le> u_sequence w)
     \<and> (\<forall>s p. \<exists>rs. source_history config Q G w s p rs)"

lemma stored_by_disposition:
  "taken (disposition config s t) \<longleftrightarrow> \<not> is_too_late s t (g_allowed_lateness config) \<or> g_late_policy config = Accept"
  "disposition config s t = SideOutputted \<longleftrightarrow> is_too_late s t (g_allowed_lateness config) \<and> g_late_policy config = SideOutput"
  by (auto simp: disposition_def taken_def split: LatePolicy.splits)

lemma append_record_disposition: "append_record config k t now st = Inr (d, st') \<Longrightarrow> d = disposition config (fst st) t"
  by (auto simp: append_record_def Let_def split: prod.splits option.splits sum.splits if_splits)

lemma next_offset_with_record: "next_source_offset (with_record d st source checkpoint x r w) s p
    = (case source of Some (s', p', k) \<Rightarrow> if (s', p') = (s, p) then k + 1 else next_source_offset w s p
       | None \<Rightarrow> next_source_offset w s p)"
  by (auto simp: next_source_offset_def with_record_def split: option.splits prod.splits)

lemma kept_append:
  assumes "kept config G rs l" "r \<notin> set rs"
  shows "kept config G (rs @ [r]) (if goes_to_log config r then l @ [r] else l)"
proof -
  obtain D where D: "D \<subseteq> set rs" "(slot_of \<circ> ir_record) ` D \<subseteq> G" "l = filter (\<lambda>r. goes_to_log config r \<and> r \<notin> D) rs"
    using assms(1) unfolding kept_def by blast
  then have "r \<notin> D" using assms(2) by blast
  with D show ?thesis unfolding kept_def by (intro exI [of _ D]) auto
qed

lemma kept_discard:
  assumes "kept config G rs l" "\<And>q. q \<in> set rs \<Longrightarrow> \<not> P q \<Longrightarrow> slot_of (ir_record q) \<in> G"
  shows "kept config G rs (filter P l)"
proof -
  obtain D where D: "D \<subseteq> set rs" "(slot_of \<circ> ir_record) ` D \<subseteq> G" "l = filter (\<lambda>r. goes_to_log config r \<and> r \<notin> D) rs"
    using assms(1) unfolding kept_def by blast
  let ?D = "D \<union> {q \<in> set rs. \<not> P q}"
  have "filter P l = filter (\<lambda>r. goes_to_log config r \<and> r \<notin> ?D) rs"
    unfolding D(3) filter_filter by (rule filter_cong) auto
  moreover have "?D \<subseteq> set rs" "(slot_of \<circ> ir_record) ` ?D \<subseteq> G" using D(1,2) assms(2) by auto
  ultimately show ?thesis unfolding kept_def by blast
qed

lemma with_record_history:
  assumes hist: "source_history config Q G w s p rs"
    and r: "r = incoming config req source x w" "d = disposition config (fst (u_stream w)) (a_event_time req)"
    and log: "u_log v = (if taken d then u_log w @ [r] else u_log w)"
    and late: "u_late v = (if d = SideOutputted then u_late w @ [r] else u_late w)"
    and v: "u_sequence v = u_sequence w + 1" "\<And>s p. next_source_offset v s p = next_source_offset (with_record d st source checkpoint x r w) s p"
    and n: "u_sequence w < u_sequence w + 1"
    and source: "\<And>s p k. source = Some (s, p, k) \<Longrightarrow> k = next_source_offset w s p \<and> k \<noteq> - 1"
    and req: "req \<in> Q" "source_of req = Inr source"
  shows "\<exists>rs. source_history config Q G v s p rs"
proof -
  have seq: "r_sequence (ir_record r) = u_sequence w + 1" by (simp add: r(1) incoming_def)
  have older: "r_sequence (ir_record q) \<le> u_sequence w" if "q \<in> set rs" for q
    using hist that by (simp add: source_history_def)
  then have up: "r_sequence (ir_record q) \<le> u_sequence v" "r_sequence (ir_record q) < r_sequence (ir_record r)" if "q \<in> set rs" for q
    using that n by (auto simp: v seq intro: order_trans le_less_trans less_imp_le)
  have places: "taken d = goes_to_log config r" "(d = SideOutputted) = goes_aside config r"
    by (simp_all add: r incoming_def goes_to_log_def goes_aside_def stored_by_disposition)
  have src: "ir_source r = source" by (simp add: r(1) incoming_def)
  have same: "contents req = record_contents (ir_record r)" by (simp add: r(1) incoming_def contents_def record_contents_def)
  show ?thesis
  proof (cases "from_source s p r")
    case True
    then obtain k where k: "source = Some (s, p, k)" by (auto simp: from_source_def src split: option.splits)
    have off: "k = next_source_offset w s p" "next_source_offset v s p = k + 1" "k \<noteq> - 1"
      using source [OF k] v(2) [of s p] by (auto simp: next_offset_with_record k)
    have len: "length rs = unat k" using hist by (simp add: source_history_def off(1))
    have "unat (k + 1) = unat k + 1" using off(3) unatSuc [of k] by (simp add: add.commute eq_neg_iff_add_eq_0)
    then have "length (rs @ [r]) = unat (next_source_offset v s p)" by (simp add: off(2) len)
    moreover have "map ir_source (rs @ [r]) = map (\<lambda>k. Some (s, p, of_nat k)) [0..<length (rs @ [r])]"
    proof -
      have "ir_source r = Some (s, p, of_nat (length rs))" by (simp add: src k len)
      then show ?thesis using hist by (simp add: source_history_def)
    qed
    moreover have "sorted_wrt (<) (map (r_sequence \<circ> ir_record) (rs @ [r]))"
      using hist up(2) by (simp add: source_history_def sorted_wrt_append)
    moreover have "\<forall>q \<in> set (rs @ [r]). r_sequence (ir_record q) \<le> u_sequence v
        \<and> (\<exists>req \<in> Q. source_of req = Inr (ir_source q) \<and> contents req = record_contents (ir_record q))"
    proof -
      have "\<exists>req \<in> Q. source_of req = Inr (ir_source r) \<and> contents req = record_contents (ir_record r)"
        using req same src by blast
      moreover have "r_sequence (ir_record r) \<le> u_sequence v" by (simp only: seq v(1) order_refl)
      ultimately show ?thesis using hist up(1) by (simp add: source_history_def)
    qed
    moreover have "r \<notin> set rs" using up(2) by blast
    then have "kept config G (rs @ [r]) (filter (from_source s p) (u_log v))"
      using hist True kept_append [of config G rs "filter (from_source s p) (u_log w)" r]
      by (cases "goes_to_log config r") (simp_all add: source_history_def log places(1))
    moreover have "filter (from_source s p) (u_late v) = filter (goes_aside config) (rs @ [r])"
      using hist True by (simp add: source_history_def late places(2))
    ultimately have "source_history config Q G v s p (rs @ [r])" unfolding source_history_def by blast
    then show ?thesis by blast
  next
    case False
    then have "next_source_offset v s p = next_source_offset w s p"
      using v(2) [of s p] by (auto simp: next_offset_with_record from_source_def src split: option.splits)
    then have "source_history config Q G v s p rs"
      using hist False up by (auto simp: source_history_def log late)
    then show ?thesis by blast
  qed
qed

section \<open>What every request keeps\<close>

text \<open>Event times that arrive are doubles.\<close>

definition append_ok :: "'v AppendRequest set \<Rightarrow> 'v AppendRequest \<Rightarrow> bool" where
  "append_ok Q req \<longleftrightarrow> req \<in> Q \<and> valid64 (a_event_time req)"

fun requests_in :: "'v IngestRequest \<Rightarrow> 'v AppendRequest list" where
  "requests_in (AppendRecords discards reqs) = map snd reqs"
| "requests_in _ = []"

fun doubles_in :: "'v IngestRequest \<Rightarrow> bool" where
  "doubles_in (AppendRecords discards reqs) = list_all (\<lambda>(env, req). valid64 (a_event_time req)) reqs"
| "doubles_in (AdvanceStream part watermark now) = valid64 watermark"
| "doubles_in _ = True"

fun discarded_in :: "'v IngestRequest \<Rightarrow> 'v IngestRecord list" where
  "discarded_in (CompleteInput r) = [r]"
| "discarded_in _ = []"

definition discarded_slots :: "'v IngestRequest list \<Rightarrow> slot set" where
  "discarded_slots es = (slot_of \<circ> ir_record) ` set (concat (map discarded_in es))"

definition ingest_ok :: "'v AppendRequest set \<Rightarrow> slot set \<Rightarrow> 'v IngestRequest \<Rightarrow> bool" where
  "ingest_ok Q G e \<longleftrightarrow> doubles_in e \<and> set (requests_in e) \<subseteq> Q \<and> discarded_slots [e] \<subseteq> G"

text \<open>Leases and batches play no part in the invariant.\<close>

lemma ingest_inv_leases [simp]: "ingest_inv config Q G (w\<lparr> u_leases := leases \<rparr>) = ingest_inv config Q G w"
  "ingest_inv config Q G (w\<lparr> u_batches := batches \<rparr>) = ingest_inv config Q G w"
  by (simp_all add: ingest_inv_def source_history_def next_source_offset_def)

lemma map_put_by: "map ir_record (put_by (\<lambda>r. slot_of (ir_record r)) r rs) = put_by slot_of (ir_record r) (map ir_record rs)"
  by (simp add: put_by_def filter_map o_def)

lemma put_by_new: "(\<And>x. x \<in> set rs \<Longrightarrow> key x \<noteq> key r) \<Longrightarrow> put_by key r rs = rs @ [r]"
  by (auto simp: put_by_def)

lemma take_in_inv:
  assumes w: "ingest_inv config Q G w" and run: "take_in config env req source x w = Inr ((d, r), w')"
    and req: "append_ok Q req" "source_of req = Inr source" and n: "unat (u_sequence w) + 1 < 2 ^ 64"
  shows "ingest_inv config Q G w' \<and> u_sequence w' = u_sequence w + 1"
proof -
  let ?n = "u_sequence w + 1" and ?p = "a_partition req"
  obtain dd st where st: "append_record config ?p (a_event_time req) (e_now env) (u_stream w) = Inr (dd, st)"
    and r: "r = incoming config req source x w" and w': "w' = with_record dd st source (a_source_checkpoint req) x r w"
    and source: "\<And>s p k. source = Some (s, p, k) \<Longrightarrow> k = next_source_offset w s p \<and> k \<noteq> - 1"
    by (rule take_in_cases [OF run]) (use that in blast)
  have gate: "gate_inv config (u_stream w)" and log: "log_ok (u_stream w) (u_sequence w) (map ir_record (u_log w))"
    using w by (simp_all add: ingest_inv_def)
  note dd = append_record_disposition [OF st]
  note next_offset = append_next_offset [OF st gate_length [OF gate]]
  have "stream_step config (u_stream w) (Append ?p (a_event_time req) (e_now env)) = st" by (simp add: st committed_def)
  then have gate': "gate_inv config st"
    using gate_step(1) [OF gate, of "Append ?p (a_event_time req) (e_now env)"] req(1) by (simp add: append_ok_def)
  have time: "mark_time (a_event_time req)" using req(1) next_offset(3) mark_time_finite by (simp add: append_ok_def)
  have fields: "r_partition (ir_record r) = ?p" "r_offset (ir_record r) = q_next_offset (snd (u_stream w) ! ?p)"
    "r_sequence (ir_record r) = ?n" "mark_time (r_event_time (ir_record r))"
    using time by (simp_all add: r incoming_def)
  note log' = log_ok_append [OF log n next_offset(2,1) fields]
  have up: "u_sequence w \<le> ?n" "u_sequence w < ?n"
    using n by (simp_all add: word_le_nat_alt word_less_nat_alt unat_word_ariths(1) take_bit_nat_eq_self)
  have log_new: "put_by (\<lambda>r. slot_of (ir_record r)) r (u_log w) = u_log w @ [r]"
  proof (rule put_by_new)
    have "inj_on slot_of (insert (ir_record r) (set (map ir_record (u_log w))))" using log'(2,3) by (simp add: log_ok_def)
    then show "slot_of (ir_record q) \<noteq> slot_of (ir_record r)" if "q \<in> set (u_log w)" for q
      using that log'(4) by (metis image_eqI inj_onD insertCI list.set_map)
  qed
  have late: "\<forall>q \<in> set (u_late w). r_sequence (ir_record q) \<le> u_sequence w" using w by (simp add: ingest_inv_def)
  then have late_new: "put_by (\<lambda>r. r_sequence (ir_record r)) r (u_late w) = u_late w @ [r]"
    using up by (intro put_by_new) (auto simp: fields(3))
  have "\<exists>rs. source_history config Q G w' s p rs" for s p
  proof -
    obtain rs where "source_history config Q G w s p rs" using w unfolding ingest_inv_def by blast
    then show ?thesis
      by (rule with_record_history [OF _ r dd _ _ _ _ up(2) source _ req(2)])
        (use req(1) in \<open>simp_all add: w' with_record_def log_new late_new append_ok_def next_source_offset_def\<close>)
  qed
  moreover have "log_ok st ?n (map ir_record (u_log w'))"
    using log'(1,2) map_put_by [of r "u_log w"] by (simp add: w' with_record_def)
  moreover have "\<forall>q \<in> set (u_late w'). r_sequence (ir_record q) \<le> ?n"
    using late up(1) by (auto simp: w' with_record_def late_new fields(3) intro: order_trans)
  ultimately show ?thesis using gate' by (simp add: ingest_inv_def w' with_record_def)
qed

lemma append_one_inv:
  assumes w: "ingest_inv config Q G w" and run: "append_one config env req w = Inr (response, w')"
    and req: "append_ok Q req" and n: "unat (u_sequence w) + 1 < 2 ^ 64"
  shows "ingest_inv config Q G w' \<and> unat (u_sequence w') \<le> unat (u_sequence w) + 1"
proof -
  obtain d r where response: "response = (d, r)" by fastforce
  from run[unfolded response] show ?thesis
  proof (rule append_one_cases)
    fix source v
    assume source: "source_of req = Inr source" and v: "v = w\<lparr> u_leases := u_leases v \<rparr>"
      and cases: "(d = None \<and> w' = v \<and> (\<exists>x. effective_event_id req source = Some x \<and> u_ids w x = Some r \<and> same_contents req (ir_record r)))
        \<or> (d \<noteq> None \<and> take_in config env req source (effective_event_id req source) v = Inr ((d, r), w')
            \<and> (\<forall>x. effective_event_id req source = Some x \<longrightarrow> u_ids w x = None))"
    have v_inv: "ingest_inv config Q G v" using w ingest_inv_leases(1) v by metis
    have v_n: "u_sequence v = u_sequence w" by (subst v) simp
    show ?thesis
    proof (cases d)
      case None
      then show ?thesis using cases v_inv v_n by auto
    next
      case (Some dd)
      then have "ingest_inv config Q G w' \<and> u_sequence w' = u_sequence v + 1"
        using cases n v_n by (intro take_in_inv [OF v_inv _ req source]) auto
      then show ?thesis using n v_n by (simp add: unat_word_ariths(1) take_bit_nat_eq_self)
    qed
  qed
qed

lemma append_all_inv:
  assumes "ingest_inv config Q G w" "append_all config reqs w = Inr (responses, w')"
    "list_all (\<lambda>(env, req). append_ok Q req) reqs" "unat (u_sequence w) + length reqs < 2 ^ 64"
  shows "ingest_inv config Q G w' \<and> unat (u_sequence w') \<le> unat (u_sequence w) + length reqs"
  using assms
proof (induction config reqs w arbitrary: responses rule: append_all.induct)
  case (2 config env req reqs w)
  then obtain response v rest where v: "append_one config env req w = Inr (response, v)" "append_all config reqs v = Inr (rest, w')"
    by auto
  have "ingest_inv config Q G v" "unat (u_sequence v) \<le> unat (u_sequence w) + 1"
    using append_one_inv [OF 2(2) v(1)] 2(4,5) by auto
  with 2(1) [OF _ v(2)] v 2(4,5) show ?case by fastforce
qed simp

lemma moved_inv:
  assumes w: "ingest_inv config Q G w" and e: "request_ok e" "stream_step config (u_stream w) e = st"
    and offsets: "map q_next_offset (snd st) = map q_next_offset (snd (u_stream w))"
  shows "ingest_inv config Q G (w\<lparr> u_stream := st \<rparr>)"
proof -
  have gate: "gate_inv config (u_stream w)" and log: "log_ok (u_stream w) (u_sequence w) (map ir_record (u_log w))"
    using w by (simp_all add: ingest_inv_def)
  have "gate_inv config st" using gate_step(1) [OF gate e(1)] e(2) by simp
  moreover have "log_ok st (u_sequence w) (map ir_record (u_log w))" by (rule log_ok_later [OF log order_refl offsets])
  ultimately show ?thesis using w by (simp add: ingest_inv_def source_history_def next_source_offset_def)
qed

lemma log_ok_subset: "log_ok st n rs \<Longrightarrow> set qs \<subseteq> set rs \<Longrightarrow> log_ok st n qs"
  by (auto simp: log_ok_def intro: inj_on_subset)

lemma discard_inv:
  assumes w: "ingest_inv config Q G w" and r: "slot_of (ir_record r) \<in> G"
  shows "ingest_inv config Q G (discard_input r w)"
proof -
  let ?P = "\<lambda>q. slot_of (ir_record q) \<noteq> slot_of (ir_record r)"
  have "log_ok (u_stream w) (u_sequence w) (map ir_record (filter ?P (u_log w)))"
    using w by (rule_tac log_ok_subset [of _ _ "map ir_record (u_log w)"]) (auto simp: ingest_inv_def)
  moreover have history: "source_history config Q G (discard_input r w) s p rs" if "source_history config Q G w s p rs" for s p rs
  proof -
    have "filter (from_source s p) (filter ?P (u_log w)) = filter ?P (filter (from_source s p) (u_log w))"
      by (simp only: filter_filter conj_commute)
    then have "kept config G rs (filter (from_source s p) (filter ?P (u_log w)))"
      using that r kept_discard [of config G rs "filter (from_source s p) (u_log w)" ?P] by (simp add: source_history_def)
    with that show ?thesis by (simp add: source_history_def discard_input_def next_source_offset_def)
  qed
  have "\<exists>rs. source_history config Q G (discard_input r w) s p rs" for s p
    using w history unfolding ingest_inv_def by blast
  ultimately show ?thesis using w unfolding ingest_inv_def by (simp add: discard_input_def)
qed

lemma ingest_step_inv:
  assumes w: "ingest_inv config Q G w" and e: "ingest_ok Q G e" and n: "unat (u_sequence w) + length (requests_in e) < 2 ^ 64"
  shows "ingest_inv config Q G (ingest_step config w e) \<and> unat (u_sequence (ingest_step config w e)) \<le> unat (u_sequence w) + length (requests_in e)"
proof (cases "ingest_transaction config w e")
  case (Inl x)
  with w show ?thesis by (simp add: ingest_step_def)
next
  case (Inr w')
  have w': "ingest_step config w e = w'" using Inr by (simp add: ingest_step_def)
  show ?thesis
  proof (cases e)
    case (AppendRecords discards reqs)
    then obtain responses v where "append_all config reqs w = Inr (responses, v)" "w' = record_stream_batch discards responses v"
      using Inr by auto
    moreover from this have "ingest_inv config Q G v \<and> unat (u_sequence v) \<le> unat (u_sequence w) + length reqs"
      using append_all_inv [OF w] e n AppendRecords by (fastforce simp: ingest_ok_def append_ok_def list_all_iff)
    ultimately show ?thesis unfolding w' using AppendRecords by (simp add: record_stream_batch_def Let_def)
  next
    case (ClaimSource now part source_id lease_seconds)
    then have "\<exists>leases. w' = w\<lparr> u_leases := leases \<rparr>" using Inr by (auto simp: claim_source_def)
    with w show ?thesis by (auto simp: w')
  next
    case (AdvanceStream part watermark now)
    then obtain st where st: "advance_stream config part watermark now (u_stream w) = Inr st" "w' = w\<lparr> u_stream := st \<rparr>"
      using Inr by (auto simp: stored_stream_def split: sum.splits)
    then show ?thesis unfolding w'
      using moved_inv [OF w, of "Advance part watermark now"] e AdvanceStream advance_next_offset [OF st(1)]
      by (simp add: committed_def ingest_ok_def)
  next
    case (SealStream part now)
    then obtain st where st: "seal_partition config part now (u_stream w) = Inr st" "w' = w\<lparr> u_stream := st \<rparr>"
      using Inr by (auto simp: stored_stream_def split: sum.splits)
    then show ?thesis unfolding w'
      using moved_inv [OF w, of "Seal part now"] SealStream seal_next_offset [OF st(1)] by (simp add: committed_def)
  next
    case (SweepStream now)
    have "map q_next_offset (snd (refresh_stream config now (u_stream w))) = map q_next_offset (snd (u_stream w))"
      by (cases "u_stream w") simp
    then show ?thesis unfolding w' using moved_inv [OF w, of "Tick now"] Inr SweepStream by auto
  next
    case (CompleteInput r)
    then show ?thesis unfolding w' using Inr discard_inv [OF w, of r] e
      by (auto simp: ingest_ok_def discarded_slots_def discard_input_def)
  qed
qed

lemma new_ingest_inv: "validate_config config \<Longrightarrow> ingest_inv config Q G (new_ingest config now)"
  using open_gated [of config now]
  by (auto simp: ingest_inv_def new_ingest_def gate_inv_def log_ok_def open_stream_def new_partition_def source_history_def
      next_source_offset_def kept_def)

definition requests :: "'v IngestRequest list \<Rightarrow> 'v AppendRequest list" where
  "requests es = concat (map requests_in es)"

lemma ingest_run_from:
  assumes "list_all (ingest_ok Q G) es" "ingest_inv config Q G w" "unat (u_sequence w) + length (requests es) < 2 ^ 64"
  shows "ingest_inv config Q G (foldl (ingest_step config) w es)"
  using assms
proof (induction es arbitrary: w)
  case (Cons e es)
  then have "ingest_inv config Q G (ingest_step config w e)"
    "unat (u_sequence (ingest_step config w e)) \<le> unat (u_sequence w) + length (requests_in e)"
    using ingest_step_inv [of config Q G w e] by (auto simp: requests_def)
  with Cons show ?case by (simp add: requests_def)
qed simp

section \<open>Each record of a source once\<close>

lemma requests_ok: "list_all doubles_in es \<Longrightarrow> list_all (ingest_ok (set (requests es)) (discarded_slots es)) es"
  by (auto simp: list_all_iff ingest_ok_def requests_def discarded_slots_def)

text \<open>
  C5. A source's records come in exactly once and in order. Over any requests of any clients, retried, reordered,
  batched, under any epochs, accepted or refused (fewer than \<open>2 ^ 64\<close> records), and whatever processes discard: if the
  requests for an offset of a source always have the same contents, then what the server has taken in from the source
  are the records at the offsets \<open>0, 1, \<dots>\<close> up to its cursor, once each, with rising sequence numbers; the
  log holds, in this order, exactly those that came in time, less records \<open>D\<close> at discarded places (none
  when nothing was discarded), and the late ones are set aside where the policy says so.
\<close>

theorem source_exactly_once:
  assumes "validate_config config" "list_all doubles_in es" "length (requests es) < 2 ^ 64"
    and "\<forall>req \<in> set (requests es). \<forall>k. source_of req = Inr (Some (s, p, k)) \<longrightarrow> contents req = f (unat k)"
    and "w = foldl (ingest_step config) (new_ingest config now) es" "n = unat (next_source_offset w s p)"
  shows "\<exists>rs. map ir_source rs = map (\<lambda>k. Some (s, p, of_nat k)) [0..<n]
     \<and> map (record_contents \<circ> ir_record) rs = map f [0..<n]
     \<and> sorted_wrt (<) (map (r_sequence \<circ> ir_record) rs)
     \<and> (\<exists>D. (slot_of \<circ> ir_record) ` D \<subseteq> discarded_slots es
          \<and> filter (from_source s p) (u_log w) = filter (\<lambda>r. goes_to_log config r \<and> r \<notin> D) rs)
     \<and> filter (from_source s p) (u_late w) = filter (goes_aside config) rs"
proof -
  have "ingest_inv config (set (requests es)) (discarded_slots es) w"
    unfolding assms(5) by (rule ingest_run_from [OF requests_ok [OF assms(2)] new_ingest_inv [OF assms(1)]])
      (use assms(3) in \<open>simp add: new_ingest_def requests_def\<close>)
  then obtain rs where rs: "source_history config (set (requests es)) (discarded_slots es) w s p rs" unfolding ingest_inv_def by blast
  then have sources: "map ir_source rs = map (\<lambda>k. Some (s, p, of_nat k)) [0..<n]" and len: "length rs = n"
    by (simp_all add: source_history_def assms(6))
  have "record_contents (ir_record (rs ! k)) = f k" if k: "k < n" for k
  proof -
    have "ir_source (rs ! k) = map ir_source rs ! k" using k len by simp
    also have "\<dots> = Some (s, p, of_nat k)" unfolding sources using k by simp
    finally have src: "ir_source (rs ! k) = Some (s, p, of_nat k)" .
    have "rs ! k \<in> set rs" using k len by simp
    then obtain req where "req \<in> set (requests es)" "source_of req = Inr (Some (s, p, of_nat k))" "contents req = record_contents (ir_record (rs ! k))"
      using rs src by (auto simp: source_history_def)
    moreover have "n < 2 ^ 64" using unsigned_less [of "next_source_offset w s p"] by (simp add: assms(6))
    then have "unat (of_nat k :: 64 word) = k" using k by (simp add: unsigned_of_nat take_bit_nat_eq_self)
    ultimately show ?thesis using assms(4) by metis
  qed
  then have "map (record_contents \<circ> ir_record) rs = map f [0..<n]" using len by (intro nth_equalityI) simp_all
  moreover have "\<exists>D. (slot_of \<circ> ir_record) ` D \<subseteq> discarded_slots es
      \<and> filter (from_source s p) (u_log w) = filter (\<lambda>r. goes_to_log config r \<and> r \<notin> D) rs"
    using rs unfolding source_history_def kept_def by blast
  ultimately show ?thesis using rs sources unfolding source_history_def by blast
qed

section \<open>Retries\<close>

lemma take_in_ids:
  assumes "take_in config env req source event_id w = Inr ((d, r), w')"
  shows "u_ids w' = (case event_id of None \<Rightarrow> u_ids w | Some x \<Rightarrow> (u_ids w)(x \<mapsto> r))"
  using assms by (rule take_in_cases) (auto simp: with_record_def)

lemma append_one_ids:
  assumes "append_one config env req w = Inr ((d, r), w')"
  shows "u_ids w \<subseteq>\<^sub>m u_ids w'"
  using assms
proof (rule append_one_cases)
  fix source v
  assume v: "v = w\<lparr> u_leases := u_leases v \<rparr>"
    and cases: "(d = None \<and> w' = v \<and> (\<exists>x. effective_event_id req source = Some x \<and> u_ids w x = Some r \<and> same_contents req (ir_record r)))
        \<or> (d \<noteq> None \<and> take_in config env req source (effective_event_id req source) v = Inr ((d, r), w')
            \<and> (\<forall>x. effective_event_id req source = Some x \<longrightarrow> u_ids w x = None))"
  have "u_ids v = u_ids w" by (subst v) simp
  then show ?thesis using cases
    by (auto dest!: take_in_ids simp: map_le_def split: option.splits)
qed

lemma append_all_ids: "append_all config reqs w = Inr (responses, w') \<Longrightarrow> u_ids w \<subseteq>\<^sub>m u_ids w'"
proof (induction config reqs w arbitrary: responses rule: append_all.induct)
  case (2 config env req reqs w)
  then obtain d r v rest where v: "append_one config env req w = Inr ((d, r), v)" "append_all config reqs v = Inr (rest, w')"
    by auto
  with 2(1) [OF v(2)] append_one_ids [OF v(1)] show ?case by (auto intro: map_le_trans)
qed simp

text \<open>An identifier is kept until a record with it is discarded.\<close>

definition keeps_id :: "jsstr \<Rightarrow> 'v IngestRequest \<Rightarrow> bool" where
  "keeps_id x e \<longleftrightarrow> (\<forall>r \<in> set (discarded_in e). ir_event_id r \<noteq> Some x)"

interpretation ids: forward_machine "\<lambda>w. True" "ingest_step config" "keeps_id x" "\<lambda>w. True" "\<lambda>w. u_ids w x"
  "\<lambda>r r'. r = None \<or> r' = r"
  for config :: StreamConfig and x
proof unfold_locales
  fix w :: "'v Ingest" and e :: "'v IngestRequest"
  assume e: "keeps_id x e"
  show "u_ids w x = None \<or> u_ids (ingest_step config w e) x = u_ids w x"
  proof (cases "ingest_transaction config w e")
    case (Inr w')
    have same: "u_ids v x = u_ids w x" if "u_ids w \<subseteq>\<^sub>m u_ids v" "u_ids w x \<noteq> None" for v :: "'v Ingest"
      using that by (metis domIff map_le_def)
    have "u_ids w x = None \<or> u_ids w' x = u_ids w x"
    proof (cases e)
      case (CompleteInput r)
      then show ?thesis using Inr e by (auto simp: discard_input_def keeps_id_def split: option.splits)
    next
      case (AppendRecords discards reqs)
      then obtain responses v where v: "append_all config reqs w = Inr (responses, v)" "w' = record_stream_batch discards responses v"
        using Inr by auto
      have "u_ids w' = u_ids v" by (simp add: v(2) record_stream_batch_def Let_def)
      then show ?thesis using same [OF append_all_ids [OF v(1)]] by metis
    qed (use Inr in \<open>auto simp: stored_stream_def claim_source_def split: sum.splits\<close>)
    with Inr show ?thesis by (simp add: ingest_step_def)
  qed (simp add: ingest_step_def)
qed auto

lemma ids_kept: "u_ids w x = Some r \<Longrightarrow> list_all (keeps_id x) es \<Longrightarrow> u_ids (foldl (ingest_step config) w es) x = Some r"
  using ids.run_forward_from [where s = w and x = x and es = es and config = config] by auto

text \<open>
  C15. A request that was accepted can be repeated. If a record with an identifier (or a place in a source) was
  taken in, or was answered as a duplicate, then after any further requests of anyone, as long as no process that
  discards its input has completed a record with that identifier, the same request, at a node that owns the key
  group, gets the same record back as a duplicate and changes nothing but the lease of its source; there it is
  refused only when that lease is.
\<close>

theorem retry_answered_once:
  assumes "append_one config env req w = Inr ((d, r), w1)" "source_of req = Inr source" "effective_event_id req source \<noteq> None"
    and "w2 = foldl (ingest_step config) w1 es" "e_owned env'"
    and "\<forall>x. effective_event_id req source = Some x \<longrightarrow> list_all (keeps_id x) es"
  shows "append_one config env' req w2 = map_sum id (\<lambda>w3. ((None, r), w3)) (claim_for env' req source w2)"
  using assms(1)
proof (rule append_one_cases)
  fix source' v
  assume source': "source_of req = Inr source'" and v: "v = w\<lparr> u_leases := u_leases v \<rparr>"
    and ok: "a_partition req < g_partitions config"
      "case a_source_checkpoint req of None \<Rightarrow> True | Some c \<Rightarrow> source' \<noteq> None \<and> c \<noteq> [] \<and> rust_len c \<le> 4096"
      "\<And>x. effective_event_id req source' = Some x \<Longrightarrow> \<not> rust_blank x"
    and cases: "(d = None \<and> w1 = v \<and> (\<exists>x. effective_event_id req source' = Some x \<and> u_ids w x = Some r \<and> same_contents req (ir_record r)))
        \<or> (d \<noteq> None \<and> take_in config env req source' (effective_event_id req source') v = Inr ((d, r), w1)
            \<and> (\<forall>x. effective_event_id req source' = Some x \<longrightarrow> u_ids w x = None))"
  have same: "source' = source" using source' assms(2) by simp
  obtain x where x: "effective_event_id req source = Some x" using assms(3) by blast
  have "u_ids w1 x = Some r \<and> same_contents req (ir_record r)"
  proof (cases d)
    case None
    have "u_ids v = u_ids w" by (subst v) simp
    with None cases x same show ?thesis by auto
  next
    case (Some dd)
    then have run: "take_in config env req source (Some x) v = Inr ((d, r), w1)" using cases x same by auto
    from run have "same_contents req (ir_record r)"
    proof (rule take_in_cases)
      fix dd st
      assume "append_record config (a_partition req) (a_event_time req) (e_now env) (u_stream v) = Inr (dd, st)"
      then have "finite64 (a_event_time req)"
        by (auto simp: append_record_def observe_def Let_def split: prod.splits option.splits if_splits)
      moreover assume "r = incoming config req source (Some x) v"
      ultimately show ?thesis by (auto simp: same_contents_def incoming_def feq_def)
    qed
    with take_in_ids [OF run] show ?thesis by simp
  qed
  then have kept: "u_ids w2 x = Some r" "same_contents req (ir_record r)" using ids_kept [of w1 x r es config] x assms(6) by (simp_all add: assms(4))
  have ids: "u_ids w3 = u_ids w2" if "claim_for env' req source w2 = Inr w3" for w3
    by (subst claim_for_same [OF that]) simp
  show ?thesis
    using ok(1,3) ok(2)[unfolded same] x kept assms(2,5) ids same
    by (cases "claim_for env' req source w2") (simp_all add: append_one_def and_then_def ensure_def)
qed

section \<open>Fencing\<close>

definition later_lease :: "nat \<Rightarrow> SourceLease \<Rightarrow> SourceLease \<Rightarrow> bool" where
  "later_lease m l l' \<longleftrightarrow> unat (lease_epoch l) \<le> unat (lease_epoch l') \<and> unat (lease_epoch l') \<le> unat (lease_epoch l) + m
     \<and> (lease_epoch l' = lease_epoch l \<longrightarrow> lease_source l' = lease_source l)"

definition leases_later :: "nat \<Rightarrow> (nat \<rightharpoonup> SourceLease) \<Rightarrow> (nat \<rightharpoonup> SourceLease) \<Rightarrow> bool" where
  "leases_later m L L' \<longleftrightarrow> (\<forall>p l. L p = Some l \<longrightarrow> unat (lease_epoch l) + m < 2 ^ 64 \<longrightarrow> (\<exists>l'. L' p = Some l' \<and> later_lease m l l'))"

lemma leases_later_refl [simp]: "leases_later m L L"
  by (auto simp: leases_later_def later_lease_def)

lemma leases_later_trans:
  assumes "leases_later m L L'" "leases_later k L' L''"
  shows "leases_later (m + k) L L''"
  unfolding leases_later_def
proof (intro allI impI)
  fix p l
  assume l: "L p = Some l" "unat (lease_epoch l) + (m + k) < 2 ^ 64"
  then have "unat (lease_epoch l) + m < 2 ^ 64" by simp
  then obtain l' where l': "L' p = Some l'" "later_lease m l l'" using assms(1) l(1) unfolding leases_later_def by blast
  then have "unat (lease_epoch l') + k < 2 ^ 64" using l(2) by (simp add: later_lease_def)
  then obtain l'' where l'': "L'' p = Some l''" "later_lease k l' l''" using assms(2) l'(1) unfolding leases_later_def by blast
  have "later_lease (m + k) l l''"
    using l'(2) l''(2) by (auto simp: later_lease_def word_unat_eq_iff)
  with l''(1) show "\<exists>l''. L'' p = Some l'' \<and> later_lease (m + k) l l''" by blast
qed

lemma claim_later:
  assumes "claim_source_partition part s epoch secs now L = Inr L'"
  shows "leases_later 1 L L'"
  unfolding leases_later_def
proof (intro allI impI)
  fix p l
  assume l: "L p = Some l" "unat (lease_epoch l) + 1 < 2 ^ 64"
  have up: "unat (lease_epoch l + 1) = unat (lease_epoch l) + 1" using l(2) by (simp add: unat_word_ariths(1) take_bit_nat_eq_self)
  then have "lease_epoch l + 1 \<noteq> lease_epoch l" by auto
  with assms l up show "\<exists>l'. L' p = Some l' \<and> later_lease 1 l l'"
    by (cases "p = part") (auto simp: claim_source_partition_def later_lease_def Let_def split: if_splits option.splits)
qed

lemma claim_holder:
  assumes "claim_source_partition part s (Some e) secs now L = Inr L'" "L part = Some l"
  shows "lease_epoch l = e \<and> lease_source l = s"
  using assms by (auto simp: claim_source_partition_def Let_def split: if_splits)

lemma append_one_leases:
  assumes "append_one config env req w = Inr ((d, r), w')"
  shows "leases_later 1 (u_leases w) (u_leases w')"
  using assms
proof (rule append_one_cases)
  fix source v
  assume claim: "claim_for env req source w = Inr v"
    and cases: "(d = None \<and> w' = v \<and> (\<exists>x. effective_event_id req source = Some x \<and> u_ids w x = Some r \<and> same_contents req (ir_record r)))
        \<or> (d \<noteq> None \<and> take_in config env req source (effective_event_id req source) v = Inr ((d, r), w')
            \<and> (\<forall>x. effective_event_id req source = Some x \<longrightarrow> u_ids w x = None))"
  have "u_leases w' = u_leases v" using cases by (auto elim!: take_in_cases simp: with_record_def)
  with claim show ?thesis by (auto simp: claim_for_def split: option.splits prod.splits intro: claim_later [unfolded One_nat_def])
qed

lemma append_all_leases: "append_all config reqs w = Inr (responses, w') \<Longrightarrow> leases_later (length reqs) (u_leases w) (u_leases w')"
proof (induction config reqs w arbitrary: responses rule: append_all.induct)
  case (2 config env req reqs w)
  then obtain d r v rest where v: "append_one config env req w = Inr ((d, r), v)" "append_all config reqs v = Inr (rest, w')"
    by auto
  from leases_later_trans [OF append_one_leases [OF v(1)] 2(1) [OF v(2)]] v(1) show ?case by simp
qed simp

text \<open>The epochs that a request may open.\<close>

fun claims_in :: "'v IngestRequest \<Rightarrow> nat" where
  "claims_in (AppendRecords discards reqs) = length reqs"
| "claims_in (ClaimSource now part s secs) = 1"
| "claims_in _ = 0"

lemma step_leases: "leases_later (claims_in e) (u_leases w) (u_leases (ingest_step config w e))"
proof (cases "ingest_transaction config w e")
  case (Inr w')
  then have "leases_later (claims_in e) (u_leases w) (u_leases w')"
    by (cases e) (auto simp: record_stream_batch_def stored_stream_def claim_source_def discard_input_def Let_def split: sum.splits dest!: append_all_leases intro: claim_later [unfolded One_nat_def])
  with Inr show ?thesis by (simp add: ingest_step_def)
qed (simp add: ingest_step_def)

lemma run_leases: "leases_later (sum_list (map claims_in es)) (u_leases w) (u_leases (foldl (ingest_step config) w es))"
proof (induction es arbitrary: w)
  case (Cons e es)
  from leases_later_trans [OF step_leases Cons.IH] show ?case by simp
qed simp

text \<open>
  C17. A writer that was replaced is fenced off. Once the lease of a partition was held by a source under an epoch,
  then, after any further requests and whatever the clocks say, a record that is sent with an epoch is
  taken in (or answered) only if its epoch is as late, and under that very epoch only from that source.
\<close>

theorem replaced_writer_fenced:
  assumes "u_leases w part = Some l" "unat (lease_epoch l) + sum_list (map claims_in es) < 2 ^ 64"
    and "append_one config env req (foldl (ingest_step config) w es) = Inr (response, w')"
    and "a_partition req = part" "source_of req = Inr (Some (s, p, k))" "a_source_epoch req = Some e"
  shows "unat (lease_epoch l) \<le> unat e \<and> (e = lease_epoch l \<longrightarrow> s = lease_source l)"
proof -
  let ?w = "foldl (ingest_step config) w es"
  obtain l' where l': "u_leases ?w part = Some l'" "later_lease (sum_list (map claims_in es)) l l'"
    using run_leases [of es w config] assms(1,2) unfolding leases_later_def by blast
  obtain d r where response: "response = (d, r)" by fastforce
  from assms(3)[unfolded response] have "\<exists>L. claim_source_partition part s (Some e) (e_lease_seconds env) (e_now env) (u_leases ?w) = Inr L"
    by (rule append_one_cases) (use assms(4-6) in \<open>auto simp: claim_for_def\<close>)
  then have "lease_epoch l' = e \<and> lease_source l' = s" using claim_holder l'(1) by blast
  with l'(2) show ?thesis by (auto simp: later_lease_def)
qed

section \<open>A duplicate stops its source\<close>

lemma append_one_stuck:
  assumes "append_one config env req w = Inr ((d, r), w')"
    and w: "u_ids w x \<noteq> None" "next_source_offset w s p = k"
    and req: "source_of req = Inr (Some (s, p, k)) \<Longrightarrow> a_event_id req = Some x"
  shows "next_source_offset w' s p = k" and "source_of req = Inr (Some (s, p, j)) \<Longrightarrow> d = None"
proof -
  from assms(1) have "next_source_offset w' s p = k \<and> (\<forall>j. source_of req = Inr (Some (s, p, j)) \<longrightarrow> d = None)"
  proof (rule append_one_cases)
    fix source v
    assume source: "source_of req = Inr source" and v: "v = w\<lparr> u_leases := u_leases v \<rparr>"
      and cases: "(d = None \<and> w' = v \<and> (\<exists>x. effective_event_id req source = Some x \<and> u_ids w x = Some r \<and> same_contents req (ir_record r)))
        \<or> (d \<noteq> None \<and> take_in config env req source (effective_event_id req source) v = Inr ((d, r), w')
            \<and> (\<forall>x. effective_event_id req source = Some x \<longrightarrow> u_ids w x = None))"
    have same: "next_source_offset v s p = k" using w(2) by (subst v) (simp add: next_source_offset_def)
    show ?thesis
    proof (cases d)
      case None
      with cases same show ?thesis by auto
    next
      case (Some dd)
      then have fresh: "\<forall>x. effective_event_id req source = Some x \<longrightarrow> u_ids w x = None"
        and run: "take_in config env req source (effective_event_id req source) v = Inr ((d, r), w')" using cases by auto
      have other: "source \<noteq> Some (s, p, j)" for j
      proof
        assume j: "source = Some (s, p, j)"
        from run have "j = k" by (rule take_in_cases) (use j same in blast)
        then have "a_event_id req = Some x" using req source j by simp
        with fresh w(1) show False by (simp add: effective_event_id_def)
      qed
      from run have "next_source_offset w' s p = k"
        by (rule take_in_cases) (use other same in \<open>auto simp: next_offset_with_record split: option.splits\<close>)
      with other source show ?thesis by simp
    qed
  qed
  then show "next_source_offset w' s p = k" "source_of req = Inr (Some (s, p, j)) \<Longrightarrow> d = None" by blast+
qed

lemma append_all_stuck:
  assumes "append_all config reqs w = Inr (responses, w')" "u_ids w x \<noteq> None" "next_source_offset w s p = k"
    "\<forall>req \<in> snd ` set reqs. source_of req = Inr (Some (s, p, k)) \<longrightarrow> a_event_id req = Some x"
  shows "next_source_offset w' s p = k"
  using assms
proof (induction config reqs w arbitrary: responses rule: append_all.induct)
  case (2 config env req reqs w)
  then obtain d r v rest where v: "append_one config env req w = Inr ((d, r), v)" "append_all config reqs v = Inr (rest, w')"
    by auto
  have "u_ids v x \<noteq> None" using append_one_ids [OF v(1)] 2(3) unfolding map_le_def by (metis domIff)
  moreover have "next_source_offset v s p = k" using append_one_stuck(1) [OF v(1) 2(3,4)] 2(5) by simp
  ultimately show ?case using 2(1) [OF v(2)] 2(5) by simp
qed simp

lemma step_stuck:
  assumes "u_ids w x \<noteq> None" "next_source_offset w s p = k"
    "\<forall>req \<in> set (requests_in e). source_of req = Inr (Some (s, p, k)) \<longrightarrow> a_event_id req = Some x"
  shows "next_source_offset (ingest_step config w e) s p = k"
proof (cases "ingest_transaction config w e")
  case (Inr w')
  then have "next_source_offset w' s p = k"
  proof (cases e)
    case (AppendRecords discards reqs)
    then obtain responses v where v: "append_all config reqs w = Inr (responses, v)" "w' = record_stream_batch discards responses v"
      using Inr by auto
    have "next_source_offset v s p = k" using append_all_stuck [OF v(1) assms(1,2)] assms(3) AppendRecords by simp
    then show ?thesis by (simp add: v(2) record_stream_batch_def next_source_offset_def Let_def)
  qed (use assms(2) in \<open>auto simp: stored_stream_def claim_source_def discard_input_def next_source_offset_def split: sum.splits\<close>)
  with Inr show ?thesis by (simp add: ingest_step_def)
qed (simp add: ingest_step_def assms(2))

text \<open>
  C31. A duplicate stops its source. When the record at a source's next offset carries an event identifier that
  is already in use, it is answered as a duplicate (or refused) and the cursor stays before it: as long as
  the source sends that record at that offset, and no process that discards its input completes a record with
  that identifier, no sequence of requests moves the cursor, and the records after it are never taken in.
\<close>

theorem duplicate_stops_source:
  assumes "u_ids w x \<noteq> None" "next_source_offset w s p = k"
    and "\<forall>req \<in> set (requests es). source_of req = Inr (Some (s, p, k)) \<longrightarrow> a_event_id req = Some x"
    and "list_all (keeps_id x) es" "w' = foldl (ingest_step config) w es"
  shows "next_source_offset w' s p = k \<and> (\<forall>env req j d r w''. source_of req = Inr (Some (s, p, j)) \<longrightarrow> j \<noteq> k
    \<longrightarrow> append_one config env req w' = Inr ((d, r), w'') \<longrightarrow> d = None)"
proof -
  have "u_ids (foldl (ingest_step config) w es) x \<noteq> None \<and> next_source_offset (foldl (ingest_step config) w es) s p = k"
    using assms(1-4)
  proof (induction es arbitrary: w)
    case (Cons e es)
    have "u_ids (ingest_step config w e) x \<noteq> None" using ids_kept [of w x _ "[e]" config] Cons.prems(1,4) by auto
    moreover have "next_source_offset (ingest_step config w e) s p = k"
      using step_stuck [of w x s p k e config] Cons.prems by (simp add: requests_def)
    ultimately show ?case using Cons by (simp add: requests_def)
  qed simp
  then have w': "u_ids w' x \<noteq> None" "next_source_offset w' s p = k" using assms(5) by simp_all
  have "d = None" if "source_of req = Inr (Some (s, p, j))" "j \<noteq> k" "append_one config env req w' = Inr ((d, r), w'')"
    for env req j d r w''
    using append_one_stuck(2) [OF that(3) w' _ that(1)] that(1,2) by simp
  with w'(2) show ?thesis by blast
qed

section \<open>Examples\<close>

text \<open>A source \<open>a\<close> that writes to the only partition of a stream.\<close>

definition at_time :: "int \<Rightarrow> Surroundings" where
  "at_time now = \<lparr> e_now = num now, e_owned = True, e_room = True, e_downstream = True, e_lease_seconds = num 30 \<rparr>"

definition sourced :: "64 word \<Rightarrow> int \<Rightarrow> nat \<Rightarrow> jsstr option \<Rightarrow> nat AppendRequest" where
  "sourced offset t val event_id = \<lparr> a_partition = 0, a_event_time = num t, a_key = Some [1], a_value = val, a_kind = Insert,
     a_event_id = event_id, a_source_id = Some [97], a_source_partition = Some 0, a_source_offset = Some offset,
     a_source_epoch = None, a_source_checkpoint = None \<rparr>"

definition sent :: "int \<Rightarrow> nat AppendRequest \<Rightarrow> nat IngestRequest" where
  "sent now req = AppendRecords False [(at_time now, req)]"

lemmas ingest_simps = run_simps ingest_step_def claim_source_def new_ingest_def sent_def sourced_def at_time_def append_one_def and_then_def ensure_def
  source_of_def rust_blank_def claim_for_def claim_source_partition_def effective_event_id_def same_contents_def take_in_def
  next_source_offset_def record_stream_batch_def

text \<open>The first record is sent twice, then the second one, which is earlier, and out of turn the fourth.\<close>

definition retried :: "nat IngestRequest list" where
  "retried = [sent 1 (sourced 0 8 10 (Some [120])), sent 2 (sourced 0 8 10 (Some [120])), sent 3 (sourced 1 6 11 (Some [121])),
     sent 4 (sourced 3 9 13 (Some [123]))]"

lemma retried_run:
  "map (\<lambda>r. r_value (ir_record r)) (u_log (foldl (ingest_step (one_stream ())) (new_ingest (one_stream ()) (num 0)) retried)) = [10, 11]"
  "next_source_offset (foldl (ingest_step (one_stream ())) (new_ingest (one_stream ()) (num 0)) retried) [97] 0 = 2"
  by (simp_all add: retried_def ingest_simps)

lemma source_exactly_once_witness:
  "\<exists>w rs. w = foldl (ingest_step (one_stream ())) (new_ingest (one_stream ()) (num 0)) retried
     \<and> map (\<lambda>r. r_value (ir_record r)) (u_log w) = [10, 11]
     \<and> map (record_contents \<circ> ir_record) rs = [(0, num 8, Some [1], 10, Insert), (0, num 6, Some [1], 11, Insert)]
     \<and> filter (from_source [97] 0) (u_log w) = filter (goes_to_log (one_stream ())) rs"
proof -
  let ?w = "foldl (ingest_step (one_stream ())) (new_ingest (one_stream ()) (num 0)) retried"
  let ?f = "\<lambda>k. (0, if k = 0 then num 8 else if k = 1 then num 6 else num 9, Some [1], k + 10, Insert)"
  have "list_all doubles_in retried" by (simp add: retried_def sent_def sourced_def valid64_num)
  moreover have "\<forall>req \<in> set (requests retried). \<forall>k. source_of req = Inr (Some ([97], 0, k)) \<longrightarrow> contents req = ?f (unat k)"
  proof -
    have requests: "requests retried = [sourced 0 8 10 (Some [120]), sourced 0 8 10 (Some [120]), sourced 1 6 11 (Some [121]),
        sourced 3 9 13 (Some [123])]" by (simp add: requests_def retried_def sent_def)
    have "source_of (sourced k t v x) = Inr (Some ([97], 0, k))" for k t v x
      by (simp add: source_of_def sourced_def rust_blank_def)
    then show ?thesis unfolding requests by (simp add: contents_def sourced_def)
  qed
  moreover have "length (requests retried) < 2 ^ 64" by (simp add: requests_def retried_def sent_def)
  moreover have "2 = unat (next_source_offset (foldl (ingest_step (one_stream ())) (new_ingest (one_stream ()) (num 0)) retried) [97] 0)"
    by (simp add: retried_run(2))
  ultimately have "\<exists>rs. map ir_source rs = map (\<lambda>k. Some ([97], 0, of_nat k)) [0..<2] \<and> map (record_contents \<circ> ir_record) rs = map ?f [0..<2]
      \<and> sorted_wrt (<) (map (r_sequence \<circ> ir_record) rs)
      \<and> (\<exists>D. (slot_of \<circ> ir_record) ` D \<subseteq> discarded_slots retried \<and> filter (from_source [97] 0) (u_log ?w)
           = filter (\<lambda>r. goes_to_log (one_stream ()) r \<and> r \<notin> D) rs)
      \<and> filter (from_source [97] 0) (u_late ?w) = filter (goes_aside (one_stream ())) rs"
    by (intro source_exactly_once [OF one_stream_valid _ _ _ refl])
  then obtain rs D where rs: "map (record_contents \<circ> ir_record) rs = map ?f [0..<2]"
      "(slot_of \<circ> ir_record) ` D \<subseteq> discarded_slots retried"
      "filter (from_source [97] 0) (u_log ?w) = filter (\<lambda>r. goes_to_log (one_stream ()) r \<and> r \<notin> D) rs"
    by (elim exE conjE) (rule that)
  have "discarded_slots retried = {}" by (simp add: discarded_slots_def retried_def sent_def)
  then have "D = {}" using rs(2) by simp
  then show ?thesis using retried_run(1) rs(1,3) by (intro exI [of _ ?w] exI [of _ rs] conjI) (simp_all add: upt_rec)
qed

text \<open>The second request of that run is the first one again.\<close>

lemma retry_answered_once_witness:
  "\<exists>d r w1. append_one (one_stream ()) (at_time 1) (sourced 0 8 10 None) (new_ingest (one_stream ()) (num 0)) = Inr ((Some d, r), w1)
     \<and> append_one (one_stream ()) (at_time 2) (sourced 0 8 10 None) (foldl (ingest_step (one_stream ())) w1 [])
       = map_sum id (\<lambda>w3. ((None, r), w3)) (claim_for (at_time 2) (sourced 0 8 10 None) (Some ([97], 0, 0)) w1)"
proof -
  have "\<exists>d r w1. append_one (one_stream ()) (at_time 1) (sourced 0 8 10 None) (new_ingest (one_stream ()) (num 0)) = Inr ((Some d, r), w1)"
    by (simp add: ingest_simps source_event_id_def lit_def)
  then obtain d r w1 where run: "append_one (one_stream ()) (at_time 1) (sourced 0 8 10 None) (new_ingest (one_stream ()) (num 0)) = Inr ((Some d, r), w1)"
    by blast
  have source: "source_of (sourced 0 8 10 None) = Inr (Some ([97], 0, 0))" by (simp add: sourced_def source_of_def rust_blank_def)
  have "effective_event_id (sourced 0 8 10 None) (Some ([97], 0, 0)) \<noteq> None" by (simp add: effective_event_id_def sourced_def)
  from retry_answered_once [OF run source this, where es = "[]" and env' = "at_time 2"] run show ?thesis
    by (simp add: at_time_def)
qed

text \<open>The lease of source \<open>a\<close> under its first epoch is gone when another source has claimed the partition.\<close>

definition with_epoch :: "64 word \<Rightarrow> nat AppendRequest" where
  "with_epoch e = (sourced 0 8 10 (Some [120]))\<lparr> a_source_id := Some [98], a_source_epoch := Some e \<rparr>"

definition claims :: "nat IngestRequest list" where
  "claims = [ClaimSource (num 50) 0 [98] (num 30)]"

lemma replaced_writer_fenced_witness:
  "\<exists>w l response w'. u_leases w 0 = Some l \<and> lease_source l = [97] \<and> lease_epoch l = 1
     \<and> append_one (one_stream ()) (at_time 60) (with_epoch 2) (foldl (ingest_step (one_stream ())) w claims) = Inr (response, w')
     \<and> unat (lease_epoch l) \<le> unat (2 :: 64 word)"
proof -
  let ?w = "ingest_step (one_stream ()) (new_ingest (one_stream ()) (num 0)) (sent 1 (sourced 0 8 10 (Some [121])))"
  let ?l = "\<lparr> lease_source = [97], lease_epoch = 1, lease_expires = num 31 \<rparr>"
  have l: "u_leases ?w 0 = Some ?l" by (simp add: ingest_simps)
  have "\<exists>response w'. append_one (one_stream ()) (at_time 60) (with_epoch 2) (foldl (ingest_step (one_stream ())) ?w claims) = Inr (response, w')"
    by (simp add: ingest_simps claims_def with_epoch_def)
  then obtain response w' where run: "append_one (one_stream ()) (at_time 60) (with_epoch 2) (foldl (ingest_step (one_stream ())) ?w claims) = Inr (response, w')"
    by blast
  have "unat (lease_epoch ?l) \<le> unat (2 :: 64 word) \<and> (2 = lease_epoch ?l \<longrightarrow> [98] = lease_source ?l)"
    by (rule replaced_writer_fenced [OF l _ run, where s = "[98]" and p = 0 and k = 0])
      (simp_all add: claims_def with_epoch_def sourced_def source_of_def rust_blank_def)
  with l run show ?thesis by (intro exI [of _ ?w] exI [of _ ?l] exI [of _ response] exI [of _ w']) auto
qed

text \<open>The second record has the identifier of the first: the third is never taken in.\<close>

definition stopped :: "nat IngestRequest list" where
  "stopped = [sent 1 (sourced 0 8 10 (Some [120])), sent 2 (sourced 1 8 10 (Some [120])), sent 3 (sourced 2 9 11 (Some [121]))]"

lemma stopped_run:
  "map (\<lambda>r. r_value (ir_record r)) (u_log (foldl (ingest_step (one_stream ())) (new_ingest (one_stream ()) (num 0)) stopped)) = [10]"
  by (simp add: stopped_def ingest_simps)

text \<open>When the first record has been completed by a process that discards its input, the second is taken in.\<close>

lemma discarded_then_taken:
  assumes "w = foldl (ingest_step (one_stream ())) (new_ingest (one_stream ()) (num 0)) stopped"
    and "w' = foldl (ingest_step (one_stream ())) w [CompleteInput (hd (u_log w)), sent 4 (sourced 1 8 10 (Some [120]))]"
  shows "next_source_offset w [97] 0 = 1" and "next_source_offset w' [97] 0 = 2"
    and "map (\<lambda>r. r_offset (ir_record r)) (u_log w') = [1]"
  unfolding assms by (simp_all add: stopped_def discard_input_def ingest_simps)

lemma duplicate_stops_source_witness:
  "\<exists>w w'. w = ingest_step (one_stream ()) (new_ingest (one_stream ()) (num 0)) (sent 1 (sourced 0 8 10 (Some [120])))
     \<and> w' = foldl (ingest_step (one_stream ())) w [sent 2 (sourced 1 8 10 (Some [120])), sent 3 (sourced 2 9 11 (Some [121]))]
     \<and> next_source_offset w' [97] 0 = 1 \<and> map (\<lambda>r. r_value (ir_record r)) (u_log w') = [10]"
proof -
  let ?w = "ingest_step (one_stream ()) (new_ingest (one_stream ()) (num 0)) (sent 1 (sourced 0 8 10 (Some [120])))"
  let ?es = "[sent 2 (sourced 1 8 10 (Some [120])), sent 3 (sourced 2 9 11 (Some [121]))]"
  have "u_ids ?w [120] \<noteq> None" "next_source_offset ?w [97] 0 = 1" by (simp_all add: ingest_simps)
  moreover have "\<forall>req \<in> set (requests ?es). source_of req = Inr (Some ([97], 0, 1)) \<longrightarrow> a_event_id req = Some [120]"
    by (simp add: requests_def sent_def sourced_def source_of_def rust_blank_def)
  moreover have "list_all (keeps_id [120]) ?es" by (simp add: keeps_id_def sent_def)
  ultimately have "next_source_offset (foldl (ingest_step (one_stream ())) ?w ?es) [97] 0 = 1"
    using duplicate_stops_source [OF _ _ _ _ refl, of ?w "[120]" "[97]" 0 1 ?es "one_stream ()"] by blast
  moreover have "map (\<lambda>r. r_value (ir_record r)) (u_log (foldl (ingest_step (one_stream ())) ?w ?es)) = [10]"
    using stopped_run by (simp add: stopped_def)
  ultimately show ?thesis by (intro exI conjI) (rule refl | assumption)+
qed

end
