(* ===== verification/StreamFilter.thy ===== *)
theory StreamFilter
  imports StreamServer JsText
begin

text \<open>
  Stream filters of the server: \<open>field_value\<close>, \<open>matches_filter\<close>, \<open>emit_stream_filter_record\<close> and
  \<open>refresh_stream_filters\<close> of \<open>crates/server/src/operators.rs\<close>, \<open>StreamFilter\<close> and \<open>Comparison\<close> of
  \<open>streaming.rs\<close>, and \<open>create_stream_filter\<close> of \<open>stream_api.rs\<close>. A filter is an operator of the server
  (\<open>stream_operator\<close>) with no condition on the late policy of its stream. It is proved to pass on exactly
  the records that match, each once, those from before its creation included.
\<close>

section \<open>Values\<close>

text \<open>A value of a record is one of \<open>serde_json\<close>. What the server asks of it is a parameter: an object's entry,
  the number that a value is, and equality.\<close>

record 'v Json =
  json_get :: "'v \<Rightarrow> jsstr \<Rightarrow> 'v option"
  json_as_f64 :: "'v \<Rightarrow> f64 option"
  json_eq :: "'v \<Rightarrow> 'v \<Rightarrow> bool"

fun split_on :: "code_unit \<Rightarrow> jsstr \<Rightarrow> jsstr list" where
  "split_on c [] = [[]]"
| "split_on c (u # us) = (if u = c then [] # split_on c us
     else case split_on c us of [] \<Rightarrow> [[u]] | p # ps \<Rightarrow> (u # p) # ps)"

definition field_value :: "'v Json \<Rightarrow> 'v \<Rightarrow> jsstr \<Rightarrow> 'v option" where
  "field_value json v field =
     foldl (\<lambda>current segment. Option.bind current (\<lambda>v. json_get json v segment)) (Some v) (split_on 46 field)"

section \<open>The operator\<close>

datatype Comparison = Equal | NotEqual | GreaterThan | GreaterThanOrEqual | LessThan | LessThanOrEqual

record ('i, 'v) StreamFilter =
  w_stream :: 'i
  w_field :: jsstr
  w_comparison :: Comparison
  w_operand :: 'v
  w_outputs :: "'v StreamRecord list"
  w_changes :: "'v StreamRecord list"
  w_records_received :: "64 word"
  w_records_emitted :: "64 word"

definition new_filter :: "'i \<Rightarrow> jsstr \<Rightarrow> Comparison \<Rightarrow> 'v \<Rightarrow> ('i, 'v) StreamFilter" where
  "new_filter input field comparison operand = \<lparr> w_stream = input, w_field = field, w_comparison = comparison,
     w_operand = operand, w_outputs = [], w_changes = [], w_records_received = 0, w_records_emitted = 0 \<rparr>"

definition matches_filter :: "'v Json \<Rightarrow> ('i, 'v) StreamFilter \<Rightarrow> 'v StreamRecord \<Rightarrow> bool" where
  "matches_filter json f r =
     (case field_value json (r_value r) (w_field f) of
        None \<Rightarrow> False
      | Some v \<Rightarrow>
          (case w_comparison f of
             Equal \<Rightarrow> json_eq json v (w_operand f)
           | NotEqual \<Rightarrow> \<not> json_eq json v (w_operand f)
           | comparison \<Rightarrow>
               (case (json_as_f64 json v, json_as_f64 json (w_operand f)) of
                  (Some left, Some right) \<Rightarrow>
                    (case comparison of GreaterThan \<Rightarrow> flt right left | GreaterThanOrEqual \<Rightarrow> fle right left
                     | LessThan \<Rightarrow> flt left right | LessThanOrEqual \<Rightarrow> fle left right | _ \<Rightarrow> False)
                | _ \<Rightarrow> False)))"

definition emit_stream_filter_record :: "'v StreamRecord \<Rightarrow> ('i, 'v) StreamFilter \<Rightarrow> ('i, 'v) StreamFilter" where
  "emit_stream_filter_record r f =
     (if get_by slot_of (slot_of r) (w_outputs f) \<noteq> None then f
      else f\<lparr> w_outputs := put_by slot_of r (w_outputs f), w_changes := w_changes f @ [r],
              w_records_emitted := w_records_emitted f + 1 \<rparr>)"

definition filter_record :: "'v Json \<Rightarrow> 'v StreamRecord \<Rightarrow> ('i, 'v) StreamFilter \<Rightarrow> ('i, 'v) StreamFilter" where
  "filter_record json r f =
     (let f = f\<lparr> w_records_received := w_records_received f + 1 \<rparr>
      in if matches_filter json f r then emit_stream_filter_record r f else f)"

definition refresh_stream_filters :: "'v Json \<Rightarrow> ('i \<times> 'v StreamRecord) option \<Rightarrow> ('i, 'v) StreamFilter \<Rightarrow> ('i, 'v) StreamFilter" where
  "refresh_stream_filters json entry f = (case entry of None \<Rightarrow> f
   | Some (i, r) \<Rightarrow> if i = w_stream f then filter_record json r f else f)"

definition create_stream_filter :: "'v Json \<Rightarrow> ('v StreamRecord list \<Rightarrow> 'v StreamRecord list) \<Rightarrow> ('i, 'v) StreamFilter
    \<Rightarrow> ('i \<Rightarrow> 'v StreamRecord list) \<Rightarrow> ('i, 'v) StreamFilter" where
  "create_stream_filter json scan f logs = fold (filter_record json) (scan (logs (w_stream f))) f"

definition read_stream_filter_outputs :: "('v StreamRecord list \<Rightarrow> 'v StreamRecord list) \<Rightarrow> ('i, 'v) StreamFilter
    \<Rightarrow> 'v StreamRecord list" where
  "read_stream_filter_outputs scan f = sort_key r_sequence (scan (w_outputs f))"

text \<open>No stream is asked for its late policy.\<close>

definition filtering :: "'v Json \<Rightarrow> ('v StreamRecord list \<Rightarrow> 'v StreamRecord list) \<Rightarrow> ('i, 'v) StreamFilter \<Rightarrow> ('i \<Rightarrow> StreamConfig)
    \<Rightarrow> ('i, 'v, ('i, 'v) StreamFilter) OperatorSetup" where
  "filtering json scan f configs = \<lparr> m_config = configs, m_inputs = [], m_create = \<lambda>logs. Some (create_stream_filter json scan f logs),
     m_refresh = \<lambda>states entry f. Some (refresh_stream_filters json entry f) \<rparr>"

section \<open>What a filter passes on\<close>

definition filter_spec :: "('i, 'v) StreamFilter \<Rightarrow> 'i \<times> jsstr \<times> Comparison \<times> 'v" where
  "filter_spec f = (w_stream f, w_field f, w_comparison f, w_operand f)"

definition passed_on :: "'v Json \<Rightarrow> ('i, 'v) StreamFilter \<Rightarrow> 'v StreamRecord list \<Rightarrow> ('i, 'v) StreamFilter \<Rightarrow> bool" where
  "passed_on json f0 rs f \<longleftrightarrow> filter_spec f = filter_spec f0
     \<and> mset (w_outputs f) = mset (filter (matches_filter json f0) rs) \<and> mset (w_changes f) = mset (w_outputs f)
     \<and> w_records_received f = of_nat (length rs) \<and> w_records_emitted f = of_nat (length (w_outputs f))"

lemma matches_spec:
  assumes "filter_spec f = filter_spec f'"
  shows "matches_filter json f = matches_filter json f'"
proof -
  from assms have "w_field f = w_field f'" "w_comparison f = w_comparison f'" "w_operand f = w_operand f'"
    by (simp_all add: filter_spec_def)
  then show ?thesis by (simp only: matches_filter_def fun_eq_iff simp_thms)
qed

lemma filter_record_passed:
  assumes f: "passed_on json f0 rs f" and r: "slot_of r \<notin> slot_of ` set rs"
  shows "passed_on json f0 (rs @ [r]) (filter_record json r f)"
proof -
  have spec: "filter_spec f = filter_spec f0" using f by (simp add: passed_on_def)
  have "set (w_outputs f) = set (filter (matches_filter json f0) rs)" using f by (intro mset_eq_setD) (simp add: passed_on_def)
  then have fresh: "slot_of r \<notin> slot_of ` set (w_outputs f)" using r by auto
  then have "\<forall>x \<in> set (w_outputs f). slot_of x \<noteq> slot_of r" by (metis image_eqI)
  then have put: "put_by slot_of r (w_outputs f) = w_outputs f @ [r]" by (simp add: put_by_def filter_id_conv)
  have none: "get_by slot_of (slot_of r) (w_outputs f) = None" using fresh by (simp only: get_by_None not_False_eq_True)
  have same: "matches_filter json (f\<lparr> w_records_received := n \<rparr>) = matches_filter json f0" for n
    using spec by (intro matches_spec) (simp add: filter_spec_def)
  have "filter_record json r f = (let f' = f\<lparr> w_records_received := w_records_received f + 1 \<rparr> in
      if matches_filter json f0 r then f'\<lparr> w_outputs := w_outputs f @ [r], w_changes := w_changes f @ [r],
        w_records_emitted := w_records_emitted f + 1 \<rparr> else f')"
    by (simp add: filter_record_def emit_stream_filter_record_def same none put Let_def)
  then show ?thesis using f by (simp add: passed_on_def filter_spec_def Let_def)
qed

lemma filter_records_passed:
  "passed_on json f0 rs f \<Longrightarrow> inj_on slot_of (set (rs @ qs)) \<Longrightarrow> distinct (rs @ qs) \<Longrightarrow> passed_on json f0 (rs @ qs) (fold (filter_record json) qs f)"
proof (induction qs arbitrary: rs f)
  case (Cons q qs)
  then have "slot_of q \<notin> slot_of ` set rs" by (auto simp: inj_on_def)
  from filter_record_passed [OF Cons.prems(1) this] Cons.IH [of "rs @ [q]"] Cons.prems(2,3) show ?case by simp
qed simp

lemma passed_on_cong: "passed_on json f0 rs f \<Longrightarrow> mset rs = mset rs' \<Longrightarrow> passed_on json f0 rs' f"
  unfolding passed_on_def by (metis mset_filter size_mset)

interpretation stream_filter: stream_operator "filtering json scan (new_filter input field comparison operand) configs" "scans scan"
  "\<lambda>t. True" "\<lambda>F logs f. passed_on json (new_filter input field comparison operand) (logs input) f"
  for json and scan and input :: 'i and field comparison operand configs
proof unfold_locales
  let ?new = "new_filter input field comparison operand"
  fix logs f
  assume scan: "scans scan" and logs: "logs_ok (\<lambda>t. True) logs" and run: "m_create (filtering json scan ?new configs) logs = Some f"
  have "mset (scan (logs input)) = mset (logs input)" using scan by (simp add: scans_def)
  moreover from this have "distinct (scan (logs input))" "inj_on slot_of (set (scan (logs input)))"
    using logs in_sequence_distinct mset_eq_imp_distinct_iff mset_eq_setD unfolding logs_ok_def by metis+
  moreover have "passed_on json ?new [] ?new" by (simp add: passed_on_def new_filter_def)
  ultimately have "passed_on json ?new (scan (logs input)) (fold (filter_record json) (scan (logs input)) ?new)"
    using filter_records_passed [where rs = "[]" and qs = "scan (logs input)" and json = json and f = ?new] by simp
  moreover have "f = fold (filter_record json) (scan (logs input)) ?new"
    using run by (simp add: filtering_def create_stream_filter_def new_filter_def)
  ultimately show "passed_on json ?new (logs input) f"
    using \<open>mset (scan (logs input)) = mset (logs input)\<close> passed_on_cong by metis
next
  let ?new = "new_filter input field comparison operand" and ?ops = "filtering json scan (new_filter input field comparison operand) configs"
  fix F logs logs' states entry f f'
  assume f: "passed_on json ?new (logs input) f" and logs': "logs_ok (\<lambda>t. True) logs'"
    and rec: "entered (m_inputs ?ops) F logs entry logs'" and run: "m_refresh ?ops states entry f = Some f'"
  have stream: "w_stream f = input" using f by (simp add: passed_on_def filter_spec_def new_filter_def)
  have f': "f' = refresh_stream_filters json entry f" using run by (simp add: filtering_def)
  show "passed_on json ?new (logs' input) f'"
  proof (cases entry)
    case None
    with f rec show ?thesis by (simp add: f' entered_def refresh_stream_filters_def)
  next
    case (Some e)
    obtain i r where e: "entry = Some (i, r)" using Some by fastforce
    then have logs_r: "logs' = logs(i := logs i @ [r])" using rec by (simp add: entered_def)
    have "slot_of r \<notin> slot_of ` set (logs i)"
    proof -
      have "inj_on slot_of (set (logs i @ [r]))" "distinct (logs i @ [r])"
        using logs' in_sequence_distinct unfolding logs_ok_def logs_r by (metis fun_upd_same)+
      then show ?thesis by (auto simp: inj_on_def)
    qed
    with f filter_record_passed [OF f] show ?thesis
      by (auto simp: f' e logs_r refresh_stream_filters_def stream)
  qed
qed

text \<open>
  C6. A filter passes on exactly the records that match. Over any requests, accepted or refused (fewer than
  \<open>2 ^ 64\<close>), with any late policies, and with the filter created at any time: reading its outputs gives the
  records of the stream that match, in the order of the stream, those from before its creation included;
  its changes are the same records, each once, and its counts are exact.
\<close>

theorem stream_filter_exact:
  assumes "scans scan" "\<forall>i. validate_config (configs i)" "list_all (operator_request_ok (\<lambda>t. True)) es" "length es < 2 ^ 64"
    and "ops = filtering json scan (new_filter input field comparison operand) configs"
    and "w = foldl (server_step ops) (new_server ops now) es" "n_operator w = Some f"
  shows "let matching = filter (matches_filter json (new_filter input field comparison operand)) (n_logs w input)
    in read_stream_filter_outputs scan f = matching \<and> mset (w_changes f) = mset matching \<and> distinct matching
      \<and> w_records_received f = of_nat (length (n_logs w input)) \<and> w_records_emitted f = of_nat (length matching)"
proof -
  let ?matching = "filter (matches_filter json (new_filter input field comparison operand)) (n_logs w input)"
  have config: "m_config ops = configs" by (simp add: assms(5) filtering_def)
  note run = stream_filter.operator_run [where json = json and scan = scan and input = input and field = field and comparison = comparison
      and operand = operand and configs = configs and es = es and now = now and op = f,
      folded assms(5), unfolded config, OF assms(1-4), folded assms(6), OF assms(7)]
  have out: "mset (w_outputs f) = mset ?matching" using run(1) by (simp add: passed_on_def)
  then have "length (w_outputs f) = length ?matching" by (rule mset_eq_length)
  moreover have seq: "in_sequence (n_logs w input)" using run(2) by (simp add: logs_ok_def)
  then have "in_sequence ?matching" unfolding in_sequence_def by (rule sorted_wrt_filter)
  then have "read_stream_filter_outputs scan f = ?matching"
    using assms(1) out unfolding read_stream_filter_outputs_def by (intro in_sequence_sort) (simp_all add: scans_def)
  moreover have "distinct ?matching" using seq in_sequence_distinct distinct_filter by blast
  ultimately show ?thesis using run(1) by (simp add: passed_on_def Let_def)
qed

section \<open>Examples\<close>

text \<open>A value as \<open>serde_json\<close> documents it: a number is an integer or a double, as it was written, and the
  two are never equal. There are only the kinds of values used below.\<close>

datatype Value = Integer int | Float f64 | Object "(jsstr \<times> Value) list"

definition as_f64 :: "Value \<Rightarrow> f64 option" where
  "as_f64 v = (case v of Integer n \<Rightarrow> Some (mk64 (of_int n)) | Float x \<Rightarrow> Some x | _ \<Rightarrow> None)"

definition get_entry :: "Value \<Rightarrow> jsstr \<Rightarrow> Value option" where
  "get_entry v k = (case v of Object entries \<Rightarrow> map_of entries k | _ \<Rightarrow> None)"

definition json_values :: "Value Json" where
  "json_values = \<lparr> json_get = get_entry, json_as_f64 = as_f64, json_eq = (=) \<rparr>"

text \<open>The field \<open>a.b\<close> of the records is compared with the integer \<open>1\<close>.\<close>

definition amount :: "Value \<Rightarrow> Value" where
  "amount v = Object [([97], Object [([98], v)])]"

lemma field_value_amount: "field_value json_values (amount v) [97, 46, 98] = Some v"
  by (simp add: field_value_def amount_def get_entry_def json_values_def)

lemma json_values_simps: "json_as_f64 json_values = as_f64" "json_eq json_values = (=)"
  by (simp_all add: json_values_def)

text \<open>Equality compares numbers as they were written: \<open>1.0\<close> is not equal to \<open>1\<close>, though it is neither
  less nor greater.\<close>

lemma equal_numbers_differ:
  assumes "\<bar>n\<bar> \<le> 2 ^ 53" "r_value r = amount (Float (num n))"
  shows "\<not> matches_filter json_values (new_filter i [97, 46, 98] Equal (Integer n)) r"
    and "matches_filter json_values (new_filter i [97, 46, 98] NotEqual (Integer n)) r"
    and "matches_filter json_values (new_filter i [97, 46, 98] GreaterThanOrEqual (Integer n)) r"
    and "matches_filter json_values (new_filter i [97, 46, 98] LessThanOrEqual (Integer n)) r"
  using assms by (simp_all add: matches_filter_def new_filter_def field_value_amount as_f64_def mk64_int json_values_simps)

definition amounts :: "(unit, Value) OperatorRequest list" where
  "amounts = [Publish () 0 (num 8) None (amount (Integer 1)) Insert (num 1), Deploy,
     Publish () 0 (num 9) None (amount (Integer 0)) Insert (num 2), Publish () 0 (num 10) None (amount (Float (num 1))) Insert (num 3)]"

definition at_least_one :: "(unit, Value, (unit, Value) StreamFilter) OperatorSetup" where
  "at_least_one = filtering json_values (\<lambda>rs. rs) (new_filter () [97, 46, 98] GreaterThanOrEqual (Integer 1)) one_stream"

lemma amounts_run:
  "\<exists>f. n_operator (foldl (server_step at_least_one) (new_server at_least_one (num 0)) amounts) = Some f
     \<and> map r_value (read_stream_filter_outputs (\<lambda>rs. rs) f) = [amount (Integer 1), amount (Float (num 1))]"
  using field_value_amount mk64_int [of 1] mk64_int [of 0]
  by (simp add: amounts_def at_least_one_def run_simps filtering_def create_stream_filter_def new_filter_def
    refresh_stream_filters_def filter_record_def emit_stream_filter_record_def matches_filter_def as_f64_def json_values_simps
    read_stream_filter_outputs_def)

lemma stream_filter_exact_witness:
  "\<exists>w f. w = foldl (server_step at_least_one) (new_server at_least_one (num 0)) amounts \<and> n_operator w = Some f
     \<and> map r_value (read_stream_filter_outputs (\<lambda>rs. rs) f) = [amount (Integer 1), amount (Float (num 1))]
     \<and> read_stream_filter_outputs (\<lambda>rs. rs) f
       = filter (matches_filter json_values (new_filter () [97, 46, 98] GreaterThanOrEqual (Integer 1))) (n_logs w ())"
proof -
  obtain f where f: "n_operator (foldl (server_step at_least_one) (new_server at_least_one (num 0)) amounts) = Some f"
      "map r_value (read_stream_filter_outputs (\<lambda>rs. rs) f) = [amount (Integer 1), amount (Float (num 1))]"
    by (rule exE [OF amounts_run]) (elim conjE, rule that)
  have "scans (\<lambda>rs :: Value StreamRecord list. rs)" by (simp add: scans_def)
  moreover have "list_all (operator_request_ok (\<lambda>t. True)) amounts" "length amounts < 2 ^ 64"
    by (simp_all add: amounts_def valid64_num)
  ultimately show ?thesis
    using stream_filter_exact [where es = amounts, OF _ _ _ _ at_least_one_def refl f(1)] f one_stream_valid
    unfolding Let_def by (intro exI conjI refl) (rule f | blast)+
qed

end
