(* ===== verification/Spec2Isabelle.thy ===== *)
theory Spec2Isabelle
  imports ConsoleLib ConsoleApi ConsoleNav ConsoleSession ConsoleTimeline ConsoleHistory ConsoleViews
    ConsoleDetail ConsoleShell LandingPage DocsSite EventTime TemporalJoinFinal WindowsFraction ConsoleServer
    ConsoleAnswers ConsoleUi ConsoleBuild Deduplicate SelfJoin SourceIngest StreamFilter
begin

text \<open>
  Highwater is a durable streaming platform: a server and a command line in Rust, an SDK in Python,
  and three JavaScript programs in front of them, the web console (\<open>console/\<close>), the landing page
  (\<open>landing/\<close>) and the documentation site (\<open>website/\<close>). This development models the JavaScript
  programs, and of the server how records come into its streams, the event-time core of these, the
  joins, deduplication and window aggregates over them, and its answers to the console.

  \<^bold>\<open>Foundations.\<close>
  \<^item> \<open>HW_Prelude\<close>: strings as lists of UTF-16 code units, the list operations of JavaScript
    (\<open>slice(-n)\<close>, \<open>at(-1)\<close>, \<open>find\<close> with an update, the stable \<open>sort\<close> and its contract), and the
    interfaces \<open>machine\<close> (an invariant kept by every step) and \<open>forward_machine\<close> (a quantity no step
    lowers) with what holds of every run.
  \<^item> \<open>Binary64\<close>: JavaScript's and Rust's numbers. A number is a rational, an infinity or NaN; every
    operation rounds to nearest even at 53 bits. The locale \<open>rounding\<close> is the contract of the rounding
    (monotone, idempotent, odd, exact on integers up to \<open>2 ^ 53\<close>), interpreted on \<open>round64\<close>. There is
    one zero and one NaN; of the code modelled here only \<open>f64::total_cmp\<close> tells \<open>-0\<close> from \<open>0\<close>, when two
    versions of a key carry those two times, or a window counts both as values.
  \<^item> \<open>JsText\<close>: \<open>Number::toString\<close>, \<open>toFixed\<close>, UTF-16 and UTF-8, \<open>encodeURIComponent\<close>,
    \<open>URLSearchParams\<close>, \<open>btoa\<close>; an identifier that is encoded into a query is read back unchanged.

  \<^bold>\<open>The console\<close>, \<open>console/src\<close>.
  \<^item> \<open>ConsoleTypes\<close> is \<open>types.ts\<close>; \<open>ConsoleLib\<close> is \<open>lib.ts\<close> (\<open>duration\<close>, \<open>title\<close>, \<dots>); \<open>ConsoleApi\<close> is
    \<open>api.ts\<close>: a request is the reply it gets, its errors are the values of a sum type.
  \<^item> \<open>ConsoleNav\<close>: the routes of \<open>App.tsx\<close> over a history of locations. The locale \<open>detail_route\<close> is
    what the pages of a run and of a job share and is interpreted for both.
  \<^item> \<open>ConsoleSession\<close>: \<open>App\<close> and \<open>Login\<close> as a machine (\<open>console\<close>, an interpretation of \<open>machine\<close>) over
    loads, replies in any order, sign-ins and sign-outs, with the throughput trend.
  \<^item> \<open>ConsoleViews\<close>: the overview and the list pages as functions from their props to the texts,
    classes and targets they render; a render that throws is \<open>None\<close>.
  \<^item> \<open>ConsoleTimeline\<close> and \<open>ConsoleHistory\<close>: the views of a run's history. \<open>lanes_spec\<close> is the abstract
    specification of the timeline, and the mutating loop is proved to compute it; the drawing stays
    in the chart; the compact history agrees with the timeline.
  \<^item> \<open>ConsoleDetail\<close>: the pages of a run and of a job as machines over renders, timer ticks and late
    replies (\<open>job_page\<close> interprets \<open>machine\<close>).
  \<^item> \<open>ConsoleShell\<close> composes them: the page that an address renders, the navigation, the sidebar, and
    where the links of all pages to jobs and runs lead.
  \<^item> \<open>ConsoleUi\<close>: the primitives of \<open>ui.tsx\<close>, the headings, and the sign-in form as the trees they return
    (\<open>Markup\<close>). What a visitor can do with the form is a machine of its own (\<open>form\<close>): its submissions go
    through the rendered button. \<open>ConsoleBuild\<close>: what \<open>main.tsx\<close> mounts, and
    the settings of the build.

  \<^bold>\<open>The landing page\<close>: \<open>LandingPage\<close> is \<open>landing/app.js\<close> and \<open>landing/config.js\<close>, with the menu and the
  copy button as machines (\<open>menu\<close>, \<open>copy\<close>). \<^bold>\<open>The documentation site\<close>: \<open>DocsSite\<close> is
  \<open>website/sidebars.js\<close>, \<open>website/docusaurus.config.js\<close> and the components.

  \<^bold>\<open>The server\<close>, \<open>crates/server/src\<close>.
  \<^item> \<open>EventTime\<close> is the watermark of a stream (\<open>streaming.rs\<close>) under the requests that move it
    (\<open>stream_api.rs\<close>), a \<open>forward_machine\<close> (\<open>durable_stream\<close>); \<open>EventFrontier\<close> is the frontier up to which a
    stream is final, the same machine with the frontier as what only moves forward (\<open>frontier\<close>).
  \<^item> \<open>StreamRecords\<close> holds what the operators share: records, kinds of change, and tables with keys.
    \<open>StreamLog\<close> is a stream with its log: the numbers that requests give to records, and the frontier
    that the records to come lie beyond.
  \<^item> \<open>SourceIngest\<close> is how records come in: event identifiers, the cursors and leases of sources, and batches
    (\<open>append_stream_record_transaction\<close>, \<open>claim_source_partition\<close>). The history of a source is its
    specification; what a process that discards its input deletes is part of it (\<open>discard_input\<close>), and an
    identifier is kept until then (\<open>ids\<close>, a \<open>forward_machine\<close>).
  \<^item> \<open>StreamServer\<close> is the server around one operator, with any number of streams. Its locale
    \<open>stream_operator\<close> is the contract of an operator: what it keeps of the records, from any state the
    server may hand it, holds of every run. \<open>Deduplicate\<close> and \<open>IntervalJoin\<close> (\<open>operators.rs\<close>) model the
    two operators, interpret the locale (\<open>deduplicate\<close>, \<open>interval\<close>) and are proved to give what all records
    at once determine (\<open>first_of_key\<close>, \<open>join_all\<close>), in whatever order these came. \<open>SelfJoin\<close> (\<open>selfjoin\<close>) is the
    interval join of a stream with itself, whose outputs depend on the order (\<open>self_joined\<close>).
    \<open>StreamFilter\<close>, the simplest operator, interprets the same locale (\<open>stream_filter\<close>): reading its outputs
    gives the records of the log that match.
  \<^item> \<open>TemporalJoin\<close> is a temporal join over two streams (\<open>operators.rs\<close>) with every transaction that drives
    it, and \<open>TemporalJoinFinal\<close> proves its promises: what it releases is final, at or before the frontier and
    reported once, and nothing is lost.
  \<^item> \<open>Windows\<close> is the window aggregate of a stream (\<open>stream_engine.rs\<close>) with the transactions that drive
    it. \<open>WindowsCorrect\<close> proves that what is counted record by record is what counting all at once gives
    (\<open>recomputed\<close>), on which inputs counting fails, and that the changes it reports replay to its table;
    \<open>WindowsFinal\<close> proves, over every run of the server (\<open>windowed\<close> interprets \<open>machine\<close>), that a window that
    has fired is final and none is forgotten, and that a window which has not fired when the stream is
    sealed and the hundred due windows are done stays behind unless another schedule is created on the
    stream; \<open>WindowsFraction\<close> shows how schedules in fractions lose windows or count a record twice, and a
    time beyond \<open>2 ^ 53\<close> at which the loop does not end.
  \<^item> \<open>ConsoleServer\<close> is the overview's answer (\<open>console.rs\<close>) composed with the console's page, and
    \<open>ConsoleAnswers\<close> its rows of streams and processes and its durability summary, which are of the types
    that the console relies on.

  \<^bold>\<open>Bounds.\<close> The loop over the windows of a record is a \<open>partial_function\<close>, and it is proved to return for
  schedules and times in whole numbers; the loop that fires windows counts down from the code's own
  limit of 100. Nothing else uses fuel: every other loop is a fold or structurally recursive. Theorems
  about computed numbers bound their inputs by \<open>2 ^ 50\<close> to \<open>2 ^ 53\<close> in size (counters, Unix times),
  where the format holds every integer; the hypotheses say so (\<open>small_times\<close>, \<open>counted_process\<close>,
  \<open>whole_schedule\<close>, \<dots>); for windows this is also where sums of slides are exact.
  Offsets, sequence numbers and epochs are 64-bit words; the theorems on logs, sources and joins are about
  fewer than \<open>2 ^ 64\<close> requests, so no number is given out twice. The interval join is exact for whole times
  (\<open>whole\<close>), and \<open>fractional_pair_lost\<close> shows that this is needed.

  \<^bold>\<open>Parameters.\<close> Third-party code is a parameter: the formats of the browser's locale, Unicode case
  mapping and \<open>date-fns\<close> (\<open>Browser\<close>), \<open>clsx\<close> and \<open>tailwind-merge\<close>, the router's splitting of an address
  (\<open>splits_query\<close>, what its documentation says of a path and its query) and Docusaurus' routes
  (\<open>documented_routes\<close>); the order in which RocksDB returns entries (\<open>scans\<close>: each once); the number that a
  window reads off a JSON value (\<open>h_numeric\<close>), and what a filter asks of one (\<open>Json\<close>). What an append finds
  outside its stream (the clock, the owner of the key group, the room of processes, downstream operators) is
  an input (\<open>Surroundings\<close>). Witnesses instantiate them with concrete functions.

  \<^bold>\<open>Findings.\<close> What modelling showed is stated as theorems where it could be: a late reply acts on a new
  session, an overview never shows a recovery, windows are left behind after sealing
  (\<open>windows_lost_after_sealing\<close>), windows with a slide such as \<open>0.1\<close> are counted but never fired
  (\<open>fractional_window_never_fires\<close>), a record can be counted in a window that does not contain it
  (\<open>counted_twice\<close>) or never leave the loop (\<open>window_loop_never_ends\<close>), a stream joined with itself depends on the order of arrival and keeps
  retracted pairs (\<open>self_join_exact\<close>, \<open>self_join_depends_on_arrival\<close>), and a duplicate event identifier stops
  its source until the record that holds it is discarded (\<open>duplicate_stops_source\<close>). The filters' equality compares numbers as they were written
  (\<open>equal_numbers_differ\<close>).

  \<^bold>\<open>Not modelled.\<close> The shapes of icons, the fixed prose of the quickstart page, and styling; the minified
  bundles of \<open>landing/demo\<close>, which are built from the console; of the server everything but the parts above
  (several operators on a stream, the counting of several schedules, relational queries and the edges between
  operators, a discarding process beside an operator, timers, the workflow engine, storage); the command line, the control plane and the Python
  SDK.
\<close>

end
